(* ===== verification/Prelude.thy ===== *)
theory Prelude
  imports Main "HOL-Library.Char_ord" "HOL-Library.List_Lexorder" "HOL-Library.Sublist"
    "HOL-Library.Word"
begin

text \<open>
  The shared vocabulary of the development: 64-bit signed arithmetic with its wrap-around,
  run-time panics as values, and the parts of Go's packages \<open>strings\<close>, \<open>encoding/hex\<close> and
  \<open>math/big\<close> that the program calls. A Go string is a byte string, here a \<open>string\<close> (a list of
  bytes). The case maps are the ASCII ones: the program applies them to host names, methods,
  protocol and header names, and hex digits. Lists are ordered lexicographically
  (\<open>HOL-Library.List_Lexorder\<close>, \<open>HOL-Library.Char_ord\<close>), which is Go's order on strings.
\<close>

named_theorems gostr \<open>definitions of the string routines\<close>
named_theorems reg_simps \<open>definitions of the registry operations\<close>
named_theorems http_simps \<open>definitions of the HTTP helpers\<close>

section \<open>Signed 64-bit integers\<close>

text \<open>
  \<open>int64\<close> and \<open>int\<close> (64 bits on the platforms the program is built for) are values of \<open>int\<close>
  kept in range by \<open>i64\<close>, which is the two's complement wrap-around.
\<close>

definition i64 :: "int \<Rightarrow> int" where
  "i64 x = (x + 2 ^ 63) mod 2 ^ 64 - 2 ^ 63"

definition in_i64 :: "int \<Rightarrow> bool" where
  "in_i64 x \<longleftrightarrow> - (2 ^ 63) \<le> x \<and> x < 2 ^ 63"

lemma in_i64_i64 [simp]: "in_i64 (i64 x)"
proof -
  have "0 \<le> (x + 2 ^ 63) mod 2 ^ 64" "(x + 2 ^ 63) mod 2 ^ 64 < 2 ^ 64"
    by simp_all
  then show ?thesis by (simp add: in_i64_def i64_def)
qed

lemma i64_id [simp]: "in_i64 x \<Longrightarrow> i64 x = x"
  by (simp add: in_i64_def i64_def)

lemma i64_sint: "i64 x = sint (word_of_int x :: 64 word)"
  by (simp add: i64_def sint_sbintrunc' signed_take_bit_eq_take_bit_shift take_bit_eq_mod)

section \<open>Panics\<close>

text \<open>
  A Go run-time panic is a value. A routine that can panic returns \<open>panic + 'a\<close>; \<open>and_then\<close>
  runs the rest of the body only where the part before it returned.
\<close>

datatype panic = SliceBounds | MakeSliceCap | NilDeref

fun and_then :: "panic + 'a \<Rightarrow> ('a \<Rightarrow> panic + 'b) \<Rightarrow> panic + 'b" where
  "and_then (Inl p) f = Inl p"
| "and_then (Inr x) f = f x"

lemma and_then_Inr [simp]: "and_then m f = Inr y \<longleftrightarrow> (\<exists>x. m = Inr x \<and> f x = Inr y)"
  by (cases m) auto

lemma and_then_Inl: "and_then m f = Inl p \<longleftrightarrow> m = Inl p \<or> (\<exists>x. m = Inr x \<and> f x = Inl p)"
  by (cases m) auto

section \<open>Package strings\<close>

definition HasPrefix :: "string \<Rightarrow> string \<Rightarrow> bool" where
  [gostr]: "HasPrefix s p \<longleftrightarrow> prefix p s"

definition HasSuffix :: "string \<Rightarrow> string \<Rightarrow> bool" where
  [gostr]: "HasSuffix s p \<longleftrightarrow> suffix p s"

definition Contains :: "string \<Rightarrow> string \<Rightarrow> bool" where
  [gostr]: "Contains s t \<longleftrightarrow> sublist t s"

definition TrimPrefix :: "string \<Rightarrow> string \<Rightarrow> string" where
  [gostr]: "TrimPrefix s p = (if prefix p s then drop (length p) s else s)"

definition TrimSuffix :: "string \<Rightarrow> string \<Rightarrow> string" where
  [gostr]: "TrimSuffix s p = (if suffix p s then take (length s - length p) s else s)"

definition TrimLeft :: "string \<Rightarrow> string \<Rightarrow> string" where
  [gostr]: "TrimLeft s cutset = dropWhile (\<lambda>c. c \<in> set cutset) s"

definition TrimRight :: "string \<Rightarrow> string \<Rightarrow> string" where
  [gostr]: "TrimRight s cutset = rev (dropWhile (\<lambda>c. c \<in> set cutset) (rev s))"

definition Trim :: "string \<Rightarrow> string \<Rightarrow> string" where
  [gostr]: "Trim s cutset = TrimRight (TrimLeft s cutset) cutset"

text \<open>The white space of \<open>TrimSpace\<close>: tab, newline, vertical tab, form feed, return, blank.\<close>

definition TrimSpace :: "string \<Rightarrow> string" where
  "TrimSpace s = Trim s (map char_of [9 :: nat, 10, 11, 12, 13, 32])"

definition lower_char :: "char \<Rightarrow> char" where
  "lower_char c =
     (if 65 \<le> (of_char c :: nat) \<and> (of_char c :: nat) \<le> 90
      then char_of ((of_char c :: nat) + 32) else c)"

lemma lower_char_bits:
  "\<forall>b0 b1 b2 b3 b4 b5 b6 b7. lower_char (Char b0 b1 b2 b3 b4 b5 b6 b7) =
     (if \<not> b7 \<and> b6 \<and> \<not> b5 \<and> (b0 \<or> b1 \<or> b2 \<or> b3 \<or> b4)
           \<and> \<not> (b4 \<and> b3 \<and> (b2 \<or> b1 \<and> b0))
      then Char b0 b1 b2 b3 b4 True b6 b7 else Char b0 b1 b2 b3 b4 b5 b6 b7)"
  by code_simp

lemmas lower_char_Char [simp] = lower_char_bits [rule_format]

definition upper_char :: "char \<Rightarrow> char" where
  "upper_char c =
     (if 97 \<le> (of_char c :: nat) \<and> (of_char c :: nat) \<le> 122
      then char_of ((of_char c :: nat) - 32) else c)"

definition ToLower :: "string \<Rightarrow> string" where
  "ToLower s = map lower_char s"

definition ToUpper :: "string \<Rightarrow> string" where
  "ToUpper s = map upper_char s"

definition EqualFold :: "string \<Rightarrow> string \<Rightarrow> bool" where
  "EqualFold s t \<longleftrightarrow> ToLower s = ToLower t"

text \<open>\<open>strings.Split\<close> at a one-byte separator, and \<open>strings.Join\<close>.\<close>

fun Split :: "string \<Rightarrow> char \<Rightarrow> string list" where
  "Split [] c = [[]]"
| "Split (x # xs) c =
     (if x = c then [] # Split xs c
      else (case Split xs c of [] \<Rightarrow> [[x]] | w # ws \<Rightarrow> (x # w) # ws))"

fun Join :: "string list \<Rightarrow> string \<Rightarrow> string" where
  "Join [] sep = []"
| "Join [w] sep = w"
| "Join (w # v # ws) sep = w @ sep @ Join (v # ws) sep"

text \<open>\<open>strings.SplitN(s, c, 2)\<close>: cut once, at the first separator.\<close>

fun SplitN2 :: "string \<Rightarrow> char \<Rightarrow> string list" where
  "SplitN2 s c =
     (if c \<in> set s then [takeWhile (\<lambda>x. x \<noteq> c) s, tl (dropWhile (\<lambda>x. x \<noteq> c) s)] else [s])"

text \<open>
  \<open>strings.ReplaceAll\<close>: left to right, non-overlapping. An empty pattern matches before every
  character and at the end.
\<close>

function ReplaceAll :: "string \<Rightarrow> string \<Rightarrow> string \<Rightarrow> string" where
  "ReplaceAll s old new =
     (if old = [] then new @ concat (map (\<lambda>c. c # new) s)
      else if prefix old s then new @ ReplaceAll (drop (length old) s) old new
      else (case s of [] \<Rightarrow> [] | c # cs \<Rightarrow> c # ReplaceAll cs old new))"
  by pat_completeness auto
termination
  by (relation "measure (\<lambda>(s, old, new). length s)") (auto simp: prefix_def)

declare ReplaceAll.simps [simp del]

section \<open>Facts about the string routines\<close>

lemma ReplaceAll_Nil [simp]: "old \<noteq> [] \<Longrightarrow> ReplaceAll [] old new = []"
  by (subst ReplaceAll.simps) (simp add: prefix_def)

lemma ReplaceAll_hit:
  "old \<noteq> [] \<Longrightarrow> prefix old s \<Longrightarrow>
     ReplaceAll s old new = new @ ReplaceAll (drop (length old) s) old new"
  by (subst ReplaceAll.simps) simp

lemma ReplaceAll_miss:
  "old \<noteq> [] \<Longrightarrow> \<not> prefix old (c # cs) \<Longrightarrow> ReplaceAll (c # cs) old new = c # ReplaceAll cs old new"
  by (subst ReplaceAll.simps) simp

lemma ReplaceAll_absent: "old \<noteq> [] \<Longrightarrow> \<not> sublist old s \<Longrightarrow> ReplaceAll s old new = s"
proof (induction s)
  case (Cons c cs)
  then have "\<not> prefix old (c # cs)" "\<not> sublist old cs"
    by (auto simp: sublist_Cons_right)
  with Cons show ?case by (simp add: ReplaceAll_miss)
qed simp

lemma length_ToLower [simp]: "length (ToLower s) = length s"
  by (simp add: ToLower_def)

lemma ToLower_append [simp]: "ToLower (s @ t) = ToLower s @ ToLower t"
  by (simp add: ToLower_def)

lemma ToLower_simps [simp]:
  "ToLower [] = []"
  "ToLower (c # cs) = lower_char c # ToLower cs"
  by (simp_all add: ToLower_def)

lemma EqualFold_simps [simp]:
  "EqualFold [] []"
  "\<not> EqualFold (c # cs) []"
  "\<not> EqualFold [] (d # ds)"
  "EqualFold (c # cs) (d # ds) \<longleftrightarrow> lower_char c = lower_char d \<and> EqualFold cs ds"
  by (simp_all add: EqualFold_def)

lemma lower_char_idem [simp]: "lower_char (lower_char c) = lower_char c"
  by (simp add: lower_char_def)

lemma lower_char_slash: "lower_char c = CHR ''/'' \<longleftrightarrow> c = CHR ''/''"
  by (cases c) (auto split: if_splits)

lemma ToLower_idem [simp]: "ToLower (ToLower s) = ToLower s"
  by (simp add: ToLower_def comp_def)

lemma EqualFold_refl [simp, intro]: "EqualFold s s"
  by (simp add: EqualFold_def)

lemma EqualFold_sym: "EqualFold s t \<Longrightarrow> EqualFold t s"
  by (simp add: EqualFold_def)

lemma EqualFold_trans [trans]: "EqualFold s t \<Longrightarrow> EqualFold t u \<Longrightarrow> EqualFold s u"
  by (simp add: EqualFold_def)

lemma Split_nonempty [simp]: "Split s c \<noteq> []"
  by (induction s c rule: Split.induct) (auto split: list.splits)

lemma Split_no_sep: "w \<in> set (Split s c) \<Longrightarrow> c \<notin> set w"
  by (induction s c arbitrary: w rule: Split.induct) (auto split: list.splits if_splits)

lemma Join_Cons: "ws \<noteq> [] \<Longrightarrow> Join (w # ws) sep = w @ sep @ Join ws sep"
  by (cases ws) auto

lemma Join_Split: "Join (Split s c) [c] = s"
proof (induction s c rule: Split.induct)
  case (2 x xs c)
  show ?case
  proof (cases "Split xs c")
    case (Cons w ws)
    with 2 show ?thesis by (cases ws) (auto simp: Join_Cons)
  qed simp
qed simp

lemma Split_self: "c \<notin> set s \<Longrightarrow> Split s c = [s]"
  by (induction s) auto

lemma Split_append_sep: "c \<notin> set s \<Longrightarrow> Split (s @ c # t) c = s # Split t c"
  by (induction s) auto

lemma TrimPrefix_append [simp]: "TrimPrefix (p @ s) p = s"
  by (simp add: TrimPrefix_def)

lemma HasPrefix_append [simp]: "HasPrefix (p @ s) p"
  by (simp add: HasPrefix_def)

lemma HasPrefix_TrimPrefix: "HasPrefix s p \<Longrightarrow> p @ TrimPrefix s p = s"
  by (auto simp: HasPrefix_def TrimPrefix_def prefix_def)

lemma Contains_append: "Contains (s @ t @ u) t"
  by (simp add: Contains_def)

section \<open>Map iteration\<close>

text \<open>
  Go visits the keys of a map in an unspecified order. An operation whose result can depend on
  that order takes the order as an argument, a list of the keys; \<open>is_order\<close> says that it is one.
\<close>

definition is_order :: "'k list \<Rightarrow> ('k \<rightharpoonup> 'v) \<Rightarrow> bool" where
  "is_order ks m \<longleftrightarrow> distinct ks \<and> set ks = dom m"

definition visit :: "'k list \<Rightarrow> ('k \<rightharpoonup> 'v) \<Rightarrow> 'v list" where
  "visit ks m = List.map_filter m ks"

lemma set_visit: "set (visit ks m) = {v. \<exists>k \<in> set ks. m k = Some v}"
  by (force simp: visit_def List.map_filter_def)

lemma set_visit_ran: "is_order ks m \<Longrightarrow> set (visit ks m) = ran m"
  by (auto simp: set_visit is_order_def ran_def dom_def)

lemma visit_simps [simp]:
  "visit [] m = []"
  "visit (k # ks) m = (case m k of None \<Rightarrow> visit ks m | Some v \<Rightarrow> v # visit ks m)"
  by (simp_all add: visit_def List.map_filter_def split: option.splits)

lemma length_visit: "set ks \<subseteq> dom m \<Longrightarrow> length (visit ks m) = length ks"
  by (induction ks) auto

end
