(* ===== verification/Utf8.thy ===== *)
theory Utf8
  imports Prelude
begin

text \<open>
  UTF-8, as \<open>unicode/utf8\<close> reads and writes it: the JSON reader and writer replace bytes that are
  no UTF-8. A string is a list of bytes; a rune is its number.
\<close>

definition byte_in :: "nat \<Rightarrow> nat \<Rightarrow> char \<Rightarrow> bool" where
  "byte_in lo hi c \<longleftrightarrow> lo \<le> of_char c \<and> of_char c \<le> hi"

text \<open>The number of bytes of the rune at the head of a text, 0 where there is none.\<close>

definition tail_ok :: "nat \<Rightarrow> nat \<Rightarrow> nat \<Rightarrow> string \<Rightarrow> bool" where
  "tail_ok k lo hi s \<longleftrightarrow>
     k < length s \<and> byte_in lo hi (hd s) \<and> list_all (byte_in 128 191) (take k (tl s))"

fun rune_size :: "string \<Rightarrow> nat" where
  "rune_size [] = 0"
| "rune_size (a # s) =
     (let n = of_char a :: nat
      in if n < 128 then 1
         else if 194 \<le> n \<and> n < 224 \<and> tail_ok 0 128 191 s then 2
         else if 224 \<le> n \<and> n < 240
                   \<and> tail_ok 1 (if n = 224 then 160 else 128) (if n = 237 then 159 else 191) s then 3
         else if 240 \<le> n \<and> n < 245
                   \<and> tail_ok 2 (if n = 240 then 144 else 128) (if n = 244 then 143 else 191) s then 4
         else 0)"

declare rune_size.simps [simp del]

lemma rune_size_Nil [simp]: "rune_size [] = 0"
  by (simp add: rune_size.simps)

lemma rune_size_le: "rune_size s \<le> length s"
proof (cases s)
  case (Cons a t)
  have "tail_ok k lo hi t \<Longrightarrow> Suc k \<le> length t" for k lo hi by (simp add: tail_ok_def)
  from this [of 0] this [of 1] this [of 2] Cons show ?thesis
    by (auto simp: rune_size.simps Let_def numeral_3_eq_3 numeral_2_eq_2)
qed simp

lemma tail_ok_append: "tail_ok k lo hi s \<Longrightarrow> tail_ok k lo hi (s @ t)"
  by (cases s) (auto simp: tail_ok_def)

lemma rune_size_append:
  assumes "rune_size s \<noteq> 0"
  shows "rune_size (s @ t) = rune_size s"
proof (cases s)
  case (Cons a u)
  show ?thesis
    using assms tail_ok_append [of 0 _ _ u t] tail_ok_append [of 1 _ _ u t] tail_ok_append [of 2 _ _ u t]
    by (simp add: Cons rune_size.simps Let_def split: if_split_asm)
qed (use assms in simp)

lemma rune_size_take:
  assumes "rune_size s \<noteq> 0"
  shows "rune_size (take (rune_size s) s) = rune_size s"
proof (cases s)
  case (Cons a u)
  have "tail_ok k lo hi u \<Longrightarrow> tail_ok k lo hi (take (Suc k) u)" for k lo hi
    by (cases u) (auto simp: tail_ok_def)
  from this [of 0] this [of 1] this [of 2] assms show ?thesis
    by (auto simp: Cons rune_size.simps Let_def numeral_3_eq_3 numeral_2_eq_2 split: if_split_asm)
qed (use assms in simp)

lemma rune_size_one: "rune_size (a # s) = 1 \<longleftrightarrow> of_char a < (128 :: nat)"
  by (simp add: rune_size.simps Let_def)

text \<open>The replacement character, and a text with every byte that is no UTF-8 replaced by it.\<close>

definition replacement :: string where
  "replacement = [CHR 0xEF, CHR 0xBF, CHR 0xBD]"

function fix_utf8 :: "string \<Rightarrow> string" where
  "fix_utf8 [] = []"
| "fix_utf8 (a # s) =
     (let k = rune_size (a # s)
      in if k = 0 then replacement @ fix_utf8 s
         else take k (a # s) @ fix_utf8 (drop k (a # s)))"
  by pat_completeness auto
termination by (relation "measure length") (auto dest: gr0I)

function valid_utf8 :: "string \<Rightarrow> bool" where
  "valid_utf8 [] = True"
| "valid_utf8 (a # s) =
     (let k = rune_size (a # s) in if k = 0 then False else valid_utf8 (drop k (a # s)))"
  by pat_completeness auto
termination by (relation "measure length") (auto dest: gr0I)

declare fix_utf8.simps [simp del] valid_utf8.simps [simp del]

lemmas utf8_Nil [simp] = fix_utf8.simps(1) valid_utf8.simps(1)

lemma fix_utf8_valid: "valid_utf8 s \<Longrightarrow> fix_utf8 s = s"
  by (induction s rule: fix_utf8.induct)
    (auto simp: Let_def fix_utf8.simps valid_utf8.simps split: if_splits)

text \<open>ASCII texts are valid, and their bytes are runes of their own.\<close>

lemma rune_size_ascii: "of_char a < (128 :: nat) \<Longrightarrow> rune_size (a # s) = 1"
  by (simp add: rune_size.simps)

lemma valid_utf8_ascii_Cons [simp]: "of_char a < (128 :: nat) \<Longrightarrow> valid_utf8 (a # s) = valid_utf8 s"
  by (simp add: valid_utf8.simps rune_size_ascii)

lemma valid_utf8_ascii: "\<forall>c \<in> set s. of_char c < (128 :: nat) \<Longrightarrow> valid_utf8 s"
  by (induction s) (auto simp: valid_utf8_ascii_Cons)

lemma valid_utf8_append: "valid_utf8 s \<Longrightarrow> valid_utf8 t \<Longrightarrow> valid_utf8 (s @ t)"
proof (induction s rule: valid_utf8.induct)
  case (2 a s)
  then have k: "rune_size (a # s) \<noteq> 0" and v: "valid_utf8 (drop (rune_size (a # s)) (a # s))"
    by (simp_all add: valid_utf8.simps Let_def split: if_splits)
  from rune_size_append [OF k, of t] rune_size_le [of "a # s"] have
    "rune_size (a # s @ t) = rune_size (a # s)"
    "drop (rune_size (a # s)) (a # s @ t) = drop (rune_size (a # s)) (a # s) @ t"
    by (simp_all flip: append_Cons)
  with k 2(1) [OF refl k v 2(3)] show ?case by (simp add: valid_utf8.simps Let_def)
qed simp

text \<open>The bytes of a rune, \<open>utf8.EncodeRune\<close>, for a rune that is no surrogate.\<close>

definition encode_rune :: "nat \<Rightarrow> string" where
  "encode_rune n =
     (if n < 128 then [char_of n]
      else if n < 2048 then [char_of (192 + n div 64), char_of (128 + n mod 64)]
      else if n < 65536
      then [char_of (224 + n div 4096), char_of (128 + n div 64 mod 64), char_of (128 + n mod 64)]
      else [char_of (240 + n div 262144), char_of (128 + n div 4096 mod 64),
            char_of (128 + n div 64 mod 64), char_of (128 + n mod 64)])"

end
