(* ===== verification/Codec.thy ===== *)
theory Codec
  imports Utf8
begin

text \<open>
  The encodings the program uses: decimal numbers (\<open>strconv.FormatInt\<close>), \<open>encoding/hex\<close>, the
  integers of \<open>math/big\<close>, and the text that \<open>encoding/json\<close> writes for a value. A JSON number is
  kept as its literal. The reader of \<open>encoding/json\<close> is in theory Json.
\<close>

section \<open>Decimal numbers\<close>

fun show_nat :: "nat \<Rightarrow> string" where
  "show_nat n =
     (if n < 10 then [char_of (48 + n)] else show_nat (n div 10) @ [char_of (48 + n mod 10)])"

declare show_nat.simps [simp del]

definition FormatInt :: "int \<Rightarrow> string" where
  "FormatInt i = (if i < 0 then ''-'' @ show_nat (nat (- i)) else show_nat (nat i))"

text \<open>The value of a digit in a base up to 16, as \<open>math/big\<close> and \<open>encoding/hex\<close> read it.\<close>

definition digit_val :: "char \<Rightarrow> nat option" where
  "digit_val c =
     (let n = of_char c :: nat
      in if 48 \<le> n \<and> n \<le> 57 then Some (n - 48)
         else if 97 \<le> n \<and> n \<le> 102 then Some (n - 87)
         else if 65 \<le> n \<and> n \<le> 70 then Some (n - 55)
         else None)"

definition is_digit :: "nat \<Rightarrow> char \<Rightarrow> bool" where
  "is_digit base c = (case digit_val c of None \<Rightarrow> False | Some d \<Rightarrow> d < base)"

definition digits_val :: "nat \<Rightarrow> string \<Rightarrow> nat" where
  "digits_val base s =
     foldl (\<lambda>n c. n * base + (case digit_val c of None \<Rightarrow> 0 | Some d \<Rightarrow> d)) 0 s"

lemma digits_val_snoc:
  "digit_val c = Some d \<Longrightarrow> digits_val base (s @ [c]) = digits_val base s * base + d"
  by (simp add: digits_val_def)

lemma of_char_char_of_small: "n < 256 \<Longrightarrow> (of_char (char_of n :: char) :: nat) = n"
  by simp

lemma digit_val_dec: "d < 10 \<Longrightarrow> digit_val (char_of (48 + d :: nat)) = Some d"
  by (simp add: digit_val_def Let_def)

lemma show_nat_digits: "c \<in> set (show_nat n) \<Longrightarrow> is_digit 10 c"
proof (induction n arbitrary: c rule: show_nat.induct)
  case (1 n)
  then show ?case
    by (subst (asm) (2) show_nat.simps)
      (auto simp: is_digit_def digit_val_dec split: if_splits)
qed

lemma show_nat_nonempty [simp]: "show_nat n \<noteq> []"
  by (subst show_nat.simps) simp

lemma digits_val_show_nat [simp]: "digits_val 10 (show_nat n) = n"
proof (induction n rule: show_nat.induct)
  case (1 n)
  show ?case
  proof (cases "n < 10")
    case True
    then show ?thesis
      by (subst show_nat.simps) (simp add: digits_val_def digit_val_dec)
  next
    case False
    with 1 have "digits_val 10 (show_nat (n div 10)) = n div 10" by simp
    moreover have "digit_val (char_of (48 + n mod 10)) = Some (n mod 10)"
      by (rule digit_val_dec) simp
    ultimately show ?thesis
      using False by (subst show_nat.simps) (simp add: digits_val_snoc)
  qed
qed

lemma show_nat_inj [simp]: "show_nat m = show_nat n \<longleftrightarrow> m = n"
  by (metis digits_val_show_nat)

lemma show_nat_zero: "hd (show_nat n) = CHR ''0'' \<Longrightarrow> show_nat n = ''0''"
proof (induction n rule: show_nat.induct)
  case (1 n)
  show ?case
  proof (cases "n < 10")
    case True
    with 1(2) have "show_nat n = [char_of (48 + n)]" "char_of (48 + n) = CHR ''0''"
      by (simp_all add: show_nat.simps)
    then show ?thesis by simp
  next
    case False
    then have s: "show_nat n = show_nat (n div 10) @ [char_of (48 + n mod 10)]"
      by (subst show_nat.simps) simp
    with 1 False have "show_nat (n div 10) = ''0''" by simp
    then have "n div 10 = digits_val 10 ''0''" by (metis digits_val_show_nat)
    then have "n div 10 = 0" by (simp add: digits_val_def digit_val_def)
    with False show ?thesis by simp
  qed
qed

section \<open>Package math/big\<close>

text \<open>
  \<open>z.SetString(s, base)\<close> on a fresh \<open>z\<close>. Every caller ignores whether it succeeded and goes on
  with \<open>z\<close>, so the model is the value \<open>z\<close> ends with: an optional sign, then the longest run of
  digits of the base (0 where there is none). \<open>Int64\<close> and \<open>Uint64\<close> keep the low 64 bits.
\<close>

definition big_digits :: "nat \<Rightarrow> string \<Rightarrow> int" where
  "big_digits base s = int (digits_val base (takeWhile (is_digit base) s))"

fun SetString :: "string \<Rightarrow> nat \<Rightarrow> int" where
  "SetString [] base = 0"
| "SetString (c # cs) base =
     (if c = CHR ''-'' then - big_digits base cs
      else if c = CHR ''+'' then big_digits base cs
      else big_digits base (c # cs))"

definition big_Int64 :: "int \<Rightarrow> int" where
  "big_Int64 z = i64 z"

definition big_Uint64 :: "int \<Rightarrow> 64 word" where
  "big_Uint64 z = word_of_int \<bar>z\<bar>"

text \<open>\<open>z.Bytes()\<close>: the absolute value, most significant byte first, no leading zero byte.\<close>

fun be_bytes :: "nat \<Rightarrow> string" where
  "be_bytes n = (if n = 0 then [] else be_bytes (n div 256) @ [char_of (n mod 256)])"

declare be_bytes.simps [simp del]

definition big_Bytes :: "int \<Rightarrow> string" where
  "big_Bytes z = be_bytes (nat \<bar>z\<bar>)"

definition be_val :: "string \<Rightarrow> nat" where
  "be_val bs = foldl (\<lambda>n b. n * 256 + of_char b) 0 bs"

lemma be_val_Nil [simp]: "be_val [] = 0"
  by (simp add: be_val_def)

lemma be_val_snoc [simp]: "be_val (bs @ [b]) = be_val bs * 256 + of_char b"
  by (simp add: be_val_def)

lemma be_val_be_bytes [simp]: "be_val (be_bytes n) = n"
proof (induction n rule: be_bytes.induct)
  case (1 n)
  then show ?case by (subst be_bytes.simps) auto
qed

lemma be_val_zeros [simp]: "be_val (replicate k (char_of (0 :: nat)) @ bs) = be_val bs"
proof -
  have "foldl (\<lambda>n b. n * 256 + of_char b) (0 :: nat) (replicate k (char_of (0 :: nat))) = 0"
    by (induction k) auto
  then show ?thesis by (simp add: be_val_def)
qed

lemma length_be_bytes: "n < 256 ^ k \<Longrightarrow> length (be_bytes n) \<le> k"
proof (induction n arbitrary: k rule: be_bytes.induct)
  case (1 n)
  show ?case
  proof (cases "n = 0")
    case True
    then show ?thesis by (subst be_bytes.simps) simp
  next
    case False
    then obtain j where k: "k = Suc j"
      using 1(2) by (cases k) auto
    then have "n div 256 < 256 ^ j"
      using 1(2) by (simp add: div_less_iff_less_mult mult.commute)
    with 1(1) False have "length (be_bytes (n div 256)) \<le> j" by blast
    with False k show ?thesis by (subst be_bytes.simps) simp
  qed
qed

lemma length_be_bytes_gt: "256 ^ k \<le> n \<Longrightarrow> k < length (be_bytes n)"
proof (induction n arbitrary: k rule: be_bytes.induct)
  case (1 n)
  have "n \<noteq> 0" using 1(2) by (metis le_zero_eq power_not_zero zero_neq_numeral)
  show ?case
  proof (cases k)
    case 0
    with \<open>n \<noteq> 0\<close> show ?thesis by (subst be_bytes.simps) simp
  next
    case (Suc j)
    then have "256 ^ j \<le> n div 256"
      using 1(2) by (simp add: less_eq_div_iff_mult_less_eq mult.commute)
    with 1(1) \<open>n \<noteq> 0\<close> have "j < length (be_bytes (n div 256))" by blast
    with \<open>n \<noteq> 0\<close> Suc show ?thesis by (subst be_bytes.simps) simp
  qed
qed

section \<open>Package encoding/hex\<close>

definition hex_char :: "nat \<Rightarrow> char" where
  "hex_char d = (if d < 10 then char_of (48 + d) else char_of (87 + d))"

fun hex_encode :: "string \<Rightarrow> string" where
  "hex_encode [] = []"
| "hex_encode (b # bs) =
     hex_char (of_char b div 16) # hex_char (of_char b mod 16) # hex_encode bs"

text \<open>
  \<open>hex.DecodeString\<close>: the bytes decoded before the first error, and whether there was none. An
  odd length is an error found after the last full pair.
\<close>

fun hex_decode :: "string \<Rightarrow> string \<times> bool" where
  "hex_decode [] = ([], True)"
| "hex_decode [p] = ([], False)"
| "hex_decode (p # q # r) =
     (case (digit_val p, digit_val q) of
        (Some a, Some b) \<Rightarrow> (let (bs, ok) = hex_decode r in (char_of (16 * a + b) # bs, ok))
      | _ \<Rightarrow> ([], False))"

lemma digit_val_hex_char: "d < 16 \<Longrightarrow> digit_val (hex_char d) = Some d"
  by (auto simp: digit_val_def hex_char_def Let_def)

lemma of_char_less_256 [simp]: "(of_char c :: nat) < 256"
  by simp

lemma hex_decode_encode [simp]: "hex_decode (hex_encode bs) = (bs, True)"
proof (induction bs)
  case (Cons b bs)
  have "(of_char b :: nat) div 16 < 16" "(of_char b :: nat) mod 16 < 16"
    using of_char_less_256 [of b] by (simp_all add: div_less_iff_less_mult)
  with Cons show ?case by (simp add: digit_val_hex_char)
qed simp

lemma hex_encode_inj [simp]: "hex_encode a = hex_encode b \<longleftrightarrow> a = b"
  by (metis fst_conv hex_decode_encode)

lemma hex_char_ascii: "d < 16 \<Longrightarrow> of_char (hex_char d) < (128 :: nat)"
  by (simp add: hex_char_def)

lemma hex_encode_ascii: "c \<in> set (hex_encode bs) \<Longrightarrow> of_char c < (128 :: nat)"
proof (induction bs)
  case (Cons b bs)
  have "(of_char b :: nat) div 16 < 16" "(of_char b :: nat) mod 16 < 16"
    using of_char_less_256 [of b] by (simp_all add: div_less_iff_less_mult)
  with Cons hex_char_ascii show ?case by auto
qed simp

lemma valid_utf8_hex [simp]: "valid_utf8 (hex_encode bs)"
  using hex_encode_ascii by (blast intro: valid_utf8_ascii)

lemma length_hex_encode [simp]: "length (hex_encode bs) = 2 * length bs"
  by (induction bs) auto

lemma hex_encode_append [simp]: "hex_encode (a @ b) = hex_encode a @ hex_encode b"
  by (induction a) auto

lemma length_hex_decode: "2 * length (fst (hex_decode s)) \<le> length s"
  by (induction s rule: hex_decode.induct) (auto split: option.splits prod.splits)

lemma length_hex_decode_ok: "snd (hex_decode s) \<Longrightarrow> 2 * length (fst (hex_decode s)) = length s"
  by (induction s rule: hex_decode.induct) (auto split: option.splits prod.splits)

section \<open>JSON values and json.Marshal\<close>

text \<open>
  A JSON value. An object keeps its members in the order they are written; \<open>JMap\<close> below orders
  the keys, as \<open>encoding/json\<close> does when it writes a Go map. A number is its literal.
\<close>

datatype json =
    JNull
  | JBool bool
  | JNum string
  | JStr string
  | JArr "json list"
  | JObj "(string \<times> json) list"

definition JInt :: "int \<Rightarrow> json" where
  "JInt i = JNum (FormatInt i)"

definition JMap :: "(string \<times> json) list \<Rightarrow> json" where
  "JMap kvs = JObj (sort_key fst kvs)"

definition quote_char :: "char \<Rightarrow> string" where
  "quote_char c =
     (let n = of_char c :: nat
      in if n = 34 \<or> n = 92 then [CHR 0x5C, c]
         else if n = 8 then [CHR 0x5C, CHR ''b'']
         else if n = 12 then [CHR 0x5C, CHR ''f'']
         else if n = 10 then [CHR 0x5C, CHR ''n'']
         else if n = 13 then [CHR 0x5C, CHR ''r'']
         else if n = 9 then [CHR 0x5C, CHR ''t'']
         else if n < 32 \<or> n = 60 \<or> n = 62 \<or> n = 38
           then [CHR 0x5C, CHR ''u'', CHR ''0'', CHR ''0'', hex_char (n div 16), hex_char (n mod 16)]
         else [c])"

text \<open>
  Bytes that are no UTF-8 are written as the escape of the replacement character, and the line
  separators U+2028 and U+2029, which JavaScript does not allow in a string, as theirs.
\<close>

definition escape_u :: "string \<Rightarrow> string" where
  "escape_u ds = CHR 0x5C # CHR ''u'' # ds"

definition quote_rune :: "string \<Rightarrow> string" where
  "quote_rune r =
     (if r = [CHR 0xE2, CHR 0x80, CHR 0xA8] then escape_u ''2028''
      else if r = [CHR 0xE2, CHR 0x80, CHR 0xA9] then escape_u ''2029''
      else case r of [c] \<Rightarrow> quote_char c | _ \<Rightarrow> r)"

function quote_body :: "string \<Rightarrow> string" where
  "quote_body [] = []"
| "quote_body (a # s) =
     (let k = rune_size (a # s)
      in if k = 0 then escape_u ''fffd'' @ quote_body s
         else quote_rune (take k (a # s)) @ quote_body (drop k (a # s)))"
  by pat_completeness auto
termination by (relation "measure length") (auto dest: gr0I)

declare quote_body.simps(2) [simp del]

definition quote :: "string \<Rightarrow> string" where
  "quote s = [CHR 0x22] @ quote_body s @ [CHR 0x22]"

fun Marshal :: "json \<Rightarrow> string" where
  "Marshal JNull = ''null''"
| "Marshal (JBool b) = (if b then ''true'' else ''false'')"
| "Marshal (JNum lit) = lit"
| "Marshal (JStr s) = quote s"
| "Marshal (JArr vs) = ''['' @ Join (map Marshal vs) '','' @ '']''"
| "Marshal (JObj kvs) =
     ''{'' @ Join (map (\<lambda>(k, v). quote k @ '':'' @ Marshal v) kvs) '','' @ ''}''"

section \<open>Reading decoded JSON\<close>

text \<open>
  What the program does with a decoded value. A \<open>map[string]any\<close> keeps the last member of a
  repeated key. A struct field takes every member whose key is its name up to case, in order: a
  string member sets it, \<open>null\<close> leaves it, any other kind makes the decoding fail.
\<close>

fun obj_get :: "(string \<times> json) list \<Rightarrow> string \<Rightarrow> json option" where
  "obj_get [] k = None"
| "obj_get ((k', v) # kvs) k =
     (case obj_get kvs k of Some w \<Rightarrow> Some w | None \<Rightarrow> if k' = k then Some v else None)"

definition asString :: "json option \<Rightarrow> string" where
  "asString v = (case v of Some (JStr s) \<Rightarrow> s | _ \<Rightarrow> [])"

text \<open>
  Decoding into a Go value: a decoder takes the JSON value and the value that is already there,
  and fails on a kind it cannot store.
\<close>

type_synonym 'a decoder = "json \<Rightarrow> 'a \<Rightarrow> 'a option"

fun field :: "string \<Rightarrow> 'a decoder \<Rightarrow> (string \<times> json) list \<Rightarrow> 'a \<Rightarrow> 'a option" where
  "field name d [] cur = Some cur"
| "field name d ((k, v) # kvs) cur =
     (if EqualFold name k
      then (case d v cur of None \<Rightarrow> None | Some cur' \<Rightarrow> field name d kvs cur')
      else field name d kvs cur)"

definition d_string :: "string decoder" where
  "d_string v cur = (case v of JStr s \<Rightarrow> Some s | JNull \<Rightarrow> Some cur | _ \<Rightarrow> None)"

definition d_bool :: "bool decoder" where
  "d_bool v cur = (case v of JBool b \<Rightarrow> Some b | JNull \<Rightarrow> Some cur | _ \<Rightarrow> None)"

text \<open>An integer field takes a literal that is an integer in the range of \<open>int64\<close>.\<close>

definition ParseInt :: "string \<Rightarrow> int option" where
  "ParseInt lit =
     (let neg = (lit \<noteq> [] \<and> hd lit = CHR ''-''); ds = (if neg then tl lit else lit);
          n = (if neg then - int (digits_val 10 ds) else int (digits_val 10 ds))
      in if ds \<noteq> [] \<and> list_all (is_digit 10) ds \<and> in_i64 n then Some n else None)"

definition d_int :: "int decoder" where
  "d_int v cur = (case v of JNum lit \<Rightarrow> ParseInt lit | JNull \<Rightarrow> Some cur | _ \<Rightarrow> None)"

fun d_elems :: "'a decoder \<Rightarrow> 'a \<Rightarrow> json list \<Rightarrow> 'a list option" where
  "d_elems d zero [] = Some []"
| "d_elems d zero (v # vs) =
     (case d v zero of None \<Rightarrow> None
      | Some x \<Rightarrow> (case d_elems d zero vs of None \<Rightarrow> None | Some xs \<Rightarrow> Some (x # xs)))"

definition d_list :: "'a decoder \<Rightarrow> 'a \<Rightarrow> 'a list decoder" where
  "d_list d zero v cur =
     (case v of JArr vs \<Rightarrow> d_elems d zero vs | JNull \<Rightarrow> Some [] | _ \<Rightarrow> None)"

definition d_object :: "((string \<times> json) list \<Rightarrow> 'a \<Rightarrow> 'a option) \<Rightarrow> 'a decoder" where
  "d_object d v cur = (case v of JObj kvs \<Rightarrow> d kvs cur | JNull \<Rightarrow> Some cur | _ \<Rightarrow> None)"

definition d_pointer :: "'a decoder \<Rightarrow> 'a \<Rightarrow> 'a option decoder" where
  "d_pointer d zero v cur =
     (case v of JNull \<Rightarrow> Some None
      | _ \<Rightarrow> (case d v (case cur of None \<Rightarrow> zero | Some x \<Rightarrow> x) of
               None \<Rightarrow> None | Some x \<Rightarrow> Some (Some x)))"

text \<open>A \<open>map[string]string\<close>; \<open>null\<close> makes it nil, a repeated key keeps its last value.\<close>

fun put :: "string \<Rightarrow> string \<Rightarrow> (string \<times> string) list \<Rightarrow> (string \<times> string) list" where
  "put k v [] = [(k, v)]"
| "put k v ((k', v') # kvs) = (if k' = k then (k, v) # kvs else (k', v') # put k v kvs)"

fun d_members :: "(string \<times> json) list \<Rightarrow> (string \<times> string) list \<Rightarrow> (string \<times> string) list option"
where
  "d_members [] acc = Some acc"
| "d_members ((k, v) # kvs) acc =
     (case d_string v [] of None \<Rightarrow> None | Some s \<Rightarrow> d_members kvs (put k s acc))"

definition d_smap :: "(string \<times> string) list option decoder" where
  "d_smap v cur =
     (case v of JNull \<Rightarrow> Some None
      | JObj kvs \<Rightarrow> map_option Some (d_members kvs (case cur of None \<Rightarrow> [] | Some m \<Rightarrow> m))
      | _ \<Rightarrow> None)"

lemma list_all_show_nat [simp]: "list_all (is_digit 10) (show_nat n)"
  by (simp add: list_all_iff show_nat_digits)

lemma minus_no_digit: "\<not> is_digit 10 (CHR ''-'')"
  by (simp add: is_digit_def digit_val_def)

lemma hd_show_nat: "hd (show_nat n) \<noteq> CHR ''-''"
  using show_nat_digits [of "hd (show_nat n)" n] minus_no_digit by auto

lemma ParseInt_FormatInt [simp]: "in_i64 i \<Longrightarrow> ParseInt (FormatInt i) = Some i"
  by (auto simp: ParseInt_def FormatInt_def Let_def hd_show_nat)

lemma d_int_JInt [simp]: "in_i64 i \<Longrightarrow> d_int (JInt i) cur = Some i"
  by (simp add: d_int_def JInt_def)

lemma d_string_JStr [simp]: "d_string (JStr s) cur = Some s"
  by (simp add: d_string_def)

end
