(* ===== verification/Json.thy ===== *)
theory Json
  imports Codec
begin

text \<open>
  The reader of \<open>encoding/json\<close>: the lexical structure, the push-down automaton of its scanner with
  the limit of 10000 open arrays and objects, \<open>Unmarshal\<close> for a whole text and \<open>Decode\<close> for the first
  value of a stream. Reading what \<open>Marshal\<close> wrote gives the value back.
\<close>

section \<open>Strings\<close>

text \<open>The escapes, after the backslash: the bytes an escape stands for, and the rest.\<close>

fun hex4 :: "string \<Rightarrow> (nat \<times> string) option" where
  "hex4 (a # b # c # d # r) =
     (case (digit_val a, digit_val b, digit_val c, digit_val d) of
        (Some p, Some q, Some s, Some t) \<Rightarrow> Some (((p * 16 + q) * 16 + s) * 16 + t, r)
      | _ \<Rightarrow> None)"
| "hex4 _ = None"

definition surrogate :: "nat \<Rightarrow> bool" where
  "surrogate n \<longleftrightarrow> 0xD800 \<le> n \<and> n < 0xE000"

text \<open>The second half of a surrogate pair, if it follows the first half \<open>n\<close>.\<close>

definition low_half :: "nat \<Rightarrow> string \<Rightarrow> (nat \<times> string) option" where
  "low_half n r =
     (case r of
        a # b # s \<Rightarrow>
          if a = CHR 0x5C \<and> b = CHR ''u'' \<and> n < 0xDC00
          then (case hex4 s of
                  Some (m, r') \<Rightarrow>
                    if 0xDC00 \<le> m \<and> m < 0xE000
                    then Some ((n - 0xD800) * 1024 + (m - 0xDC00) + 0x10000, r') else None
                | None \<Rightarrow> None)
          else None
      | _ \<Rightarrow> None)"

definition unicode_escape :: "string \<Rightarrow> (string \<times> string) option" where
  "unicode_escape r =
     (case hex4 r of
        None \<Rightarrow> None
      | Some (n, r1) \<Rightarrow>
          if \<not> surrogate n then Some (encode_rune n, r1)
          else (case low_half n r1 of
                  Some (m, r2) \<Rightarrow> Some (encode_rune m, r2)
                | None \<Rightarrow> Some (replacement, r1)))"

definition escape :: "string \<Rightarrow> (string \<times> string) option" where
  "escape s =
     (case s of
        [] \<Rightarrow> None
      | e # r \<Rightarrow>
          if e = CHR ''b'' then Some ([CHR 0x08], r)
          else if e = CHR ''f'' then Some ([CHR 0x0C], r)
          else if e = CHR ''n'' then Some ([CHR 0x0A], r)
          else if e = CHR ''r'' then Some ([CHR 0x0D], r)
          else if e = CHR ''t'' then Some ([CHR 0x09], r)
          else if e \<in> {CHR 0x5C, CHR ''/'', CHR 0x22} then Some ([e], r)
          else if e = CHR ''u'' then unicode_escape r
          else None)"

text \<open>One piece of a string: an escape, a rune, or a byte that is replaced.\<close>

definition piece :: "char \<Rightarrow> string \<Rightarrow> (string \<times> string) option" where
  "piece c r =
     (if c = CHR 0x5C then escape r
      else if of_char c < (32 :: nat) then None
      else let k = rune_size (c # r)
           in if k = 0 then Some (replacement, r) else Some (take k (c # r), drop k (c # r)))"

lemma hex4_rest: "hex4 s = Some (n, r) \<Longrightarrow> length r < length s"
  by (induction s rule: hex4.induct) (auto split: option.splits)

lemma low_half_rest: "low_half n s = Some (m, r) \<Longrightarrow> length r < length s"
  by (auto simp: low_half_def split: list.splits if_splits option.splits dest!: hex4_rest)

lemma unicode_escape_rest: "unicode_escape s = Some (b, r) \<Longrightarrow> length r < length s"
  by (auto simp: unicode_escape_def split: option.splits if_splits
      dest!: hex4_rest low_half_rest)

lemma escape_rest: "escape s = Some (b, r) \<Longrightarrow> length r < length s"
  by (auto simp: escape_def split: list.splits if_splits dest!: unicode_escape_rest)

lemma piece_rest: "piece c s = Some (b, r) \<Longrightarrow> length r \<le> length s"
  by (auto simp: piece_def Let_def split: if_splits dest!: escape_rest)

text \<open>A string after its opening quote.\<close>

function scan_string :: "string \<Rightarrow> (string \<times> string) option" where
  "scan_string [] = None"
| "scan_string (c # r) =
     (if c = CHR 0x22 then Some ([], r)
      else case piece c r of
             None \<Rightarrow> None
           | Some (b, r') \<Rightarrow>
               (case scan_string r' of None \<Rightarrow> None | Some (s, z) \<Rightarrow> Some (b @ s, z)))"
  by pat_completeness auto
termination by (relation "measure length") (auto dest: piece_rest)

declare scan_string.simps(2) [simp del]

lemma scan_string_rest: "scan_string s = Some (t, r) \<Longrightarrow> length r < length s"
proof (induction s arbitrary: t rule: scan_string.induct)
  case (2 c s)
  show ?case
  proof (cases "c = CHR 0x22")
    case False
    with 2(2) obtain b r' t' where "piece c s = Some (b, r')" "scan_string r' = Some (t', r)"
      by (auto simp: scan_string.simps split: option.splits)
    from 2(1) [OF False this(1) refl this(2)] piece_rest [OF this(1)] show ?thesis by simp
  qed (use 2(2) in \<open>simp add: scan_string.simps\<close>)
qed simp

section \<open>Numbers\<close>

definition digits :: "string \<Rightarrow> string" where
  "digits s = takeWhile (is_digit 10) s"

definition scan_sign :: "char set \<Rightarrow> string \<Rightarrow> string \<times> string" where
  "scan_sign cs s = (case s of c # r \<Rightarrow> if c \<in> cs then ([c], r) else ([], s) | [] \<Rightarrow> ([], s))"

text \<open>The integer part, the fraction and the exponent; the last two may be absent.\<close>

definition scan_int :: "string \<Rightarrow> (string \<times> string) option" where
  "scan_int s =
     (let ds = digits s; ds = (if ds \<noteq> [] \<and> hd ds = CHR ''0'' then ''0'' else ds)
      in if ds = [] then None else Some (ds, drop (length ds) s))"

definition scan_frac :: "string \<Rightarrow> (string \<times> string) option" where
  "scan_frac s =
     (case s of
        c # r \<Rightarrow>
          if c = CHR ''.''
          then (if digits r = [] then None else Some (c # digits r, drop (length (digits r)) r))
          else Some ([], s)
      | [] \<Rightarrow> Some ([], s))"

definition scan_exp :: "string \<Rightarrow> (string \<times> string) option" where
  "scan_exp s =
     (case s of
        c # r \<Rightarrow>
          if c \<in> {CHR ''e'', CHR ''E''}
          then (let (sg, r') = scan_sign {CHR ''+'', CHR ''-''} r
                in if digits r' = [] then None
                   else Some (c # sg @ digits r', drop (length (digits r')) r'))
          else Some ([], s)
      | [] \<Rightarrow> Some ([], s))"

definition scan_number :: "string \<Rightarrow> (string \<times> string) option" where
  "scan_number s =
     (let (sg, r) = scan_sign {CHR ''-''} s
      in case scan_int r of None \<Rightarrow> None | Some (i, r1) \<Rightarrow>
        (case scan_frac r1 of None \<Rightarrow> None | Some (f, r2) \<Rightarrow>
           (case scan_exp r2 of None \<Rightarrow> None | Some (e, r3) \<Rightarrow> Some (sg @ i @ f @ e, r3))))"

text \<open>Each scanner splits its input.\<close>

lemma digits_drop [simp]: "digits s @ drop (length (digits s)) s = s"
  by (simp add: digits_def dropWhile_eq_drop [symmetric])

lemma scan_sign_split: "fst (scan_sign cs s) @ snd (scan_sign cs s) = s"
  by (simp add: scan_sign_def split: list.split)

lemma scan_int_split: "scan_int s = Some (t, r) \<Longrightarrow> s = t @ r \<and> t \<noteq> []"
  by (cases s) (auto simp: scan_int_def Let_def digits_def dropWhile_eq_drop [symmetric] split: if_splits)

lemma scan_frac_split: "scan_frac s = Some (t, r) \<Longrightarrow> s = t @ r"
  by (auto simp: scan_frac_def split: list.splits if_splits)

lemma scan_exp_split: "scan_exp s = Some (t, r) \<Longrightarrow> s = t @ r"
  using scan_sign_split [of "{CHR ''+'', CHR ''-''}" "tl s"]
  by (auto simp: scan_exp_def Let_def split: list.splits if_splits prod.splits)

lemma scan_number_split:
  assumes "scan_number s = Some (t, r)"
  shows "s = t @ r" "t \<noteq> []"
proof -
  obtain sg u where sg: "scan_sign {CHR ''-''} s = (sg, u)" by fastforce
  with assms obtain i r1 f r2 e where "scan_int u = Some (i, r1)" "scan_frac r1 = Some (f, r2)"
    "scan_exp r2 = Some (e, r)" "t = sg @ i @ f @ e"
    by (auto simp: scan_number_def split: option.splits)
  with scan_sign_split [of "{CHR ''-''}" s] sg show "s = t @ r" "t \<noteq> []"
    by (auto dest!: scan_int_split scan_frac_split scan_exp_split)
qed

section \<open>Tokens\<close>

datatype token = Open_arr | Close_arr | Open_obj | Close_obj | Colon | Comma | Scalar json

definition space :: "char \<Rightarrow> bool" where
  "space c \<longleftrightarrow> c \<in> {CHR 0x20, CHR 0x09, CHR 0x0A, CHR 0x0D}"

definition skip_space :: "string \<Rightarrow> string" where
  "skip_space s = dropWhile space s"

definition keyword :: "string \<Rightarrow> json \<Rightarrow> string \<Rightarrow> (token \<times> string) option" where
  "keyword k v s = (if prefix k s then Some (Scalar v, drop (length k) s) else None)"

definition lex_token :: "char \<Rightarrow> string \<Rightarrow> (token \<times> string) option" where
  "lex_token c r =
     (if c = CHR ''['' then Some (Open_arr, r)
      else if c = CHR '']'' then Some (Close_arr, r)
      else if c = CHR ''{'' then Some (Open_obj, r)
      else if c = CHR ''}'' then Some (Close_obj, r)
      else if c = CHR '':'' then Some (Colon, r)
      else if c = CHR '','' then Some (Comma, r)
      else if c = CHR 0x22 then map_option (map_prod (Scalar \<circ> JStr) id) (scan_string r)
      else if c = CHR ''t'' then keyword ''rue'' (JBool True) r
      else if c = CHR ''f'' then keyword ''alse'' (JBool False) r
      else if c = CHR ''n'' then keyword ''ull'' JNull r
      else map_option (map_prod (Scalar \<circ> JNum) id) (scan_number (c # r)))"

definition lex :: "string \<Rightarrow> (token \<times> string) option" where
  "lex s = (case skip_space s of [] \<Rightarrow> None | c # r \<Rightarrow> lex_token c r)"

lemma lex_token_rest: "lex_token c s = Some (t, r) \<Longrightarrow> length r \<le> length s"
proof -
  assume a: "lex_token c s = Some (t, r)"
  have "length r \<le> length s" if "scan_number (c # s) = Some (u, r)" for u
    using scan_number_split [OF that] by (cases u) auto
  with a show ?thesis
    by (auto simp: lex_token_def keyword_def split: if_splits dest: scan_string_rest)
qed

lemma lex_rest: "lex s = Some (t, r) \<Longrightarrow> length r < length s"
  using length_dropWhile_le [of space s]
  by (auto simp: lex_def skip_space_def split: list.splits dest!: lex_token_rest)

section \<open>The automaton\<close>

text \<open>
  What may come next, and the open arrays and objects with what they hold so far; an object also
  holds the last key read. \<open>complete\<close> is a value that ends.
\<close>

datatype mode = Want_value | Want_first | Want_key | Want_first_key | Want_colon | After_value

datatype frame = Arr "json list" | Obj "(string \<times> json) list" string

datatype outcome = Fail | Done json | More mode "frame list"

fun complete :: "json \<Rightarrow> frame list \<Rightarrow> outcome" where
  "complete v [] = Done v"
| "complete v (Arr vs # fs) = More After_value (Arr (vs @ [v]) # fs)"
| "complete v (Obj kvs k # fs) = More After_value (Obj (kvs @ [(k, v)]) k # fs)"

definition maxNestingDepth :: nat where
  "maxNestingDepth = 10000"

definition push :: "mode \<Rightarrow> frame \<Rightarrow> frame list \<Rightarrow> outcome" where
  "push m f fs = (if length fs < maxNestingDepth then More m (f # fs) else Fail)"

fun begin_value :: "token \<Rightarrow> frame list \<Rightarrow> outcome" where
  "begin_value Open_arr fs = push Want_first (Arr []) fs"
| "begin_value Open_obj fs = push Want_first_key (Obj [] []) fs"
| "begin_value (Scalar v) fs = complete v fs"
| "begin_value _ fs = Fail"

fun close :: "token \<Rightarrow> frame list \<Rightarrow> outcome" where
  "close Close_arr (Arr vs # fs) = complete (JArr vs) fs"
| "close Close_obj (Obj kvs k # fs) = complete (JObj kvs) fs"
| "close _ fs = Fail"

fun begin_key :: "token \<Rightarrow> frame list \<Rightarrow> outcome" where
  "begin_key (Scalar (JStr k)) (Obj kvs k' # fs) = More Want_colon (Obj kvs k # fs)"
| "begin_key _ fs = Fail"

fun separate :: "frame list \<Rightarrow> outcome" where
  "separate (Arr vs # fs) = More Want_value (Arr vs # fs)"
| "separate (Obj kvs k # fs) = More Want_key (Obj kvs k # fs)"
| "separate [] = Fail"

definition feed :: "token \<Rightarrow> mode \<Rightarrow> frame list \<Rightarrow> outcome" where
  "feed t m fs =
     (case m of
        Want_value \<Rightarrow> begin_value t fs
      | Want_first \<Rightarrow> if t = Close_arr then close t fs else begin_value t fs
      | Want_key \<Rightarrow> begin_key t fs
      | Want_first_key \<Rightarrow> if t = Close_obj then close t fs else begin_key t fs
      | Want_colon \<Rightarrow> if t = Colon then More Want_value fs else Fail
      | After_value \<Rightarrow> if t = Comma then separate fs else close t fs)"

function run :: "string \<Rightarrow> mode \<Rightarrow> frame list \<Rightarrow> (json \<times> string) option" where
  "run s m fs =
     (case lex s of
        None \<Rightarrow> None
      | Some (t, r) \<Rightarrow>
          (case feed t m fs of
             Fail \<Rightarrow> None | Done v \<Rightarrow> Some (v, r) | More m' fs' \<Rightarrow> run r m' fs'))"
  by pat_completeness auto
termination by (relation "measure (\<lambda>(s, m, fs). length s)") (auto dest: lex_rest)

declare run.simps [simp del]

definition Unmarshal :: "string \<Rightarrow> json option" where
  "Unmarshal s =
     (case run s Want_value [] of
        Some (v, r) \<Rightarrow> if skip_space r = [] then Some v else None
      | None \<Rightarrow> None)"

definition Decode :: "string \<Rightarrow> json option" where
  "Decode s = map_option fst (run s Want_value [])"

text \<open>No value, no error: an empty text.\<close>

lemma read_Nil [simp]: "Unmarshal [] = None" "Decode [] = None"
  by (simp_all add: Unmarshal_def Decode_def run.simps lex_def skip_space_def)

section \<open>Reading what was written\<close>

lemma scan_string_piece:
  assumes "c \<noteq> CHR 0x22" "piece c (r @ z) = Some (b, z)"
  shows "scan_string (c # r @ z) = map_option (map_prod ((@) b) id) (scan_string z)"
  using assms by (simp add: scan_string.simps split: option.split)

lemma scan_string_escape_u:
  assumes "hex4 (ds @ z) = Some (n, z)" "\<not> surrogate n"
  shows "scan_string (escape_u ds @ z) = map_option (map_prod ((@) (encode_rune n)) id) (scan_string z)"
  using assms scan_string_piece [of "CHR 0x5C" "CHR ''u'' # ds" z "encode_rune n"]
  by (simp add: escape_u_def piece_def escape_def unicode_escape_def)

lemma hex4_hex_char:
  assumes "p < 16" "q < 16"
  shows "hex4 (CHR ''0'' # CHR ''0'' # hex_char p # hex_char q # z) = Some (p * 16 + q, z)"
  using assms by (simp add: digit_val_hex_char) (simp add: digit_val_def)

lemma char_eq_nat: "c = d \<longleftrightarrow> (of_char c :: nat) = of_char d"
  by (metis char_of_char)

definition short_escapes :: "(char \<times> char) list" where
  "short_escapes =
     [(CHR 0x22, CHR 0x22), (CHR 0x5C, CHR 0x5C), (CHR 0x08, CHR ''b''), (CHR 0x0C, CHR ''f''),
      (CHR 0x0A, CHR ''n''), (CHR 0x0D, CHR ''r''), (CHR 0x09, CHR ''t'')]"

lemma short_escapes_ok:
  "\<forall>(c, e) \<in> set short_escapes. quote_char c = [CHR 0x5C, e] \<and> (\<forall>z. escape (e # z) = Some ([c], z))"
  by (simp add: short_escapes_def quote_char_def escape_def)

lemma quote_char_cases:
  obtains (escaped) e where "quote_char c = [CHR 0x5C, e]" "\<And>z. escape (e # z) = Some ([c], z)"
  | (numbered) "quote_char c = escape_u (CHR ''0'' # CHR ''0''
      # hex_char (of_char c div 16) # hex_char (of_char c mod 16) # [])" "of_char c < (63 :: nat)"
  | (plain) "quote_char c = [c]" "c \<noteq> CHR 0x22" "c \<noteq> CHR 0x5C" "of_char c \<ge> (32 :: nat)"
proof -
  let ?n = "of_char c :: nat"
  consider "?n \<in> {34, 92, 8, 12, 10, 13, 9}" | "?n \<notin> {34, 92, 8, 12, 10, 13, 9}" "?n < 32 \<or> ?n \<in> {60, 62, 38}"
    | "?n \<notin> {34, 92, 8, 12, 10, 13, 9}" "32 \<le> ?n" "?n \<notin> {60, 62, 38}" by fastforce
  then show thesis
  proof cases
    case 1
    then have "c \<in> fst ` set short_escapes" by (simp add: short_escapes_def char_eq_nat)
    then obtain e where "(c, e) \<in> set short_escapes" by force
    then show thesis using short_escapes_ok by (intro escaped [of e]) blast+
  next
    case 2
    then show thesis by (intro numbered) (auto simp: quote_char_def escape_u_def Let_def)
  next
    case 3
    then show thesis by (intro plain) (auto simp: quote_char_def Let_def)
  qed
qed

lemma scan_string_quote_char:
  assumes "of_char c < (128 :: nat)"
  shows "scan_string (quote_char c @ z) = map_option (map_prod ((@) [c]) id) (scan_string z)"
proof (cases rule: quote_char_cases [of c])
  case (escaped e)
  then show ?thesis using scan_string_piece [of "CHR 0x5C" "[e]" z "[c]"] by (simp add: piece_def)
next
  case numbered
  then have "encode_rune (of_char c) = [c]" "\<not> surrogate (of_char c)"
    by (simp_all add: encode_rune_def surrogate_def)
  with numbered show ?thesis
    using hex4_hex_char [of "of_char c div 16" "of_char c mod 16" z]
      scan_string_escape_u [of "CHR ''0'' # CHR ''0'' # hex_char (of_char c div 16)
        # hex_char (of_char c mod 16) # []" z "of_char c"] by simp
next
  case plain
  then show ?thesis using assms scan_string_piece [of c "[]" z "[c]"]
    by (simp add: piece_def rune_size_ascii)
qed

lemma scan_string_rune:
  assumes "rune_size r = length r" "1 < length r"
  shows "scan_string (r @ z) = map_option (map_prod ((@) r) id) (scan_string z)"
proof -
  from assms obtain c s where r: "r = c # s" by (cases r) auto
  with assms have "\<not> of_char c < (128 :: nat)" using rune_size_one [of c s] by simp
  moreover from this have "c \<noteq> CHR 0x22" "c \<noteq> CHR 0x5C" by auto
  moreover have "rune_size (c # s @ z) = length (c # s)"
    using assms rune_size_append [of r z] by (simp add: r)
  ultimately show ?thesis
    using scan_string_piece [of c s z r] by (simp add: r piece_def)
qed

lemma scan_string_quote_rune:
  assumes "rune_size r = length r" "1 < length r"
  shows "scan_string (quote_rune r @ w) = map_option (map_prod ((@) r) id) (scan_string w)"
proof -
  have h: "hex4 (''2028'' @ w) = Some (8232, w)" "hex4 (''2029'' @ w) = Some (8233, w)"
    by (simp_all add: digit_val_def)
  have u: "encode_rune 8232 = [CHR 0xE2, CHR 0x80, CHR 0xA8]"
    "encode_rune 8233 = [CHR 0xE2, CHR 0x80, CHR 0xA9]" "\<not> surrogate 8232" "\<not> surrogate 8233"
    by (simp_all add: encode_rune_def surrogate_def char_eq_nat)
  have "(case r of [c] \<Rightarrow> quote_char c | _ \<Rightarrow> r) = r" using assms(2) by (auto split: list.split)
  then consider "r = [CHR 0xE2, CHR 0x80, CHR 0xA8]" | "r = [CHR 0xE2, CHR 0x80, CHR 0xA9]" | "quote_rune r = r"
    unfolding quote_rune_def by metis
  then show ?thesis
  proof cases
    case 1
    with scan_string_escape_u [OF h(1) u(3)] show ?thesis by (simp add: quote_rune_def u)
  next
    case 2
    with scan_string_escape_u [OF h(2) u(4)] show ?thesis by (simp add: quote_rune_def u)
  next
    case 3
    with scan_string_rune [OF assms] show ?thesis by simp
  qed
qed

lemma scan_string_quote: "scan_string (quote_body s @ CHR 0x22 # z) = Some (fix_utf8 s, z)"
proof (induction s rule: quote_body.induct)
  case (2 a s)
  let ?k = "rune_size (a # s)" and ?r = "take (rune_size (a # s)) (a # s)"
  consider "?k = 0" | "?k = 1" | "1 < ?k" by linarith
  then show ?case
  proof cases
    case 1
    have "hex4 (''fffd'' @ w) = Some (65533, w)" for w by (simp add: digit_val_def)
    moreover have "encode_rune 65533 = replacement" "\<not> surrogate 65533"
      by (simp_all add: encode_rune_def replacement_def surrogate_def char_eq_nat)
    ultimately show ?thesis using 1 2(1) [OF refl 1]
      by (simp add: quote_body.simps fix_utf8.simps scan_string_escape_u)
  next
    case 2
    then have "of_char a < (128 :: nat)" by (simp only: rune_size_one)
    with 2 show ?thesis using "2.IH"(2) [OF refl]
      by (simp add: quote_body.simps fix_utf8.simps quote_rune_def scan_string_quote_char)
  next
    case 3
    have len: "length ?r = ?k" using rune_size_le [of "a # s"] by simp
    have "scan_string (quote_rune ?r @ w) = map_option (map_prod ((@) ?r) id) (scan_string w)" for w
      by (rule scan_string_quote_rune) (use 3 len rune_size_take [of "a # s"] in simp_all)
    then show ?thesis using 3 "2.IH"(2) [OF refl]
      by (simp add: quote_body.simps fix_utf8.simps Let_def)
  qed
qed (simp add: scan_string.simps)

text \<open>A number's literal is read back where what follows cannot go on with it.\<close>

definition stops :: "string \<Rightarrow> bool" where
  "stops r \<longleftrightarrow> r = [] \<or> \<not> is_digit 10 (hd r) \<and> hd r \<notin> {CHR ''.'', CHR ''e'', CHR ''E''}"

lemma digits_append: "stops r \<Longrightarrow> digits (s @ r) = digits s"
  by (cases r) (auto simp: stops_def digits_def takeWhile_append takeWhile_eq_all_conv [THEN iffD2])

lemma scan_sign_append: "s \<noteq> [] \<Longrightarrow> scan_sign cs (s @ r) = map_prod id (\<lambda>u. u @ r) (scan_sign cs s)"
  by (cases s) (simp_all add: scan_sign_def)

lemma scan_int_append:
  assumes "stops r" "scan_int s = Some (t, u)"
  shows "scan_int (s @ r) = Some (t, u @ r)"
proof -
  have "length t \<le> length s" using scan_int_split [OF assms(2)] by simp
  with assms show ?thesis
    by (auto simp: scan_int_def Let_def digits_append split: if_splits)
qed

lemma length_digits [simp]: "length (digits s) - length s = 0"
  using length_takeWhile_le [of "is_digit 10" s] by (simp add: digits_def)

lemma scan_frac_append: "stops r \<Longrightarrow> scan_frac s = Some (t, u) \<Longrightarrow> scan_frac (s @ r) = Some (t, u @ r)"
  by (cases s) (auto simp: scan_frac_def digits_append stops_def
      split: if_splits list.split)

lemma scan_exp_append: "stops r \<Longrightarrow> scan_exp s = Some (t, u) \<Longrightarrow> scan_exp (s @ r) = Some (t, u @ r)"
proof (cases s)
  case (Cons c v)
  assume a: "stops r" "scan_exp s = Some (t, u)"
  show ?thesis
  proof (cases "c \<in> {CHR ''e'', CHR ''E''}")
    case True
    with a Cons have "v \<noteq> []" by (auto simp: scan_exp_def scan_sign_def digits_def)
    with True a Cons show ?thesis
      by (auto simp: scan_exp_def scan_sign_append digits_append
          split: prod.splits if_splits)
  qed (use a Cons in \<open>auto simp: scan_exp_def\<close>)
qed (auto simp: scan_exp_def stops_def split: list.split)

definition wf_number :: "string \<Rightarrow> bool" where
  "wf_number lit \<longleftrightarrow> scan_number lit = Some (lit, [])"

lemma scan_number_append:
  assumes "wf_number lit" "stops r"
  shows "scan_number (lit @ r) = Some (lit, r)"
proof -
  let ?S = "scan_sign {CHR ''-''} lit"
  have ne: "lit \<noteq> []" using assms(1) scan_number_split(2) by (auto simp: wf_number_def)
  obtain sg u where sg: "?S = (sg, u)" by fastforce
  with assms(1) obtain i r1 f r2 e where "scan_int u = Some (i, r1)" "scan_frac r1 = Some (f, r2)"
    "scan_exp r2 = Some (e, [])" "lit = sg @ i @ f @ e"
    by (auto simp: wf_number_def scan_number_def split: option.splits)
  from this(4) scan_int_append [OF assms(2) this(1)] scan_frac_append [OF assms(2) this(2)]
    scan_exp_append [OF assms(2) this(3)] scan_sign_append [OF ne, of _ r] sg
  show ?thesis by (simp add: scan_number_def)
qed

lemma digits_all: "list_all (is_digit 10) s \<Longrightarrow> digits s = s"
  by (simp add: digits_def takeWhile_eq_all_conv list_all_iff)

lemma wf_number_FormatInt [simp]: "wf_number (FormatInt i)"
proof -
  have d: "digits (show_nat n) = show_nat n" for n by (simp add: digits_all)
  have z: "hd (show_nat n) = CHR ''0'' \<Longrightarrow> show_nat n = ''0''" for n by (rule show_nat_zero)
  have i: "scan_int (show_nat n) = Some (show_nat n, [])" for n
  proof (cases "hd (show_nat n) = CHR ''0''")
    case True
    with z show ?thesis by (simp add: scan_int_def Let_def d)
  qed (simp add: scan_int_def d)
  have "scan_number (show_nat n) = Some (show_nat n, [])" for n
    using hd_show_nat [of n] by (cases "show_nat n") (use i [of n] in
      \<open>simp_all add: scan_number_def scan_sign_def scan_frac_def scan_exp_def\<close>)
  moreover have "scan_number (CHR ''-'' # show_nat n) = Some (CHR ''-'' # show_nat n, [])" for n
    by (simp add: scan_number_def scan_sign_def scan_frac_def scan_exp_def i)
  ultimately show ?thesis by (simp add: wf_number_def FormatInt_def)
qed

text \<open>The first byte of a value's text tells its token.\<close>

lemma lex_cons: "\<not> space c \<Longrightarrow> lex (c # r) = lex_token c r"
  by (simp add: lex_def skip_space_def)

lemma lex_punctuation [simp]:
  "lex (CHR ''['' # r) = Some (Open_arr, r)" "lex (CHR '']'' # r) = Some (Close_arr, r)"
  "lex (CHR ''{'' # r) = Some (Open_obj, r)" "lex (CHR ''}'' # r) = Some (Close_obj, r)"
  "lex (CHR '':'' # r) = Some (Colon, r)" "lex (CHR '','' # r) = Some (Comma, r)"
  by (simp_all add: lex_cons lex_token_def space_def)

lemma lex_quote [simp]: "lex (quote s @ r) = Some (Scalar (JStr (fix_utf8 s)), r)"
  by (simp add: quote_def lex_cons lex_token_def space_def scan_string_quote)

lemma lex_keywords [simp]:
  "lex (CHR ''t'' # CHR ''r'' # CHR ''u'' # CHR ''e'' # r) = Some (Scalar (JBool True), r)"
  "lex (CHR ''f'' # CHR ''a'' # CHR ''l'' # CHR ''s'' # CHR ''e'' # r) = Some (Scalar (JBool False), r)"
  "lex (CHR ''n'' # CHR ''u'' # CHR ''l'' # CHR ''l'' # r) = Some (Scalar JNull, r)"
  by (simp_all add: lex_cons lex_token_def space_def keyword_def)

lemma hd_number:
  assumes "wf_number lit"
  obtains c r where "lit = c # r" "c = CHR ''-'' \<or> is_digit 10 c"
proof (cases lit)
  case Nil
  with assms scan_number_split(2) show ?thesis by (auto simp: wf_number_def)
next
  case (Cons c r)
  have "is_digit 10 c" if "c \<noteq> CHR ''-''"
  proof (rule ccontr)
    assume "\<not> is_digit 10 c"
    with that assms Cons show False
      by (simp add: wf_number_def scan_number_def scan_sign_def scan_int_def digits_def)
  qed
  with Cons that show ?thesis by blast
qed

lemma lex_number:
  assumes "wf_number lit" "stops r"
  shows "lex (lit @ r) = Some (Scalar (JNum lit), r)"
proof -
  obtain c s where c: "lit = c # s" "c = CHR ''-'' \<or> is_digit 10 c" using hd_number [OF assms(1)] .
  have "\<not> is_digit 10 d" if "d \<in> set ''[]{}:,tfn'' \<union> {CHR 0x22, CHR 0x20, CHR 0x09, CHR 0x0A, CHR 0x0D}" for d
    using that by (auto simp: is_digit_def digit_val_def)
  with c(2) have "c \<notin> set ''[]{}:,tfn'' \<union> {CHR 0x22, CHR 0x20, CHR 0x09, CHR 0x0A, CHR 0x0D}" by auto
  with scan_number_append [OF assms] show ?thesis
    by (simp add: c(1) lex_cons lex_token_def space_def)
qed

text \<open>
  The values that survive: numbers with a literal, UTF-8 in the strings and keys, and no more open
  arrays and objects than the reader allows.
\<close>

fun wf_json :: "json \<Rightarrow> bool" where
  "wf_json (JNum lit) = wf_number lit"
| "wf_json (JStr s) = valid_utf8 s"
| "wf_json (JArr vs) = list_all wf_json vs"
| "wf_json (JObj kvs) = list_all (\<lambda>(k, v). valid_utf8 k \<and> wf_json v) kvs"
| "wf_json _ = True"

fun depth :: "json \<Rightarrow> nat" where
  "depth (JArr vs) = Suc (foldr max (map depth vs) 0)"
| "depth (JObj kvs) = Suc (foldr max (map (\<lambda>(k, v). depth v) kvs) 0)"
| "depth _ = 0"

lemma le_foldr_max: "x \<in> set xs \<Longrightarrow> x \<le> foldr max xs (0 :: nat)"
  by (induction xs) auto

definition resume :: "outcome \<Rightarrow> string \<Rightarrow> (json \<times> string) option" where
  "resume out r = (case out of Fail \<Rightarrow> None | Done v \<Rightarrow> Some (v, r) | More m fs \<Rightarrow> run r m fs)"

lemma run_feed: "lex s = Some (t, r) \<Longrightarrow> run s m fs = resume (feed t m fs) r"
  by (simp add: run.simps [of s] resume_def)

lemma resume_More [simp]: "resume (More m fs) r = run r m fs"
  by (simp add: resume_def)

text \<open>A value can be read where one is wanted; what follows must not go on with a number.\<close>

definition reads :: "json \<Rightarrow> bool" where
  "reads v \<longleftrightarrow> (\<forall>m fs r. m \<in> {Want_value, Want_first} \<longrightarrow> depth v + length fs \<le> maxNestingDepth \<longrightarrow>
     stops r \<longrightarrow> run (Marshal v @ r) m fs = resume (complete v fs) r)"

lemma readsD:
  "reads v \<Longrightarrow> depth v + length fs \<le> maxNestingDepth \<Longrightarrow> stops r \<Longrightarrow> m \<in> {Want_value, Want_first} \<Longrightarrow>
     run (Marshal v @ r) m fs = resume (complete v fs) r"
  unfolding reads_def by blast

lemma stops_punctuation [simp]:
  "stops (CHR '','' # r)" "stops (CHR '']'' # r)" "stops (CHR ''}'' # r)" "stops []"
  "stops (CHR 0x0A # r)"
  by (simp_all add: stops_def is_digit_def digit_val_def)

lemma run_elements:
  assumes "\<forall>v \<in> set (w # ws). reads v \<and> depth v + Suc (length fs) \<le> maxNestingDepth"
    and "m \<in> {Want_value, Want_first}"
  shows "run (Join (map Marshal (w # ws)) '','' @ CHR '']'' # r) m (Arr acc # fs)
    = resume (complete (JArr (acc @ w # ws)) fs) r"
  using assms
proof (induction ws arbitrary: w acc m)
  case Nil
  then have "run (Marshal w @ CHR '']'' # r) m (Arr acc # fs) = run (CHR '']'' # r) After_value (Arr (acc @ [w]) # fs)"
    by (subst readsD) simp_all
  then show ?case by (simp add: run_feed feed_def)
next
  case (Cons v vs)
  then have "run (Marshal w @ CHR '','' # Join (map Marshal (v # vs)) '','' @ CHR '']'' # r) m (Arr acc # fs)
      = run (CHR '','' # Join (map Marshal (v # vs)) '','' @ CHR '']'' # r) After_value (Arr (acc @ [w]) # fs)"
    by (subst readsD) simp_all
  also have "\<dots> = run (Join (map Marshal (v # vs)) '','' @ CHR '']'' # r) Want_value (Arr (acc @ [w]) # fs)"
    by (simp add: run_feed feed_def)
  finally show ?case using Cons by simp
qed

definition member :: "string \<times> json \<Rightarrow> string" where
  "member kv = quote (fst kv) @ '':'' @ Marshal (snd kv)"

lemma run_member:
  assumes "reads v" "depth v + Suc (length fs) \<le> maxNestingDepth" "valid_utf8 k" "stops r"
    and "m \<in> {Want_key, Want_first_key}"
  shows "run (member (k, v) @ r) m (Obj acc k' # fs) = run r After_value (Obj (acc @ [(k, v)]) k # fs)"
proof -
  have "run (member (k, v) @ r) m (Obj acc k' # fs)
      = run (CHR '':'' # Marshal v @ r) Want_colon (Obj acc k # fs)"
    using assms(3,5) by (auto simp: member_def run_feed feed_def fix_utf8_valid)
  also have "\<dots> = run (Marshal v @ r) Want_value (Obj acc k # fs)" by (simp add: run_feed feed_def)
  also have "\<dots> = run r After_value (Obj (acc @ [(k, v)]) k # fs)"
    using assms by (subst readsD) simp_all
  finally show ?thesis .
qed

lemma run_members:
  assumes "\<forall>(k, v) \<in> set (w # ws). valid_utf8 k \<and> reads v \<and> depth v + Suc (length fs) \<le> maxNestingDepth"
    and "m \<in> {Want_key, Want_first_key}"
  shows "run (Join (map member (w # ws)) '','' @ CHR ''}'' # r) m (Obj acc k' # fs)
    = resume (complete (JObj (acc @ w # ws)) fs) r"
  using assms
proof (induction ws arbitrary: w acc m k')
  case Nil
  then show ?case by (cases w) (simp add: run_member, simp add: run_feed feed_def)
next
  case (Cons v vs)
  obtain k u where w: "w = (k, u)" by fastforce
  with Cons.prems have "run (member w @ CHR '','' # Join (map member (v # vs)) '','' @ CHR ''}'' # r) m (Obj acc k' # fs)
      = run (CHR '','' # Join (map member (v # vs)) '','' @ CHR ''}'' # r) After_value (Obj (acc @ [w]) k # fs)"
    by (simp only: w run_member) (auto simp: run_member)
  also have "\<dots> = run (Join (map member (v # vs)) '','' @ CHR ''}'' # r) Want_key (Obj (acc @ [w]) k # fs)"
    by (simp add: run_feed feed_def)
  finally show ?case using Cons by simp
qed

lemma Marshal_JObj: "Marshal (JObj kvs) = CHR ''{'' # Join (map member kvs) '','' @ ''}''"
proof -
  have "(\<lambda>(k, v). quote k @ '':'' @ Marshal v) = member" by (auto simp: member_def)
  then show ?thesis by simp
qed

lemma reads_number: "wf_number lit \<Longrightarrow> reads (JNum lit)"
  by (auto simp: reads_def run_feed [OF lex_number] feed_def)

lemma reads_string: "valid_utf8 s \<Longrightarrow> reads (JStr s)"
  by (auto simp: reads_def run_feed [OF lex_quote] feed_def fix_utf8_valid)

lemma depth_element: "v \<in> set vs \<Longrightarrow> depth v < depth (JArr vs)"
  using le_foldr_max [of "depth v" "map depth vs"] by simp

lemma depth_member: "(k, v) \<in> set kvs \<Longrightarrow> depth v < depth (JObj kvs)"
  using le_foldr_max [of "depth v" "map (\<lambda>(k, v). depth v) kvs"] by force

lemma reads_array:
  assumes "\<forall>v \<in> set vs. reads v"
  shows "reads (JArr vs)"
  unfolding reads_def
proof (intro allI impI)
  fix m :: mode and fs :: "frame list" and r :: string
  assume m: "m \<in> {Want_value, Want_first}" and d: "depth (JArr vs) + length fs \<le> maxNestingDepth"
  then have "run (Marshal (JArr vs) @ r) m fs
      = run (Join (map Marshal vs) '','' @ CHR '']'' # r) Want_first (Arr [] # fs)"
    by (auto simp: run_feed feed_def push_def)
  also have "\<dots> = resume (complete (JArr vs) fs) r"
  proof (cases vs)
    case Nil
    then show ?thesis by (simp add: run_feed feed_def)
  next
    case (Cons w ws)
    with assms d depth_element [of _ vs]
    have "\<forall>v \<in> set (w # ws). reads v \<and> depth v + Suc (length fs) \<le> maxNestingDepth" by fastforce
    from run_elements [OF this, of Want_first r "[]"] Cons show ?thesis by simp
  qed
  finally show "run (Marshal (JArr vs) @ r) m fs = resume (complete (JArr vs) fs) r" .
qed

lemma reads_object:
  assumes "\<forall>(k, v) \<in> set kvs. valid_utf8 k \<and> reads v"
  shows "reads (JObj kvs)"
  unfolding reads_def
proof (intro allI impI)
  fix m :: mode and fs :: "frame list" and r :: string
  assume m: "m \<in> {Want_value, Want_first}" and d: "depth (JObj kvs) + length fs \<le> maxNestingDepth"
  then have "run (Marshal (JObj kvs) @ r) m fs
      = run (Join (map member kvs) '','' @ CHR ''}'' # r) Want_first_key (Obj [] [] # fs)"
    unfolding Marshal_JObj by (auto simp: run_feed feed_def push_def)
  also have "\<dots> = resume (complete (JObj kvs) fs) r"
  proof (cases kvs)
    case Nil
    then show ?thesis by (simp add: run_feed feed_def)
  next
    case (Cons w ws)
    with assms d depth_member [of _ _ kvs]
    have "\<forall>(k, v) \<in> set (w # ws). valid_utf8 k \<and> reads v \<and> depth v + Suc (length fs) \<le> maxNestingDepth"
      by fastforce
    from run_members [OF this, of Want_first_key r "[]" "[]"] Cons show ?thesis by simp
  qed
  finally show "run (Marshal (JObj kvs) @ r) m fs = resume (complete (JObj kvs) fs) r" .
qed

lemma reads_wf: "wf_json v \<Longrightarrow> reads v"
proof (induction v)
  case JNull
  then show ?case by (auto simp: reads_def run_feed feed_def)
next
  case (JBool b)
  then show ?case by (cases b) (auto simp: reads_def run_feed feed_def)
next
  case (JArr vs)
  then show ?case by (intro reads_array) (auto simp: list_all_iff)
next
  case (JObj kvs)
  then show ?case by (intro reads_object) (fastforce simp: list_all_iff)
qed (simp_all add: reads_number reads_string)

lemma run_Marshal:
  assumes "wf_json v" "depth v \<le> maxNestingDepth" "stops r"
  shows "run (Marshal v @ r) Want_value [] = Some (v, r)"
  using readsD [OF reads_wf, of v "[]" r Want_value] assms by (simp add: resume_def)

lemma Unmarshal_Marshal:
  assumes "wf_json v" "depth v \<le> maxNestingDepth"
  shows "Unmarshal (Marshal v) = Some v"
  using run_Marshal [OF assms, of "[]"] by (simp add: Unmarshal_def skip_space_def)

lemma Decode_Marshal:
  assumes "wf_json v" "depth v \<le> maxNestingDepth" "stops r"
  shows "Decode (Marshal v @ r) = Some v"
  using run_Marshal [OF assms] by (simp add: Decode_def)

text \<open>Reading with a decoder, as \<open>json.NewDecoder(r).Decode(&x)\<close> and \<open>json.Unmarshal(b, &x)\<close> do.\<close>

definition decode_into :: "'a decoder \<Rightarrow> 'a \<Rightarrow> string \<Rightarrow> 'a option" where
  "decode_into d zero b = Option.bind (Decode b) (\<lambda>v. d v zero)"

definition unmarshal_into :: "'a decoder \<Rightarrow> 'a \<Rightarrow> string \<Rightarrow> 'a option" where
  "unmarshal_into d zero b = Option.bind (Unmarshal b) (\<lambda>v. d v zero)"

lemma decode_into_Marshal:
  "wf_json v \<Longrightarrow> depth v \<le> maxNestingDepth \<Longrightarrow> stops r \<Longrightarrow> decode_into d z (Marshal v @ r) = d v z"
  by (simp add: decode_into_def Decode_Marshal)

lemma unmarshal_into_Marshal:
  "wf_json v \<Longrightarrow> depth v \<le> maxNestingDepth \<Longrightarrow> unmarshal_into d z (Marshal v) = d v z"
  by (simp add: unmarshal_into_def Unmarshal_Marshal)

lemma depth_JArr_le: "\<forall>v \<in> set vs. depth v \<le> n \<Longrightarrow> depth (JArr vs) \<le> Suc n"
  by (induction vs) auto

lemma wf_JInt [simp]: "wf_json (JInt i)" "depth (JInt i) = 0"
  by (simp_all add: JInt_def)

end
