(* ===== verification/Float64.thy ===== *)
theory Float64
  imports Json
begin

text \<open>
  Numbers in a \<open>map[string]any\<close>: \<open>encoding/json\<close> reads a literal as the nearest \<open>float64\<close>, ties to
  even, and fails beyond the largest one; it writes a \<open>float64\<close> with the fewest digits that read
  back as it. A positive \<open>float64\<close> is a pair of a significand below \<open>2 ^ 53\<close> and an exponent of two;
  a decimal is a pair of a significand and an exponent of ten.
\<close>

section \<open>Literals\<close>

text \<open>The sign, the significand and the exponent of ten of a literal.\<close>

definition exponent_of :: "string \<Rightarrow> int" where
  "exponent_of s =
     (case s of
        [] \<Rightarrow> 0
      | c # r \<Rightarrow>
          let (sg, ds) = scan_sign {CHR ''+'', CHR ''-''} r; n = int (digits_val 10 (digits ds))
          in if sg = ''-'' then - n else n)"

definition decimal_of :: "string \<Rightarrow> bool \<times> nat \<times> int" where
  "decimal_of lit =
     (let (sg, r) = scan_sign {CHR ''-''} lit;
          i = digits r; r1 = drop (length i) r;
          (f, r2) = (case r1 of c # s \<Rightarrow> if c = CHR ''.'' then (digits s, drop (length (digits s)) s) else ([], r1)
                     | [] \<Rightarrow> ([], []))
      in (sg \<noteq> [], digits_val 10 (i @ f), exponent_of r2 - int (length f)))"

section \<open>Rounding\<close>

text \<open>A fraction \<open>m * b ^ e\<close> as numerator and denominator.\<close>

definition scaled :: "nat \<Rightarrow> nat \<Rightarrow> int \<Rightarrow> nat \<times> nat" where
  "scaled b m e = (m * b ^ nat e, b ^ nat (- e))"

definition round_even :: "nat \<Rightarrow> nat \<Rightarrow> nat" where
  "round_even n d =
     (let q = n div d; r = n mod d
      in if 2 * r < d \<or> 2 * r = d \<and> even q then q else q + 1)"

text \<open>The number of digits to a base, and the exponent of the leading bit of a fraction.\<close>

fun places :: "nat \<Rightarrow> nat \<Rightarrow> nat" where
  "places b n = (if b < 2 \<or> n = 0 then 0 else Suc (places b (n div b)))"

declare places.simps [simp del]

definition log2_floor :: "nat \<Rightarrow> nat \<Rightarrow> int" where
  "log2_floor n d =
     (let l = int (places 2 n) - int (places 2 d)
      in if d * 2 ^ nat l \<le> n * 2 ^ nat (- l) then l else l - 1)"

definition to_float :: "nat \<times> nat \<Rightarrow> (nat \<times> int) option" where
  "to_float = (\<lambda>(n, d).
     let e = max (- 1074) (log2_floor n d - 52);
         q = round_even (n * 2 ^ nat (- e)) (d * 2 ^ nat e);
         (q, e) = (if q = 2 ^ 53 then (2 ^ 52, e + 1) else (q, e))
     in if 971 < e then None else Some (q, e))"

section \<open>The shortest decimal\<close>

text \<open>The exponent of the leading decimal digit of \<open>n / d\<close>.\<close>

definition log10_floor :: "nat \<times> nat \<Rightarrow> int" where
  "log10_floor = (\<lambda>(n, d).
     (case find (\<lambda>p. d * 10 ^ nat p \<le> n * 10 ^ nat (- p)) (rev [- 324 .. 308]) of
        Some p \<Rightarrow> p | None \<Rightarrow> - 324))"

text \<open>
  The decimals with \<open>k + 1\<close> digits next to a float, and the closer of those that read back as it.
\<close>

definition neighbour :: "nat \<times> int \<Rightarrow> nat \<Rightarrow> (nat \<times> int) option" where
  "neighbour x k =
     (let (n, d) = scaled 2 (fst x) (snd x);
          e = log10_floor (n, d) - int k;
          n' = n * 10 ^ nat (- e); d' = d * 10 ^ nat e;
          lo = n' div d';
          ok = (\<lambda>m. to_float (scaled 10 m e) = Some x)
      in if ok lo \<and> (\<not> ok (lo + 1) \<or> 2 * (n' mod d') \<le> d') then Some (lo, e)
         else if ok (lo + 1) then Some (lo + 1, e)
         else None)"

fun first_some :: "('a \<Rightarrow> 'b option) \<Rightarrow> 'a list \<Rightarrow> 'b option" where
  "first_some f [] = None"
| "first_some f (x # xs) = (case f x of None \<Rightarrow> first_some f xs | Some y \<Rightarrow> Some y)"

definition shortest :: "nat \<times> int \<Rightarrow> nat \<times> int" where
  "shortest x = (case first_some (neighbour x) [0..<17] of Some r \<Rightarrow> r | None \<Rightarrow> (0, 0))"

section \<open>Text\<close>

text \<open>
  The digits \<open>ds\<close> with the decimal point after the first \<open>dp\<close> of them: as a fixed-point number, and
  with an exponent, whose leading zero \<open>encoding/json\<close> removes. The latter is for numbers below
  \<open>10 ^ - 6\<close> and from \<open>10 ^ 21\<close> on.
\<close>

definition fixed_text :: "string \<Rightarrow> int \<Rightarrow> string" where
  "fixed_text ds dp =
     (if dp \<le> 0 then ''0.'' @ replicate (nat (- dp)) (CHR ''0'') @ ds
      else if int (length ds) \<le> dp then ds @ replicate (nat dp - length ds) (CHR ''0'')
      else take (nat dp) ds @ ''.'' @ drop (nat dp) ds)"

definition exponent_text :: "string \<Rightarrow> int \<Rightarrow> string" where
  "exponent_text ds dp =
     [hd ds] @ (if tl ds = [] then [] else ''.'' @ tl ds) @ ''e''
       @ (if dp \<le> 0 then ''-'' else ''+'') @ show_nat (nat \<bar>dp - 1\<bar>)"

definition float_text :: "nat \<times> int \<Rightarrow> string" where
  "float_text x =
     (let (m, e) = shortest x; ds = show_nat m; dp = int (length ds) + e;
          ds = TrimRight ds ''0''
      in if dp \<le> - 6 \<or> 22 \<le> dp then exponent_text ds dp else fixed_text ds dp)"

text \<open>The trip of a literal through \<open>float64\<close>; None where it is out of range.\<close>

definition refloat :: "string \<Rightarrow> string option" where
  "refloat lit =
     (let (neg, m, e) = decimal_of lit; sign = (if neg then ''-'' else [])
      in if m = 0 then Some (sign @ ''0'')
         else case to_float (scaled 10 m e) of
                None \<Rightarrow> None
              | Some x \<Rightarrow> Some (sign @ (if fst x = 0 then ''0'' else float_text x)))"

text \<open>A value read into an \<open>any\<close>: every number of it must be in range.\<close>

fun in_range :: "json \<Rightarrow> bool" where
  "in_range (JNum lit) = (refloat lit \<noteq> None)"
| "in_range (JArr vs) = list_all in_range vs"
| "in_range (JObj kvs) = list_all (\<lambda>(k, v). in_range v) kvs"
| "in_range _ = True"

definition Unmarshal_any :: "string \<Rightarrow> json option" where
  "Unmarshal_any b =
     (case Unmarshal b of Some v \<Rightarrow> if in_range v then Some v else None | None \<Rightarrow> None)"

section \<open>Integers below 2 ^ 53 are kept\<close>

lemma places_0 [simp]: "places b n = 0 \<longleftrightarrow> b < 2 \<or> n = 0"
  by (subst places.simps) simp

lemma places_bounds:
  "1 < b \<Longrightarrow> 0 < n \<Longrightarrow> b ^ (places b n - 1) \<le> n \<and> n < b ^ places b n"
proof (induction b n rule: places.induct)
  case (1 b n)
  have p: "places b n = Suc (places b (n div b))" using 1(2,3) by (subst places.simps) simp
  show ?case
  proof (cases "n < b")
    case True
    then have "places b (n div b) = 0" by (simp only: places_0 div_less simp_thms)
    with True show ?thesis using 1(3) by (simp only: p) simp
  next
    case False
    then have "0 < n div b" using 1(2) by (simp add: div_greater_zero_iff)
    with 1 have ih: "b ^ (places b (n div b) - 1) \<le> n div b" "n div b < b ^ places b (n div b)" by auto
    with \<open>0 < n div b\<close> obtain k where k: "places b (n div b) = Suc k" by (cases "places b (n div b)") auto
    with ih(1) have "b ^ k * b \<le> n" using 1(2) by (simp add: less_eq_div_iff_mult_less_eq)
    moreover have "n < b ^ places b (n div b) * b" using ih(2) 1(2) by (simp only: div_less_iff_less_mult)
    ultimately show ?thesis by (simp add: p k mult.commute)
  qed
qed

text \<open>The exponent of the leading bit and of the leading digit, by what they are.\<close>

lemma log2_floor_eq:
  assumes "0 < d" "d * 2 ^ l \<le> n" "n < d * 2 ^ Suc l"
  shows "log2_floor n d = int l"
proof -
  let ?a = "places 2 n" and ?b = "places 2 d"
  have n: "0 < n" using assms(1,2) by (auto intro: gr0I)
  have fn: "2 ^ (?a - 1) \<le> n" "n < 2 ^ ?a" and fd: "2 ^ (?b - 1) \<le> d" "d < 2 ^ ?b"
    using places_bounds [of 2 n] places_bounds [of 2 d] n assms(1) by auto
  have pos: "?a \<noteq> 0" "?b \<noteq> 0" using n assms(1) by (auto simp: places_0)
  have "(2::nat) ^ (?b - 1 + l) < 2 ^ ?a"
  proof -
    have "(2::nat) ^ (?b - 1 + l) \<le> d * 2 ^ l" using fd(1) by (simp add: power_add)
    with assms(2) fn(2) show ?thesis by linarith
  qed
  then have up: "?b - 1 + l < ?a" by simp
  have "(2::nat) ^ (?a - 1) < 2 ^ (?b + Suc l)"
  proof -
    have "d * 2 ^ Suc l < 2 ^ ?b * 2 ^ Suc l" using fd(2) by simp
    also have "\<dots> = 2 ^ (?b + Suc l)" by (simp add: power_add)
    finally show ?thesis using assms(3) fn(1) by linarith
  qed
  then have lo: "?a - 1 < ?b + Suc l" by (rule power_less_imp_less_exp [rotated]) simp
  from up lo pos consider "int ?a - int ?b = int l" | "int ?a - int ?b = int l + 1" by linarith
  then show ?thesis
  proof cases
    case 1
    with assms(2) show ?thesis by (simp add: log2_floor_def Let_def)
  next
    case 2
    then have "nat (int ?a - int ?b) = Suc l" "nat (int ?b - int ?a) = 0" by linarith+
    with 2 assms(3) show ?thesis by (simp add: log2_floor_def Let_def)
  qed
qed

lemma round_even_exact [simp]: "round_even n 1 = n" "0 < d \<Longrightarrow> round_even (m * d) d = m"
  by (simp_all add: round_even_def)

lemma power_between:
  fixes b m :: nat
  assumes "1 < b" "0 < m"
  obtains l where "b ^ l \<le> m" "m < b ^ Suc l"
proof -
  have "places b m \<noteq> 0" using assms by (auto simp: places_0)
  with places_bounds [OF assms] that [of "places b m - 1"] show thesis by simp
qed

lemma power_gap: "(2 :: nat) ^ k \<le> m \<Longrightarrow> m < 2 ^ n \<Longrightarrow> k < n"
  using power_less_imp_less_exp [of "2 :: nat" k n] order_le_less_trans [of "2 ^ k" m "2 ^ n"] by simp

text \<open>An integer below \<open>2 ^ 53\<close> is a float.\<close>

lemma to_float_int:
  assumes "0 < d" "2 ^ l \<le> m" "m < 2 ^ Suc l" "l \<le> 52"
  shows "to_float (m * d, d) = Some (m * 2 ^ (52 - l), int l - 52)"
proof -
  have "log2_floor (m * d) d = int l"
    using assms(1-3) by (intro log2_floor_eq) (simp_all add: mult.commute)
  moreover have "max (- 1074) (int l - 52) = int l - 52" using assms(4) by simp
  moreover have "nat (52 - int l) = 52 - l" "nat (int l - 52) = 0" using assms(4) by simp_all
  moreover have "round_even (m * d * 2 ^ (52 - l)) d = m * 2 ^ (52 - l)"
    using round_even_exact(2) [OF assms(1), of "m * 2 ^ (52 - l)"] by (simp only: ac_simps)
  moreover have "m * 2 ^ (52 - l) < 2 ^ 53"
  proof -
    have "m * 2 ^ (52 - l) < 2 ^ Suc l * 2 ^ (52 - l)" using assms(3) by simp
    also have "\<dots> = 2 ^ 53" using assms(4) by (simp flip: power_add)
    finally show ?thesis .
  qed
  ultimately show ?thesis using assms(4) by (simp add: to_float_def Let_def)
qed

lemma to_float_large:
  assumes "2 ^ 53 \<le> m" "to_float (m, 1) = Some (q, e)"
  shows "0 < e"
proof -
  obtain l where l: "2 ^ l \<le> m" "m < 2 ^ Suc l" by (rule power_between [of 2 m]) (use assms(1) in auto)
  from power_gap [OF assms(1) l(2)] have "53 \<le> l" by simp
  have "log2_floor m 1 = int l" using l by (intro log2_floor_eq) simp_all
  with assms(2) \<open>53 \<le> l\<close> show ?thesis by (auto simp: to_float_def Let_def split: if_splits)
qed

text \<open>So an integer that reads back as \<open>m\<close> is \<open>m\<close>.\<close>

lemma to_float_inj:
  assumes "0 < m" "m < 2 ^ 53" "0 < m'" "to_float (m', 1) = to_float (m, 1)"
  shows "m' = m"
proof -
  obtain l where l: "2 ^ l \<le> m" "m < 2 ^ Suc l" by (rule power_between [of 2 m]) (use assms(1) in auto)
  from power_gap [OF l(1) assms(2)] have "l \<le> 52" by simp
  with to_float_int [of 1 l m] l have m: "to_float (m, 1) = Some (m * 2 ^ (52 - l), int l - 52)" by simp
  have "m' < 2 ^ 53"
  proof (rule ccontr)
    assume "\<not> m' < 2 ^ 53"
    with to_float_large [of m'] m assms(4) \<open>l \<le> 52\<close> show False by fastforce
  qed
  obtain k where k: "2 ^ k \<le> m'" "m' < 2 ^ Suc k" by (rule power_between [of 2 m']) (use assms(3) in auto)
  from power_gap [OF k(1) \<open>m' < 2 ^ 53\<close>] have "k \<le> 52" by simp
  with to_float_int [of 1 k m'] k m assms(4) show ?thesis by auto
qed

section \<open>Decimals\<close>

lemma find_skip: "\<forall>x \<in> set xs. \<not> P x \<Longrightarrow> P p \<Longrightarrow> find P (xs @ p # ys) = Some p"
  by (induction xs) auto

lemma find_rev_greatest:
  assumes "p \<in> set [a..b]" "P p" "\<And>q. q \<in> set [a..b] \<Longrightarrow> p < q \<Longrightarrow> \<not> P q"
  shows "find P (rev [a..b]) = Some p"
proof -
  from assms(1) have "[a..b] = [a..p] @ [p + 1..b]" by (simp add: upto_split2)
  moreover have "[a..p] = [a..p - 1] @ [p]" using assms(1) by (simp add: upto_rec2)
  ultimately have "rev [a..b] = rev [p + 1..b] @ p # rev [a..p - 1]" by simp
  moreover have "\<forall>q \<in> set (rev [p + 1..b]). \<not> P q" using assms(1,3) by auto
  ultimately show ?thesis using assms(2) by (simp only: find_skip)
qed

lemma log10_floor_int:
  assumes "0 < d" "10 ^ p \<le> m" "m < 10 ^ Suc p" "p \<le> 308"
  shows "log10_floor (m * d, d) = int p"
proof -
  have "find (\<lambda>p. d * 10 ^ nat p \<le> m * d * 10 ^ nat (- p)) (rev [- 324..308]) = Some (int p)"
  proof (rule find_rev_greatest)
    fix q assume q: "int p < q"
    then have "(10 :: nat) ^ Suc p \<le> 10 ^ nat q" by (intro power_increasing) simp_all
    with assms(3) have "m < 10 ^ nat q" by linarith
    with assms(1) q show "\<not> d * 10 ^ nat q \<le> m * d * 10 ^ nat (- q)" by (simp add: mult.commute)
  qed (use assms in \<open>simp_all add: mult.commute\<close>)
  then show ?thesis by (simp add: log10_floor_def)
qed

text \<open>Next to an integer below \<open>2 ^ 53\<close> no decimal with fewer digits reads back as it.\<close>

lemma neighbour_int:
  assumes "10 ^ p \<le> m" "m < 10 ^ Suc p" "m < 2 ^ 53" "k \<le> p" "to_float (m, 1) = Some x"
  shows "neighbour x k = (if 10 ^ (p - k) dvd m then Some (m div 10 ^ (p - k), int (p - k)) else None)"
proof -
  let ?z = "10 ^ (p - k) :: nat"
  have m0: "0 < m" using assms(1) by (metis gr0I le_zero_eq power_not_zero zero_neq_numeral)
  obtain l where l: "2 ^ l \<le> m" "m < 2 ^ Suc l" by (rule power_between [of 2 m]) (use m0 in auto)
  from power_gap [OF l(1) assms(3)] have l52: "l \<le> 52" by simp
  with to_float_int [of 1 l m] l assms(5) have x: "x = (m * 2 ^ (52 - l), int l - 52)" by simp
  define d :: nat where "d = 2 ^ (52 - l)"
  have d: "0 < d" "scaled 2 (fst x) (snd x) = (m * d, d)"
    using l52 by (simp_all add: x d_def scaled_def nat_diff_distrib)
  have "(10 :: nat) ^ p < 10 ^ 16" using assms(1,3) by simp
  then have "p < 16" by (rule power_less_imp_less_exp [rotated]) simp
  then have e: "log10_floor (m * d, d) - int k = int (p - k)"
    using log10_floor_int [OF d(1) assms(1,2)] assms(4) by simp
  have lo: "m * d div (d * ?z) = m div ?z" "m * d mod (d * ?z) = d * (m mod ?z)"
    using d(1) div_mult_mult1 [of d m ?z] mult_mod_right [of d m ?z] by (simp_all only: mult.commute [of m d])
  have ok: "to_float (scaled 10 n (int (p - k))) = Some x \<longleftrightarrow> n * ?z = m" if "0 < n" for n
    using to_float_inj [OF m0 assms(3), of "n * ?z"] assms(5) that by (auto simp: scaled_def)
  have "?z \<le> m" using assms(1) by (meson le_trans one_le_numeral power_increasing diff_le_self)
  then have pos: "0 < m div ?z" by (simp add: div_greater_zero_iff)
  have "m div ?z * ?z = m \<longleftrightarrow> ?z dvd m" using dvd_div_mult_self by (metis dvd_triv_right)
  moreover have "m < (m div ?z + 1) * ?z" using dividend_less_div_times [of ?z m] by simp
  ultimately have "to_float (scaled 10 (m div ?z) (int (p - k))) = Some x \<longleftrightarrow> ?z dvd m"
    "to_float (scaled 10 (m div ?z + 1) (int (p - k))) \<noteq> Some x"
    using ok [OF pos] ok [of "m div ?z + 1"] by simp_all
  moreover have "nat (int (p - k)) = p - k" "nat (- int (p - k)) = 0" by simp_all
  ultimately show ?thesis
    by (simp only: neighbour_def d(2) Let_def prod.case e power_0 mult_1_right lo simp_thms if_True if_False)
qed

lemma first_some_at:
  "(\<exists>k \<in> set ks. f k \<noteq> None) \<Longrightarrow> \<exists>k y. k \<in> set ks \<and> f k = Some y \<and> first_some f ks = Some y"
  by (induction ks) (auto split: option.split)

lemma shortest_int:
  assumes "10 ^ p \<le> m" "m < 10 ^ Suc p" "m < 2 ^ 53" "to_float (m, 1) = Some x"
  obtains z where "10 ^ z dvd m" "z \<le> p" "shortest x = (m div 10 ^ z, int z)"
proof -
  have "(10 :: nat) ^ p < 10 ^ 16" using assms(1,3) by simp
  then have "p < 16" by (rule power_less_imp_less_exp [rotated]) simp
  have n: "k \<le> p \<Longrightarrow> neighbour x k = (if 10 ^ (p - k) dvd m then Some (m div 10 ^ (p - k), int (p - k)) else None)" for k
    by (rule neighbour_int [OF assms(1-3) _ assms(4)])
  have split: "[0..<17] = [0..<Suc p] @ [Suc p..<17]" using \<open>p < 16\<close> upt_add_eq_append [of 0 "Suc p" "17 - Suc p"] by simp
  have "\<exists>k \<in> set [0..<Suc p]. neighbour x k \<noteq> None" using n [of p] by (intro bexI [of _ p]) auto
  from first_some_at [OF this] obtain k y where k: "k \<le> p" "neighbour x k = Some y"
    "first_some (neighbour x) [0..<Suc p] = Some y" by (auto simp: less_Suc_eq_le simp del: upt_Suc)
  have "first_some f (xs @ ys) = Some y" if "first_some f xs = Some y" for f :: "nat \<Rightarrow> (nat \<times> int) option" and xs ys y
    using that by (induction xs) (auto split: option.splits)
  from this [OF k(3)] have "shortest x = y" by (simp only: shortest_def split option.case)
  moreover have "10 ^ (p - k) dvd m" "y = (m div 10 ^ (p - k), int (p - k))"
    using k(2) n [OF k(1)] by (simp_all split: if_splits)
  ultimately show thesis using that [of "p - k"] by simp
qed

section \<open>The text of an integer\<close>

lemma zero_digit [simp]: "char_of (48 :: nat) = CHR ''0''"
  by (simp add: char_eq_nat)

lemma show_nat_times_10:
  assumes "0 < m"
  shows "show_nat (m * 10 ^ z) = show_nat m @ replicate z (CHR ''0'')"
proof (induction z)
  case (Suc z)
  have "10 \<le> m * 10 ^ Suc z" using assms by simp
  then have "show_nat (m * 10 ^ Suc z) = show_nat (m * 10 ^ z) @ ''0''"
    by (subst show_nat.simps) (simp add: mult.commute mult.left_commute)
  with Suc show ?case by (simp add: replicate_append_same)
qed simp

lemma length_show_nat: "10 ^ p \<le> m \<Longrightarrow> m < 10 ^ Suc p \<Longrightarrow> length (show_nat m) = Suc p"
proof (induction p arbitrary: m)
  case 0
  then show ?case by (simp add: show_nat.simps)
next
  case (Suc p)
  have "(1 :: nat) \<le> 10 ^ p" by simp
  moreover have "10 * 10 ^ p \<le> m" using Suc.prems(1) by simp
  ultimately have "\<not> m < 10" by linarith
  moreover have "10 ^ p \<le> m div 10" "m div 10 < 10 ^ Suc p" using Suc.prems by (simp_all add: less_eq_div_iff_mult_less_eq div_less_iff_less_mult mult.commute)
  ultimately show ?case using Suc.IH [of "m div 10"] by (subst show_nat.simps) simp
qed

lemma TrimRight_pad:
  obtains k where "s = TrimRight s [c] @ replicate k c"
proof -
  have "rev s = takeWhile (\<lambda>x. x \<in> set [c]) (rev s) @ dropWhile (\<lambda>x. x \<in> set [c]) (rev s)" by simp
  then have "s = rev (dropWhile (\<lambda>x. x \<in> set [c]) (rev s)) @ rev (takeWhile (\<lambda>x. x \<in> set [c]) (rev s))"
    by (metis rev_append rev_rev_ident)
  moreover have "takeWhile (\<lambda>x. x \<in> set [c]) (rev s) = replicate (length (takeWhile (\<lambda>x. x \<in> set [c]) (rev s))) c"
    by (rule replicate_eqI [symmetric, THEN sym]) (auto dest: set_takeWhileD)
  ultimately show thesis using that by (metis TrimRight_def rev_replicate)
qed

lemma float_text_int:
  assumes "0 < m" "m < 2 ^ 53" "to_float (m, 1) = Some x"
  shows "float_text x = show_nat m"
proof -
  obtain p where p: "10 ^ p \<le> m" "m < 10 ^ Suc p" by (rule power_between [of 10 m]) (use assms(1) in auto)
  have "(10 :: nat) ^ p < 10 ^ 16" using p(1) assms(2) by simp
  then have "p < 16" by (rule power_less_imp_less_exp [rotated]) simp
  obtain z where z: "10 ^ z dvd m" "z \<le> p" "shortest x = (m div 10 ^ z, int z)"
    by (rule shortest_int [OF p assms(2,3)])
  let ?n = "m div 10 ^ z" and ?ds = "show_nat (m div 10 ^ z)"
  have n: "m = ?n * 10 ^ z" using z(1) by simp
  then have "0 < ?n" using assms(1) by (metis gr0I mult_is_0)
  then have m: "show_nat m = ?ds @ replicate z (CHR ''0'')" using show_nat_times_10 n by metis
  then have len: "length ?ds + z = Suc p" using length_show_nat [OF p] by simp
  obtain k where k: "?ds = TrimRight ?ds ''0'' @ replicate k (CHR ''0'')" by (rule TrimRight_pad)
  let ?t = "TrimRight ?ds ''0''"
  have t: "length ?t + k = length ?ds" using arg_cong [OF k, of length] by simp
  moreover have dp: "int (length ?ds) + int z = int (Suc p)" using len by linarith
  ultimately have "float_text x = fixed_text ?t (int (Suc p))"
    using z(3) \<open>p < 16\<close> by (simp only: float_text_def Let_def prod.case) simp
  also have "\<dots> = ?t @ replicate (Suc p - length ?t) (CHR ''0'')"
    using t len by (simp only: fixed_text_def) auto
  also have "Suc p - length ?t = k + z" using len t by simp
  finally show ?thesis using m k by (simp add: replicate_add)
qed

lemma decimal_of_FormatInt: "decimal_of (FormatInt i) = (i < 0, nat \<bar>i\<bar>, 0)"
proof -
  have d: "digits (show_nat n) = show_nat n" for n by (simp add: digits_all)
  have "scan_sign {CHR ''-''} (show_nat n) = ([], show_nat n)" for n
    using hd_show_nat [of n] by (cases "show_nat n") (simp_all add: scan_sign_def)
  then show ?thesis by (auto simp: decimal_of_def FormatInt_def scan_sign_def d exponent_of_def)
qed

text \<open>Integers below \<open>2 ^ 53\<close> come back as they were.\<close>

lemma refloat_FormatInt:
  assumes "\<bar>i\<bar> < 2 ^ 53"
  shows "refloat (FormatInt i) = Some (FormatInt i)"
proof (cases "i = 0")
  case True
  then show ?thesis by (simp add: refloat_def decimal_of_FormatInt) (simp add: FormatInt_def show_nat.simps)
next
  case False
  let ?m = "nat \<bar>i\<bar>"
  have m: "0 < ?m" "?m < 2 ^ 53" using False assms by (simp_all add: nat_less_iff)
  obtain l where l: "2 ^ l \<le> ?m" "?m < 2 ^ Suc l" by (rule power_between [of 2 ?m]) (use m in auto)
  from power_gap [OF l(1) m(2)] have "l \<le> 52" by simp
  with to_float_int [of 1 l ?m] l have x: "to_float (?m, 1) = Some (?m * 2 ^ (52 - l), int l - 52)" by simp
  with float_text_int [OF m x] m show ?thesis
    by (simp add: refloat_def decimal_of_FormatInt scaled_def) (auto simp: FormatInt_def)
qed

text \<open>So are texts without numbers, or with such integers only.\<close>

fun small_ints :: "json \<Rightarrow> bool" where
  "small_ints (JNum lit) = (\<exists>i. lit = FormatInt i \<and> \<bar>i\<bar> < 2 ^ 53)"
| "small_ints (JArr vs) = list_all small_ints vs"
| "small_ints (JObj kvs) = list_all (\<lambda>(k, v). small_ints v) kvs"
| "small_ints _ = True"

lemma small_ints_in_range: "small_ints v \<Longrightarrow> in_range v"
  by (induction v) (auto simp: refloat_FormatInt list_all_iff)

lemma Unmarshal_any_None [simp]: "Unmarshal b = None \<Longrightarrow> Unmarshal_any b = None"
  by (simp add: Unmarshal_any_def)

text \<open>From \<open>2 ^ 53\<close> on, integers are rounded: two of them have the float \<open>2 ^ 53\<close>.\<close>

lemma to_float_two53: "to_float (m, 1) = Some (2 ^ 52, 1) \<longleftrightarrow> m = 2 ^ 53 \<or> m = 2 ^ 53 + 1"
proof
  assume a: "to_float (m, 1) = Some (2 ^ 52, 1)"
  moreover have "to_float (0, 1) = Some (0, - 54)"
    by (simp add: to_float_def log2_floor_def round_even_def Let_def) (simp add: places.simps [of 2 0] places.simps [of 2 "Suc 0"])
  ultimately have "m \<noteq> 0" by (intro notI) simp
  then obtain l where l: "2 ^ l \<le> m" "m < 2 ^ Suc l" using power_between [of 2 m] by auto
  have lg: "log2_floor m 1 = int l" using l by (intro log2_floor_eq) simp_all
  consider "l \<le> 52" | "l = 53" | "53 < l" by linarith
  then show "m = 2 ^ 53 \<or> m = 2 ^ 53 + 1"
  proof cases
    case 1
    with to_float_int [of 1 l m] l a show ?thesis by simp
  next
    case 2
    have "m div 2 = 2 ^ 52 \<or> m div 2 + 1 = 2 ^ 52 \<and> m mod 2 = 1" if "round_even m 2 = 2 ^ 52"
      using that mod_less_divisor [of 2 m] unfolding round_even_def Let_def by (simp only: split: if_splits) linarith+
    moreover have "2 ^ 53 \<le> m" using l(1) 2 by simp
    ultimately have "round_even m 2 = 2 ^ 52 \<Longrightarrow> ?thesis"
      using div_mult_mod_eq [of m 2] mod_less_divisor [of 2 m] by fastforce
    moreover have "round_even m 2 = 2 ^ 52"
      using a lg 2 by (auto simp: to_float_def Let_def split: if_splits)
    ultimately show ?thesis by blast
  next
    case 3
    with a lg show ?thesis by (auto simp: to_float_def Let_def split: if_splits)
  qed
next
  assume m: "m = 2 ^ 53 \<or> m = 2 ^ 53 + 1"
  then have "log2_floor m 1 = int 53" by (intro log2_floor_eq) auto
  moreover have "round_even m 2 = 2 ^ 52" using m by (elim disjE) (simp_all add: round_even_def)
  ultimately show "to_float (m, 1) = Some (2 ^ 52, 1)" by (simp add: to_float_def Let_def)
qed

lemma neighbour_two53:
  "k < 15 \<Longrightarrow> neighbour (2 ^ 52, 1) k = None" "neighbour (2 ^ 52, 1) 15 = Some (2 ^ 53, 0)"
proof -
  have l: "log10_floor (2 ^ 53, 1) = 15" using log10_floor_int [of 1 15 "2 ^ 53"] by simp
  have s: "scaled 2 (2 ^ 52) 1 = (2 ^ 53, 1)" by (simp add: scaled_def)
  have t: "scaled 10 m (int j) = (m * 10 ^ j, 1)" for m j by (simp add: scaled_def)
  have no: "\<not> to_float (n * 10 ^ Suc j, 1) = Some (2 ^ 52, 1)" for n j
  proof
    assume "to_float (n * 10 ^ Suc j, 1) = Some (2 ^ 52, 1)"
    then have "10 * (n * 10 ^ j) = 2 ^ 53 \<or> 10 * (n * 10 ^ j) = 2 ^ 53 + 1"
      using to_float_two53 [of "n * 10 ^ Suc j"] by (simp add: ac_simps)
    then have "10 dvd (2 :: nat) ^ 53 \<or> 10 dvd (2 :: nat) ^ 53 + 1" by (metis dvd_triv_left)
    then show False by simp
  qed
  show "neighbour (2 ^ 52, 1) k = None" if "k < 15"
  proof -
    have j: "15 - int k = int (Suc j)" if "j = 14 - k" for j using \<open>k < 15\<close> that by simp
    show ?thesis
      by (simp only: neighbour_def fst_conv snd_conv s Let_def prod.case l j [OF refl] t no simp_thms if_False)
  qed
  have 15: "15 - int 15 = int 0" by simp
  show "neighbour (2 ^ 52, 1) 15 = Some (2 ^ 53, 0)"
    by (simp only: neighbour_def fst_conv snd_conv s Let_def prod.case l 15 t)
      (simp add: to_float_two53 [unfolded One_nat_def] del: power_numeral)
qed

lemma refloat_rounds: "refloat (FormatInt (2 ^ 53 + 1)) = Some (FormatInt (2 ^ 53))"
proof -
  have "first_some (neighbour (2 ^ 52, 1)) [0..<17] = first_some (neighbour (2 ^ 52, 1)) ([0..<15] @ [15, 16])"
    by (rule arg_cong) (simp add: upt_rec)
  moreover have "first_some f (xs @ ys) = first_some f ys" if "\<forall>x \<in> set xs. f x = None" for f :: "nat \<Rightarrow> (nat \<times> int) option" and xs ys
    using that by (induction xs) auto
  ultimately have "first_some (neighbour (2 ^ 52, 1)) [0..<17] = Some (2 ^ 53, 0)"
    using neighbour_two53 by simp
  then have "shortest (2 ^ 52, 1) = (2 ^ 53, 0)" by (simp only: shortest_def option.case)
  moreover have n: "show_nat (2 ^ 53) = ''9007199254740992''" by (simp add: show_nat.simps char_of_eq_iff)
  moreover have "TrimRight ''9007199254740992'' ''0'' = ''9007199254740992''" by (simp add: TrimRight_def)
  ultimately have "float_text (2 ^ 52, 1) = ''9007199254740992''"
    by (simp only: float_text_def Let_def prod.case) (simp add: fixed_text_def)
  moreover have "to_float (scaled 10 (2 ^ 53 + 1) 0) = Some (2 ^ 52, 1)"
    using to_float_two53 [of "2 ^ 53 + 1"] by (simp only: scaled_def) simp
  moreover have "nat \<bar>2 ^ 53 + 1\<bar> = 2 ^ 53 + 1" "FormatInt (2 ^ 53) = show_nat (2 ^ 53)"
    by (simp_all add: FormatInt_def)
  ultimately show ?thesis by (simp only: refloat_def decimal_of_FormatInt Let_def prod.case n) simp
qed

end
