(* ===== verification/JsonTyping.thy ===== *)
theory JsonTyping
  imports Json
begin

text \<open>
  Type soundness of the JSON reader: what it returns is well formed, so that the writer can write it
  and the reader reads it again. The locale \<open>typed_decoder\<close> passes this on to what the program
  decodes: a decoder makes values of its type out of well-formed JSON.
\<close>

section \<open>Runes\<close>

lemma rune_valid: "s \<noteq> [] \<Longrightarrow> rune_size s = length s \<Longrightarrow> valid_utf8 s"
  by (cases s) (simp_all add: valid_utf8.simps)

lemma byte_of [simp]: "m < 256 \<Longrightarrow> of_char (char_of m) = (m :: nat)"
  by simp

lemma base64_2: "n = n div 4096 * 4096 + n div 64 mod 64 * 64 + n mod (64 :: nat)"
proof -
  have "n div 64 div 64 = n div 4096" by (simp flip: div_mult2_eq)
  with div_mult_mod_eq [of n 64] div_mult_mod_eq [of "n div 64" 64] show ?thesis by linarith
qed

lemma base64_3: "n = n div 262144 * 262144 + n div 4096 mod 64 * 4096 + n div 64 mod 64 * 64 + n mod (64 :: nat)"
proof -
  have "n div 4096 div 64 = n div 262144" by (simp flip: div_mult2_eq)
  with base64_2 [of n] div_mult_mod_eq [of "n div 4096" 64] show ?thesis by linarith
qed

lemma encode_rune_valid:
  assumes "n < 0x110000" "\<not> surrogate n"
  shows "valid_utf8 (encode_rune n)"
proof (rule rune_valid)
  have b: "n mod 64 < 64" "n div 64 mod 64 < 64" "n div 4096 mod 64 < 64" by simp_all
  have low: "byte_in 128 191 (char_of (128 + k))" if "k < 64" for k :: nat
    using that by (simp add: byte_in_def)
  consider "n < 128" | "128 \<le> n" "n < 2048" | "2048 \<le> n" "n < 65536" | "65536 \<le> n" by linarith
  then show "rune_size (encode_rune n) = length (encode_rune n)"
  proof cases
    case 1
    then show ?thesis by (simp add: encode_rune_def rune_size_ascii)
  next
    case 2
    then have "2 \<le> n div 64" "n div 64 < 32" by (simp_all add: less_eq_div_iff_mult_less_eq div_less_iff_less_mult)
    with 2 b show ?thesis
      by (simp add: encode_rune_def rune_size.simps Let_def tail_ok_def low del: of_char_of)
  next
    case 3
    note n = base64_2 [of n]
    have q: "n div 4096 < 16" using 3 by (simp add: div_less_iff_less_mult)
    have e: "n div 4096 = 0 \<Longrightarrow> 32 \<le> n div 64 mod 64" using 3(1) n b by linarith
    have d: "n div 4096 = 13 \<Longrightarrow> n div 64 mod 64 < 32" using assms(2) n b unfolding surrogate_def by linarith
    show ?thesis
      using 3 b q e d by (auto simp add: encode_rune_def rune_size.simps Let_def tail_ok_def low byte_in_def simp del: of_char_of)
  next
    case 4
    note n = base64_3 [of n]
    have q: "n div 262144 < 5" using assms(1) by (simp add: div_less_iff_less_mult)
    have e: "n div 262144 = 0 \<Longrightarrow> 16 \<le> n div 4096 mod 64" using 4 n b by linarith
    have d: "n div 262144 = 4 \<Longrightarrow> n div 4096 mod 64 < 16" using assms(1) n b by linarith
    show ?thesis
      using 4 b q e d by (auto simp add: encode_rune_def rune_size.simps Let_def tail_ok_def low byte_in_def numeral_2_eq_2 simp del: of_char_of)
  qed
qed (simp add: encode_rune_def)

lemma hex4_bound: "hex4 s = Some (n, r) \<Longrightarrow> n < 65536"
proof (induction s rule: hex4.induct)
  case (1 a b c d r')
  have "digit_val x = Some p \<Longrightarrow> p < 16" for x p by (auto simp: digit_val_def Let_def split: if_splits)
  from this [of a] this [of b] this [of c] this [of d] 1 show ?case by (fastforce split: option.splits)
qed simp_all

section \<open>What the scanners return\<close>

lemma replacement_valid [simp]: "valid_utf8 replacement"
  by (rule rune_valid) (simp_all add: replacement_def rune_size.simps tail_ok_def byte_in_def Let_def)

lemma low_half_rune: "low_half n s = Some (m, r) \<Longrightarrow> surrogate n \<Longrightarrow> m < 0x110000 \<and> \<not> surrogate m"
  by (auto simp: low_half_def surrogate_def split: list.splits if_splits option.splits)

lemma hex4_valid: "hex4 s = Some (n, r) \<Longrightarrow> \<not> surrogate n \<Longrightarrow> valid_utf8 (encode_rune n)"
  using hex4_bound by (intro encode_rune_valid) fastforce+

lemma low_half_valid: "low_half n s = Some (m, r) \<Longrightarrow> surrogate n \<Longrightarrow> valid_utf8 (encode_rune m)"
  using low_half_rune by (intro encode_rune_valid) fastforce+

lemma unicode_escape_valid: "unicode_escape s = Some (b, r) \<Longrightarrow> valid_utf8 b"
  by (auto simp: unicode_escape_def split: option.splits if_splits dest: hex4_valid low_half_valid)

lemma escape_valid:
  assumes "escape s = Some (b, r)"
  shows "valid_utf8 b"
proof (cases s)
  case (Cons e t)
  show ?thesis
  proof (cases "e = CHR ''u''")
    case True
    with assms Cons show ?thesis by (simp add: escape_def unicode_escape_valid)
  next
    case False
    with assms Cons have "b \<in> {[CHR 0x08], [CHR 0x0C], [CHR 0x0A], [CHR 0x0D], [CHR 0x09], [CHR 0x5C], ''/'', [CHR 0x22]}"
      by (simp only: escape_def list.case if_False split: if_split_asm) auto
    then show ?thesis by auto
  qed
qed (use assms in \<open>simp add: escape_def\<close>)

lemma piece_valid: "piece c s = Some (b, r) \<Longrightarrow> valid_utf8 b"
proof -
  assume p: "piece c s = Some (b, r)"
  have "valid_utf8 (take (rune_size (c # s)) (c # s))" if "rune_size (c # s) \<noteq> 0"
    by (rule rune_valid) (use that rune_size_take [OF that] rune_size_le [of "c # s"] in auto)
  with p show ?thesis by (auto simp: piece_def Let_def split: if_splits intro: escape_valid)
qed

lemma scan_string_valid: "scan_string s = Some (t, r) \<Longrightarrow> valid_utf8 t"
proof (induction s arbitrary: t rule: scan_string.induct)
  case (2 c s)
  show ?case
  proof (cases "c = CHR 0x22")
    case False
    with 2(2) obtain b r' t' where "piece c s = Some (b, r')" "scan_string r' = Some (t', r)" "t = b @ t'"
      by (auto simp: scan_string.simps split: option.splits)
    with 2(1) [OF False this(1) refl this(2)] piece_valid show ?thesis by (simp add: valid_utf8_append)
  qed (use 2(2) in \<open>simp add: scan_string.simps\<close>)
qed simp

lemma digits_of_digits [simp]: "digits (digits s) = digits s"
  by (simp add: digits_def)

lemma digits_append_nondigit: "\<not> is_digit 10 c \<Longrightarrow> digits (digits s @ c # t) = digits s"
proof -
  assume c: "\<not> is_digit 10 c"
  have "\<forall>x \<in> set (digits s). is_digit 10 x" by (auto simp: digits_def dest: set_takeWhileD)
  with c show ?thesis unfolding digits_def by (subst takeWhile_append2) auto
qed

text \<open>What follows a part of a number does not belong to it, so a literal is scanned as a whole.\<close>

definition no_digit :: "string \<Rightarrow> bool" where
  "no_digit s \<longleftrightarrow> s = [] \<or> \<not> is_digit 10 (hd s)"

lemma digits_again: "no_digit t \<Longrightarrow> digits (digits s @ t) = digits s"
  by (cases t) (auto simp: no_digit_def digits_append_nondigit)

lemma scan_int_again:
  assumes "scan_int s = Some (i, r)" "no_digit t"
  shows "scan_int (i @ t) = Some (i, t)"
proof -
  let ?z = "digits s \<noteq> [] \<and> hd (digits s) = CHR ''0''"
  have i: "i = (if ?z then ''0'' else digits s)" "digits s \<noteq> []"
    using assms(1) by (auto simp: scan_int_def Let_def split: if_splits)
  show ?thesis
  proof (cases ?z)
    case True
    have "is_digit 10 (CHR ''0'')" by (simp add: is_digit_def digit_val_def)
    then have "digits (CHR ''0'' # t) = ''0''" using assms(2) by (cases t) (auto simp: digits_def no_digit_def)
    with i True show ?thesis by (simp add: scan_int_def)
  next
    case False
    with i digits_again [OF assms(2), of s] show ?thesis by (auto simp: scan_int_def Let_def)
  qed
qed

lemma not_digits: "\<not> is_digit 10 (CHR ''.'')" "\<not> is_digit 10 (CHR ''e'')" "\<not> is_digit 10 (CHR ''E'')"
  by (simp_all add: is_digit_def digit_val_def)

lemma scan_frac_again:
  assumes "scan_frac s = Some (f, r)" "no_digit t" "t = [] \<or> hd t \<noteq> CHR ''.''"
  shows "scan_frac (f @ t) = Some (f, t)" "no_digit (f @ t)"
proof -
  have "f = [] \<or> (\<exists>u. f = CHR ''.'' # digits u \<and> digits u \<noteq> [])"
    using assms(1) by (auto simp: scan_frac_def split: list.splits if_splits)
  then show "scan_frac (f @ t) = Some (f, t)" "no_digit (f @ t)"
    using assms(2,3) digits_again [OF assms(2)]
    by (auto simp: scan_frac_def no_digit_def not_digits split: list.split)
qed

lemma scan_exp_again:
  assumes "scan_exp s = Some (e, r)"
  shows "scan_exp e = Some (e, [])" "no_digit e" "e = [] \<or> hd e \<noteq> CHR ''.''"
proof -
  have sign: "fst (scan_sign {CHR ''+'', CHR ''-''} v) \<in> {[], ''+'', ''-''}" for v
    by (auto simp: scan_sign_def split: list.split)
  have shape: "e = [] \<or> (\<exists>c sg u. c \<in> {CHR ''e'', CHR ''E''} \<and> e = c # sg @ digits u \<and> digits u \<noteq> []
      \<and> sg \<in> {[], ''+'', ''-''})"
  proof (cases s)
    case (Cons c v)
    obtain sg u where u: "scan_sign {CHR ''+'', CHR ''-''} v = (sg, u)" by fastforce
    with sign [of v] have "sg \<in> {[], ''+'', ''-''}" by simp
    moreover have "e = [] \<or> c \<in> {CHR ''e'', CHR ''E''} \<and> e = c # sg @ digits u \<and> digits u \<noteq> []"
      using assms u by (simp add: Cons scan_exp_def split: if_splits)
    ultimately show ?thesis by blast
  qed (use assms in \<open>simp add: scan_exp_def\<close>)
  note shape
  moreover have "scan_exp (c # sg @ digits u) = Some (c # sg @ digits u, [])"
    if "c \<in> {CHR ''e'', CHR ''E''}" "digits u \<noteq> []" "sg \<in> {[], ''+'', ''-''}" for c sg u
  proof -
    have "hd (digits u) \<notin> {CHR ''+'', CHR ''-''}"
      using that(2) set_takeWhileD [of "hd (digits u)" "is_digit 10" u] hd_in_set [OF that(2)]
      by (auto simp: digits_def is_digit_def digit_val_def)
    then have "scan_sign {CHR ''+'', CHR ''-''} (sg @ digits u) = (sg, digits u)"
      using that(2,3) by (cases "digits u") (auto simp: scan_sign_def)
    with that show ?thesis by (simp add: scan_exp_def)
  qed
  moreover have "scan_exp [] = Some ([], [])" by (simp add: scan_exp_def)
  ultimately show "scan_exp e = Some (e, [])" by blast
  from shape show "no_digit e" "e = [] \<or> hd e \<noteq> CHR ''.''" by (auto simp: no_digit_def not_digits)
qed

lemma scan_number_wf:
  assumes "scan_number s = Some (t, r)"
  shows "wf_number t"
proof -
  obtain sg u where sg: "scan_sign {CHR ''-''} s = (sg, u)" by fastforce
  with assms obtain i r1 f r2 e where p: "scan_int u = Some (i, r1)" "scan_frac r1 = Some (f, r2)"
    "scan_exp r2 = Some (e, r)" "t = sg @ i @ f @ e"
    by (auto simp: scan_number_def split: option.splits)
  note e = scan_exp_again [OF p(3)]
  note f = scan_frac_again [OF p(2) e(2,3)]
  note i = scan_int_again [OF p(1) f(2)]
  have u: "u = i @ r1" "i \<noteq> []" using scan_int_split [OF p(1)] by simp_all
  then have "sg = [] \<and> hd i \<noteq> CHR ''-'' \<or> sg = ''-''"
    using sg by (cases i) (auto simp: scan_sign_def split: list.splits if_splits)
  moreover note u(2)
  ultimately have "scan_sign {CHR ''-''} t = (sg, i @ f @ e)"
    by (cases i) (auto simp: p(4) scan_sign_def)
  with i f(1) e(1) show ?thesis by (simp add: wf_number_def scan_number_def p(4))
qed

section \<open>What the automaton returns\<close>

text \<open>
  A value that ends below \<open>n\<close> open arrays and objects has at most \<open>maxNestingDepth - n\<close> levels.
\<close>

definition fits :: "nat \<Rightarrow> json \<Rightarrow> bool" where
  "fits n v \<longleftrightarrow> wf_json v \<and> depth v + n \<le> maxNestingDepth"

fun frames_ok :: "frame list \<Rightarrow> bool" where
  "frames_ok [] = True"
| "frames_ok (Arr vs # fs) =
     (list_all (fits (Suc (length fs))) vs \<and> Suc (length fs) \<le> maxNestingDepth \<and> frames_ok fs)"
| "frames_ok (Obj kvs k # fs) =
     (list_all (\<lambda>(k, v). valid_utf8 k \<and> fits (Suc (length fs)) v) kvs \<and> valid_utf8 k
      \<and> Suc (length fs) \<le> maxNestingDepth \<and> frames_ok fs)"

fun outcome_ok :: "outcome \<Rightarrow> bool" where
  "outcome_ok Fail = True"
| "outcome_ok (Done v) = fits 0 v"
| "outcome_ok (More m fs) = frames_ok fs"

fun token_ok :: "token \<Rightarrow> bool" where
  "token_ok (Scalar v) = (wf_json v \<and> depth v = 0)"
| "token_ok _ = True"

lemma lex_ok: "lex s = Some (t, r) \<Longrightarrow> token_ok t"
  by (auto simp: lex_def lex_token_def keyword_def split: list.splits if_splits
      dest: scan_string_valid scan_number_wf)

lemma complete_ok: "frames_ok fs \<Longrightarrow> fits (length fs) v \<Longrightarrow> outcome_ok (complete v fs)"
  by (cases "(v, fs)" rule: complete.cases) auto

lemma foldr_max_le: "foldr max xs 0 \<le> (n :: nat) \<longleftrightarrow> list_all (\<lambda>x. x \<le> n) xs"
  by (induction xs) auto

lemma fits_arr: "list_all (fits (Suc n)) vs \<Longrightarrow> Suc n \<le> maxNestingDepth \<Longrightarrow> fits n (JArr vs)"
  using foldr_max_le [of "map depth vs" "maxNestingDepth - Suc n"]
  by (auto simp: fits_def list_all_iff)

lemma fits_obj:
  "list_all (\<lambda>(k, v). valid_utf8 k \<and> fits (Suc n) v) kvs \<Longrightarrow> Suc n \<le> maxNestingDepth \<Longrightarrow> fits n (JObj kvs)"
  using foldr_max_le [of "map (\<lambda>(k, v). depth v) kvs" "maxNestingDepth - Suc n"]
  by (fastforce simp: fits_def list_all_iff)

lemma close_ok: "frames_ok fs \<Longrightarrow> outcome_ok (close t fs)"
  by (cases "(t, fs)" rule: close.cases) (auto intro!: complete_ok fits_arr fits_obj)

lemma begin_value_ok:
  assumes "frames_ok fs" "token_ok t" "length fs \<le> maxNestingDepth"
  shows "outcome_ok (begin_value t fs)"
  using assms by (cases t) (auto simp: push_def fits_def intro!: complete_ok)

lemma frames_ok_length: "frames_ok fs \<Longrightarrow> length fs \<le> maxNestingDepth"
  by (cases fs rule: frames_ok.cases) auto

lemma begin_key_ok: "frames_ok fs \<Longrightarrow> token_ok t \<Longrightarrow> outcome_ok (begin_key t fs)"
  by (cases "(t, fs)" rule: begin_key.cases) auto

lemma separate_ok: "frames_ok fs \<Longrightarrow> outcome_ok (separate fs)"
  by (cases fs rule: separate.cases) auto

lemma feed_ok: "frames_ok fs \<Longrightarrow> token_ok t \<Longrightarrow> outcome_ok (feed t m fs)"
  by (auto simp: feed_def close_ok begin_value_ok begin_key_ok separate_ok frames_ok_length split: mode.split)

lemma run_ok: "run s m fs = Some (v, r) \<Longrightarrow> frames_ok fs \<Longrightarrow> fits 0 v"
proof (induction s m fs rule: run.induct)
  case (1 s m fs)
  from 1(2) obtain t r' where l: "lex s = Some (t, r')"
    by (auto simp: run.simps [of s] split: option.splits)
  have ok: "outcome_ok (feed t m fs)" by (rule feed_ok [OF 1(3) lex_ok [OF l]])
  show ?case
  proof (cases "feed t m fs")
    case (More m' fs')
    with 1(2) l have "run r' m' fs' = Some (v, r)" by (simp add: run.simps [of s])
    with 1(1) [OF l refl More] ok More show ?thesis by simp
  qed (use 1(2) l ok in \<open>simp_all add: run.simps [of s]\<close>)
qed

text \<open>
  What the reader returns is a value that the writer can write and the reader reads again: numbers
  with a literal, UTF-8 in strings and keys, and no deeper than the limit.
\<close>

lemma Decode_wf: "Decode s = Some v \<Longrightarrow> wf_json v \<and> depth v \<le> maxNestingDepth"
  by (auto simp: Decode_def fits_def dest: run_ok)

lemma Unmarshal_wf: "Unmarshal s = Some v \<Longrightarrow> wf_json v \<and> depth v \<le> maxNestingDepth"
  by (auto simp: Unmarshal_def fits_def split: option.splits if_splits dest: run_ok)

lemma Unmarshal_again: "Unmarshal s = Some v \<Longrightarrow> Unmarshal (Marshal v) = Some v"
  by (blast dest: Unmarshal_wf intro: Unmarshal_Marshal)

section \<open>Decoders\<close>

definition wf_members :: "(string \<times> json) list \<Rightarrow> bool" where
  "wf_members kvs \<longleftrightarrow> wf_json (JObj kvs)"

locale typed_decoder =
  fixes d :: "'a decoder"
    and ok :: "'a \<Rightarrow> bool"
  assumes typed: "d v cur = Some x \<Longrightarrow> wf_json v \<Longrightarrow> ok cur \<Longrightarrow> ok x"
begin

lemma field_typed:
  "field name d kvs cur = Some x \<Longrightarrow> wf_members kvs \<Longrightarrow> ok cur \<Longrightarrow> ok x"
proof (induction kvs arbitrary: cur)
  case (Cons kv kvs)
  obtain k v where kv: "kv = (k, v)" by (cases kv)
  show ?case
  proof (cases "EqualFold name k")
    case True
    with Cons.prems kv obtain y where "d v cur = Some y" "field name d kvs y = Some x" by (auto split: option.splits)
    with Cons kv typed show ?thesis by (auto simp: wf_members_def)
  qed (use Cons kv in \<open>auto simp: wf_members_def\<close>)
qed simp

lemma decode_typed: "decode_into d z b = Some x \<Longrightarrow> ok z \<Longrightarrow> ok x"
  by (auto simp: decode_into_def bind_eq_Some_conv dest: Decode_wf intro: typed)

lemma unmarshal_typed: "unmarshal_into d z b = Some x \<Longrightarrow> ok z \<Longrightarrow> ok x"
  by (auto simp: unmarshal_into_def bind_eq_Some_conv dest: Unmarshal_wf intro: typed)

end

text \<open>A decoder for the elements of a list, which start from the zero value.\<close>

locale typed_elements = typed_decoder d ok for d :: "'a decoder" and ok +
  fixes zero :: 'a
  assumes zero_ok: "ok zero"
begin

lemma elems_typed: "d_elems d zero vs = Some xs \<Longrightarrow> list_all wf_json vs \<Longrightarrow> list_all ok xs"
  by (induction vs arbitrary: xs) (auto split: option.splits dest: typed [OF _ _ zero_ok])

end

sublocale typed_elements \<subseteq> elements: typed_decoder "d_list d zero" "list_all ok"
  by unfold_locales (auto simp: d_list_def split: json.splits dest: elems_typed)

interpretation strings: typed_decoder d_string valid_utf8
  by unfold_locales (auto simp: d_string_def split: json.splits)

interpretation ints: typed_decoder d_int in_i64
  by unfold_locales (auto simp: d_int_def ParseInt_def Let_def split: json.splits if_splits)

lemma d_object_typed:
  assumes "d_object f v cur = Some x" "wf_json v" "ok cur"
    "\<And>kvs. f kvs cur = Some x \<Longrightarrow> wf_members kvs \<Longrightarrow> ok x"
  shows "ok x"
  using assms by (auto simp: d_object_def wf_members_def split: json.splits)

end
