(* ===== verification/Metrics.thy ===== *)
theory Metrics
  imports Prelude
begin

text \<open>
  pkg/metrics: six Prometheus vectors with the label \<open>network\<close>. A vector has a value for the labels
  that were used; what the page shows of them is made by the Prometheus library. The program only
  writes them. Values are floats there and integers here: below \<open>2 ^ 53\<close> these are the same.
\<close>

datatype metric = TotalNodes | HealthyNodes | ProxySuccess | ProxyFail | WSConnected | WSError

definition metric_name :: "metric \<Rightarrow> string" where
  "metric_name m =
     (case m of
        TotalNodes \<Rightarrow> ''rpcf_nodes_total'' | HealthyNodes \<Rightarrow> ''rpcf_nodes_healthy''
      | ProxySuccess \<Rightarrow> ''rpcf_proxy_success_total'' | ProxyFail \<Rightarrow> ''rpcf_proxy_fail_total''
      | WSConnected \<Rightarrow> ''ws_connected_total'' | WSError \<Rightarrow> ''ws_errors_total'')"

type_synonym metrics = "metric \<Rightarrow> string \<rightharpoonup> int"

definition no_metrics :: metrics where
  "no_metrics = (\<lambda>_. Map.empty)"

text \<open>\<open>WithLabelValues(l).Set(v)\<close> and \<open>WithLabelValues(l).Inc()\<close>.\<close>

definition Set_metric :: "metric \<Rightarrow> string \<Rightarrow> int \<Rightarrow> metrics \<Rightarrow> metrics" where
  "Set_metric m l v ms = ms(m := (ms m)(l \<mapsto> v))"

definition reading :: "metrics \<Rightarrow> metric \<Rightarrow> string \<Rightarrow> int" where
  "reading ms m l = (case ms m l of Some v \<Rightarrow> v | None \<Rightarrow> 0)"

definition Inc :: "metric \<Rightarrow> string \<Rightarrow> metrics \<Rightarrow> metrics" where
  "Inc m l ms = Set_metric m l (reading ms m l + 1) ms"

text \<open>
  \<open>MustRegister\<close> panics (None) when a collector of the same name is registered already.
\<close>

fun MustRegister :: "metric list \<Rightarrow> metric list \<Rightarrow> metric list option" where
  "MustRegister [] registered = Some registered"
| "MustRegister (m # ms) registered =
     (if metric_name m \<in> metric_name ` set registered then None
      else MustRegister ms (registered @ [m]))"

definition metrics_Init :: "metric list \<Rightarrow> metric list option" where
  "metrics_Init registered =
     (case MustRegister [TotalNodes, HealthyNodes, ProxySuccess, ProxyFail] registered of
        Some registered' \<Rightarrow> MustRegister [WSConnected, WSError] registered'
      | None \<Rightarrow> None)"

lemma reading_Set [simp]:
  "reading (Set_metric m l v ms) m' l' = (if m' = m \<and> l' = l then v else reading ms m' l')"
  by (simp add: reading_def Set_metric_def)

lemma reading_Inc [simp]:
  "reading (Inc m l ms) m' l' = reading ms m' l' + (if m' = m \<and> l' = l then 1 else 0)"
  by (simp add: Inc_def)

lemma reading_none [simp]: "reading no_metrics m l = 0"
  by (simp add: reading_def no_metrics_def)

text \<open>\<open>Init\<close> registers every metric the program writes, and can run once.\<close>

lemma metrics_Init_once:
  "metrics_Init [] = Some [TotalNodes, HealthyNodes, ProxySuccess, ProxyFail, WSConnected, WSError]"
  "metrics_Init [] = Some registered \<Longrightarrow> set registered = UNIV \<and> metrics_Init registered = None"
proof -
  show i: "metrics_Init [] = Some [TotalNodes, HealthyNodes, ProxySuccess, ProxyFail, WSConnected, WSError]"
    by (simp add: metrics_Init_def metric_name_def)
  have "m \<in> {TotalNodes, HealthyNodes, ProxySuccess, ProxyFail, WSConnected, WSError}" for m
    by (cases m) simp_all
  with i show "metrics_Init [] = Some registered \<Longrightarrow> set registered = UNIV \<and> metrics_Init registered = None"
    by (auto simp: metrics_Init_def)
qed

end
