(* ===== verification/Http.thy ===== *)
theory Http
  imports Float64 JsonTyping Metrics
begin

text \<open>
  Package \<open>net/http\<close> as the program uses it. Requests and responses are records; a header maps a
  name, in lower case, to its values. What lies outside the process is an \<open>env\<close>: which URLs
  \<open>http.NewRequest\<close> accepts, what the network answers, the capacities of slices. A \<open>world\<close> is
  the log of the requests sent so far, the clock and the metrics; an answer may depend on all of it,
  so the network is arbitrary, and each exchange advances the clock by the time it took. A reply's
  body is what \<open>io.ReadAll\<close> returned for it.
\<close>

section \<open>Headers\<close>

type_synonym header = "string \<Rightarrow> string list"

definition hempty :: header where
  "hempty = (\<lambda>_. [])"

definition hget :: "header \<Rightarrow> string \<Rightarrow> string" where
  "hget h k = (case h (ToLower k) of [] \<Rightarrow> [] | v # _ \<Rightarrow> v)"

definition hset :: "header \<Rightarrow> string \<Rightarrow> string \<Rightarrow> header" where
  "hset h k v = h(ToLower k := [v])"

definition hset_all :: "header \<Rightarrow> (string \<times> string) list \<Rightarrow> header" where
  "hset_all h kvs = foldl (\<lambda>h (k, v). hset h k v) h kvs"

lemma hget_hset_same [simp]: "EqualFold k k' \<Longrightarrow> hget (hset h k v) k' = v"
  by (simp add: hget_def hset_def EqualFold_def)

lemma hget_hset_other [simp]: "\<not> EqualFold k k' \<Longrightarrow> hget (hset h k v) k' = hget h k'"
  by (simp add: hget_def hset_def EqualFold_def)

lemma hget_hempty [simp]: "hget hempty k = []"
  by (simp add: hget_def hempty_def)

lemma hset_all_simps [simp]:
  "hset_all h [] = h"
  "hset_all h ((k, v) # kvs) = hset_all (hset h k v) kvs"
  by (simp_all add: hset_all_def)

lemma hget_hset_all_other:
  "\<forall>k' \<in> fst ` set kvs. \<not> EqualFold k' k \<Longrightarrow> hget (hset_all h kvs) k = hget h k"
  by (induction kvs arbitrary: h) auto

text \<open>A Go map of headers may be nil; ranging over it then visits nothing.\<close>

type_synonym gomap = "(string \<times> string) list option"

fun pairs :: "gomap \<Rightarrow> (string \<times> string) list" where
  "pairs None = []"
| "pairs (Some kvs) = kvs"

section \<open>Requests, replies, the network\<close>

record request =
  rq_method :: string
  rq_url :: string
  rq_hdr :: header
  rq_body :: string
  rq_timeout :: int
  rq_tor :: "string option"

record response =
  rs_status :: int
  rs_hdr :: header
  rs_body :: string

text \<open>
  An error of the HTTP client, by what the program asks of it: whether a \<open>net.DNSError\<close> is in its
  chain; whether a \<open>net.OpError\<close> is, with a cause, and whether that cause is ECONNREFUSED; and
  the text of \<open>Error()\<close>.
\<close>

record net_error =
  as_dns :: bool
  as_op :: "bool option option"
  err_text :: string

datatype reply = Failed net_error | Got response

record world =
  sent :: "request list"
  clock :: int
  meters :: metrics

record env =
  url_ok :: "string \<Rightarrow> bool"
  transport :: "world \<Rightarrow> request \<Rightarrow> reply \<times> nat"
  read_cap :: "nat \<Rightarrow> nat"
  append_cap :: "nat \<Rightarrow> nat"

text \<open>
  \<open>read_cap n\<close> and \<open>append_cap n\<close> are the capacities of the slice of \<open>n\<close> bytes that \<open>io.ReadAll\<close>, or
  \<open>append\<close> to an empty slice, returns.
  \<open>client_do\<close> is \<open>client.Do\<close>; the clock is in nanoseconds.
\<close>

definition client_do :: "env \<Rightarrow> request \<Rightarrow> world \<Rightarrow> reply \<times> world" where
  "client_do E rq w =
     (let (rp, dt) = transport E w rq
      in (rp, w\<lparr>sent := sent w @ [rq], clock := clock w + int dt\<rparr>))"

text \<open>
  \<open>http.NewRequest\<close> returns nil for a URL it cannot parse. Every caller drops the error and uses
  the request at once, which is a nil dereference.
\<close>

definition send :: "env \<Rightarrow> request \<Rightarrow> world \<Rightarrow> panic + reply \<times> world" where
  "send E rq w = (if url_ok E (rq_url rq) then Inr (client_do E rq w) else Inl NilDeref)"

lemma client_do_sent [simp]: "sent (snd (client_do E rq w)) = sent w @ [rq]"
  by (simp add: client_do_def split: prod.splits)

text \<open>
  The requests \<open>mk n\<close> for the nodes of a list, one after the other: each reply is \<open>bad\<close>, in a world whose
  log holds the requests before it.
\<close>

definition all_bad :: "env \<Rightarrow> (reply \<Rightarrow> bool) \<Rightarrow> ('n \<Rightarrow> request) \<Rightarrow> world \<Rightarrow> 'n list \<Rightarrow> bool" where
  "all_bad E bad mk w ns \<longleftrightarrow>
     (\<forall>i < length ns. \<exists>v. sent v = sent w @ map mk (take i ns) \<and> bad (fst (client_do E (mk (ns ! i)) v)))"

lemma all_bad_Nil [simp]: "all_bad E bad mk w []"
  by (simp add: all_bad_def)

lemma all_bad_Cons:
  assumes "bad (fst (client_do E (mk n) w))" "all_bad E bad mk v ns" "sent v = sent w @ [mk n]"
  shows "all_bad E bad mk w (n # ns)"
  unfolding all_bad_def
proof (intro allI impI)
  fix i assume i: "i < length (n # ns)"
  show "\<exists>u. sent u = sent w @ map mk (take i (n # ns)) \<and> bad (fst (client_do E (mk ((n # ns) ! i)) u))"
  proof (cases i)
    case 0
    with assms(1) show ?thesis by auto
  next
    case (Suc j)
    with i assms(2) obtain u where "sent u = sent v @ map mk (take j ns)" "bad (fst (client_do E (mk (ns ! j)) u))"
      by (auto simp: all_bad_def)
    with Suc assms(3) show ?thesis by auto
  qed
qed

definition count :: "metric \<Rightarrow> string \<Rightarrow> world \<Rightarrow> world" where
  "count m l w = w\<lparr>meters := Inc m l (meters w)\<rparr>"

lemma count_simps [simp]:
  "sent (count m l w) = sent w" "clock (count m l w) = clock w" "meters (count m l w) = Inc m l (meters w)"
  by (simp_all add: count_def)

lemma client_do_meters [simp]: "meters (snd (client_do E rq w)) = meters w"
  by (simp add: client_do_def split: prod.splits)

lemma client_do_clock: "clock w \<le> clock (snd (client_do E rq w))"
  by (simp add: client_do_def split: prod.splits)

lemma send_Inr [simp]: "send E rq w = Inr r \<longleftrightarrow> url_ok E (rq_url rq) \<and> r = client_do E rq w"
  by (auto simp: send_def)

lemma send_ok: "url_ok E (rq_url rq) \<Longrightarrow> send E rq w = Inr (client_do E rq w)"
  by simp

definition ms :: "int \<Rightarrow> int" where
  "ms n = n * 1000000"

definition sec :: "int \<Rightarrow> int" where
  "sec n = n * 1000000000"

definition Milliseconds :: "int \<Rightarrow> int" where
  "Milliseconds d = d div 1000000"

lemma Milliseconds_nonneg: "0 \<le> d \<Longrightarrow> 0 \<le> Milliseconds d"
  by (simp add: Milliseconds_def)

text \<open>\<open>code/100 == 2\<close>, with Go's truncating division.\<close>

definition is_2xx :: "int \<Rightarrow> bool" where
  "is_2xx c \<longleftrightarrow> sgn c * (\<bar>c\<bar> div 100) = 2"

lemma is_2xx_iff: "is_2xx c \<longleftrightarrow> 200 \<le> c \<and> c \<le> 299"
proof -
  consider "c = 0" | "0 < c" | "c < 0" by linarith
  then show ?thesis
  proof cases
    case 3
    then have "0 \<le> (- c) div 100" by simp
    with 3 show ?thesis by (simp add: is_2xx_def)
  qed (auto simp: is_2xx_def)
qed

section \<open>The server side\<close>

text \<open>
  \<open>in_escaped\<close> is \<open>URL.EscapedPath()\<close>, the path as the client sent it, \<open>in_path\<close> is \<open>URL.Path\<close>;
  \<open>in_query\<close> is the raw query, \<open>in_param k\<close> the value of \<open>URL.Query().Get(k)\<close>.
\<close>

record incoming =
  in_method :: string
  in_escaped :: string
  in_path :: string
  in_query :: string
  in_param :: "string \<Rightarrow> string"
  in_hdr :: header
  in_body :: string

text \<open>\<open>http.Error\<close>, a bare \<open>WriteHeader\<close>, and a JSON response.\<close>

definition http_error :: "string \<Rightarrow> int \<Rightarrow> response" where
  "http_error msg code =
     \<lparr>rs_status = code,
      rs_hdr = hset (hset hempty ''Content-Type'' ''text/plain; charset=utf-8'')
                 ''X-Content-Type-Options'' ''nosniff'',
      rs_body = msg @ [CHR 0x0A]\<rparr>"

definition bare :: "int \<Rightarrow> response" where
  "bare code = \<lparr>rs_status = code, rs_hdr = hempty, rs_body = []\<rparr>"

definition json_reply :: "int \<Rightarrow> string \<Rightarrow> response" where
  "json_reply code b =
     \<lparr>rs_status = code, rs_hdr = hset hempty ''content-type'' ''application/json'', rs_body = b\<rparr>"

text \<open>\<open>writeJSON\<close> of pkg/api/admin.go: the encoder ends the text with a newline.\<close>

definition writeJSON :: "int \<Rightarrow> json \<Rightarrow> response" where
  "writeJSON code v = json_reply code (Marshal v @ [CHR 0x0A])"

lemma status_simps [simp]:
  "rs_status (http_error msg code) = code"
  "rs_status (bare code) = code"
  "rs_status (json_reply code b) = code"
  "rs_status (writeJSON code v) = code"
  by (simp_all add: http_error_def bare_def json_reply_def writeJSON_def)

section \<open>Logging a body\<close>

text \<open>
  \<open>LogSafe\<close> of pkg/api/log_utils.go shortens a long body for the log with
  \<open>append(b[:LogBodyLimit], ...)\<close>. Where the slice has room (\<open>cap\<close> is its capacity), \<open>append\<close> writes
  into it: the caller's body changes too. The model returns what is logged and what the caller's
  slice holds afterwards.
\<close>

definition LogBodyLimit :: nat where
  "LogBodyLimit = 4096"

definition truncated_mark :: string where
  "truncated_mark = ''... [truncated]''"

definition LogSafe :: "nat \<Rightarrow> string \<Rightarrow> string \<times> string" where
  "LogSafe cap b =
     (if LogBodyLimit < length b
      then let short = take LogBodyLimit b @ truncated_mark
           in (short, if length short \<le> cap then take (length b) (short @ drop (length short) b) else b)
      else (b, b))"

text \<open>The body in the caller's hands after \<open>LogRequest\<close> or \<open>LogResponse\<close>.\<close>

definition after_log :: "(nat \<Rightarrow> nat) \<Rightarrow> string \<Rightarrow> string" where
  "after_log cap_of b = snd (LogSafe (cap_of (length b)) b)"

lemma after_log_short [simp]: "length b \<le> 4096 \<Longrightarrow> after_log cap_of b = b"
  by (simp add: after_log_def LogSafe_def LogBodyLimit_def)

lemma length_after_log [simp]: "length (after_log cap_of b) = length b"
  by (simp add: after_log_def LogSafe_def LogBodyLimit_def truncated_mark_def Let_def)

lemma after_log_Nil [simp]: "after_log cap_of b = [] \<longleftrightarrow> b = []"
  by (metis length_0_conv length_after_log)

text \<open>A longer body is overwritten from byte 4096 on.\<close>

lemma after_log_long:
  assumes "4096 < length b" "4111 \<le> cap_of (length b)"
  shows "after_log cap_of b = take (length b) (take 4096 b @ truncated_mark @ drop 4111 b)"
  using assms by (simp add: after_log_def LogSafe_def LogBodyLimit_def truncated_mark_def Let_def)

section \<open>A simple environment\<close>

text \<open>
  A network that answers each request at once, by a function of the request; slices have no room
  to spare.
\<close>

definition answering :: "(request \<Rightarrow> reply) \<Rightarrow> env" where
  "answering f =
     \<lparr>url_ok = (\<lambda>_. True), transport = (\<lambda>w rq. (f rq, 0)), read_cap = (\<lambda>n. n), append_cap = (\<lambda>n. n)\<rparr>"

definition reply_with :: "int \<Rightarrow> string \<Rightarrow> reply" where
  "reply_with code b = Got \<lparr>rs_status = code, rs_hdr = hempty, rs_body = b\<rparr>"

lemma answering_simps [simp]:
  "url_ok (answering f) u" "transport (answering f) w rq = (f rq, 0)"
  "read_cap (answering f) n = n" "append_cap (answering f) n = n"
  by (simp_all add: answering_def)

definition new_world :: world where
  "new_world = \<lparr>sent = [], clock = 0, meters = no_metrics\<rparr>"

lemma new_world_simps [simp]: "sent new_world = []" "clock new_world = 0" "meters new_world = no_metrics"
  by (simp_all add: new_world_def)

lemma send_answering [simp]:
  "send (answering f) rq w = Inr (f rq, w\<lparr>sent := sent w @ [rq], clock := clock w\<rparr>)"
  by (simp add: send_def client_do_def)

end
