(* ===== verification/Secrets.thy ===== *)
theory Secrets
  imports Http
begin

text \<open>
  pkg/secrets/secrets.go: which environment variables hold secrets, and the redaction of header
  values and of log strings. The package state is the \<open>sync.Once\<close> flag and the list of secret
  values; \<open>environ\<close> is \<open>os.Environ()\<close>.
\<close>

record secrets_state =
  once :: bool
  sensitiveEnvs :: "string list"

definition headerKeySet :: "string list" where
  "headerKeySet = [''x-api-key'', ''authorization'', ''proxy-authorization'', ''api-key'']"

definition envNameSensitivePatterns :: "string list" where
  "envNameSensitivePatterns =
     [''API_KEY'', ''TOKEN'', ''SECRET'', ''PASSWORD'', ''ACCESS_KEY'', ''PRIVATE_KEY'']"

fun initSensitiveEnvs :: "string list \<Rightarrow> string list \<Rightarrow> string list" where
  "initSensitiveEnvs [] acc = acc"
| "initSensitiveEnvs (kv # kvs) acc =
     (case SplitN2 kv (CHR ''='') of
        [name, val] \<Rightarrow>
          (if (\<exists>pat \<in> set envNameSensitivePatterns. Contains (ToUpper name) pat \<and> val \<noteq> [])
           then initSensitiveEnvs kvs (acc @ [val])
           else initSensitiveEnvs kvs acc)
      | _ \<Rightarrow> initSensitiveEnvs kvs acc)"

definition redact_pair :: "string \<times> string \<Rightarrow> string \<times> string" where
  "redact_pair kv = (fst kv, if ToLower (fst kv) \<in> set headerKeySet then ''***'' else snd kv)"

definition RedactHeaders :: "gomap \<Rightarrow> gomap" where
  "RedactHeaders h = (if pairs h = [] then h else Some (map redact_pair (pairs h)))"

definition hidden_tag :: string where
  "hidden_tag = ''[HIDDEN]''"

fun redact_values :: "string list \<Rightarrow> string \<Rightarrow> string" where
  "redact_values [] s = s"
| "redact_values (v # vs) s =
     (if v = [] then redact_values vs s else redact_values vs (ReplaceAll s v hidden_tag))"

definition RedactString :: "string list \<Rightarrow> string \<Rightarrow> secrets_state \<Rightarrow> string \<times> secrets_state" where
  "RedactString environ s st =
     (let st' = (if once st then st
                 else \<lparr>once = True, sensitiveEnvs = initSensitiveEnvs environ (sensitiveEnvs st)\<rparr>)
      in (redact_values (sensitiveEnvs st') s, st'))"

definition ResetSensitiveEnvs :: secrets_state where
  "ResetSensitiveEnvs = \<lparr>once = False, sensitiveEnvs = []\<rparr>"

section \<open>Redacted headers carry no secret\<close>

lemma RedactHeaders_keys: "map fst (pairs (RedactHeaders h)) = map fst (pairs h)"
  by (auto simp: RedactHeaders_def redact_pair_def)

lemma RedactHeaders_masked:
  "(k, v) \<in> set (pairs (RedactHeaders h)) \<Longrightarrow> ToLower k \<in> set headerKeySet \<Longrightarrow> v = ''***''"
  by (auto simp: RedactHeaders_def redact_pair_def split: if_splits)

lemma RedactHeaders_kept:
  "(k, v) \<in> set (pairs h) \<Longrightarrow> ToLower k \<notin> set headerKeySet \<Longrightarrow>
     (k, v) \<in> set (pairs (RedactHeaders h))"
  by (force simp: RedactHeaders_def redact_pair_def)

section \<open>A redacted string holds no secret value\<close>

text \<open>
  A value can come back through the tag itself (the value \<open>HIDDEN\<close>) or across its brackets, so
  the statement is about values that hold no bracket and are not part of the word \<open>HIDDEN\<close>.
\<close>

definition redactable :: "string \<Rightarrow> bool" where
  "redactable v \<longleftrightarrow> v \<noteq> [] \<and> CHR ''['' \<notin> set v \<and> CHR '']'' \<notin> set v \<and> \<not> sublist v ''HIDDEN''"

lemma sublist_sep:
  assumes "c \<notin> set v" "v \<noteq> []" "sublist v (x @ c # y)"
  shows "sublist v x \<or> sublist v y"
proof -
  from assms(3) obtain p s where "x @ c # y = p @ v @ s"
    by (auto simp: sublist_def)
  then consider us where "x = p @ us" "us @ c # y = v @ s"
    | us where "p = x @ us" "c # y = us @ v @ s"
    by (auto simp: append_eq_append_conv2)
  then show ?thesis
  proof cases
    case 1
    then consider t where "us = v @ t" | t where "v = us @ t" "c # y = t @ s"
      by (auto simp: append_eq_append_conv2)
    then show ?thesis
    proof cases
      case 1
      with \<open>x = p @ us\<close> show ?thesis by (auto simp: sublist_def)
    next
      case 2
      with assms(1) have "t = []" by (cases t) auto
      with 2 \<open>x = p @ us\<close> show ?thesis using sublist_appendI [of v p "[]"] by simp
    qed
  next
    case 2
    then show ?thesis using assms(1,2) by (cases us; cases v) (auto simp: sublist_def)
  qed
qed

lemma sublist_tag:
  assumes "redactable v" "sublist v (x @ hidden_tag @ y)"
  shows "sublist v x \<or> sublist v y"
proof -
  have v: "v \<noteq> []" "CHR ''['' \<notin> set v" "CHR '']'' \<notin> set v" "\<not> sublist v ''HIDDEN''"
    using assms(1) by (auto simp: redactable_def)
  have "sublist v (x @ CHR ''['' # (''HIDDEN'' @ CHR '']'' # y))"
    using assms(2) by (simp add: hidden_tag_def)
  then show ?thesis
    using sublist_sep [OF v(2,1)] sublist_sep [OF v(3,1)] v(4) by blast
qed

lemma sublist_starts: "v \<noteq> [] \<Longrightarrow> sublist v x \<longleftrightarrow> (\<exists>i < length x. prefix v (drop i x))"
proof
  assume v: "v \<noteq> []" "sublist v x"
  then obtain p s where x: "x = p @ v @ s" by (auto simp: sublist_def)
  with v have "length p < length x \<and> prefix v (drop (length p) x)" by simp
  then show "\<exists>i < length x. prefix v (drop i x)" by blast
next
  assume "\<exists>i < length x. prefix v (drop i x)"
  then obtain i s where "drop i x = v @ s" by (auto simp: prefix_def)
  then have "x = take i x @ v @ s" by (metis append_take_drop_id)
  then show "sublist v x" by (metis sublist_appendI)
qed

text \<open>
  The text \<open>x\<close> copied since the last replacement is the induction's accumulator: no occurrence
  of the value starts in it.
\<close>

lemma ReplaceAll_removes_gen:
  assumes "redactable v" "\<And>i. i < length x \<Longrightarrow> \<not> prefix v (drop i (x @ s))"
  shows "\<not> sublist v (x @ ReplaceAll s v hidden_tag)"
  using assms
proof (induction s v hidden_tag arbitrary: x rule: ReplaceAll.induct)
  case (1 s v)
  have v: "v \<noteq> []" using 1(3) by (simp add: redactable_def)
  have x: "\<not> sublist v x"
    using 1(4) by (auto simp: sublist_starts [OF v] dest: prefix_prefix)
  show ?case
  proof (cases "prefix v s")
    case True
    have "\<not> sublist v ([] @ ReplaceAll (drop (length v) s) v hidden_tag)"
      using 1(1) [OF v True 1(3), of "[]"] by simp
    with x sublist_tag [OF 1(3)] show ?thesis
      by (auto simp: ReplaceAll_hit [OF v True])
  next
    case False
    show ?thesis
    proof (cases s)
      case Nil
      with v x show ?thesis by simp
    next
      case (Cons c cs)
      have "\<not> prefix v (drop i ((x @ [c]) @ cs))" if "i < length (x @ [c])" for i
        using that 1(4) [of i] False Cons by (cases "i = length x") auto
      then have "\<not> sublist v ((x @ [c]) @ ReplaceAll cs v hidden_tag)"
        by (rule 1(2) [OF v False Cons 1(3)])
      with Cons False v show ?thesis by (simp add: ReplaceAll_miss)
    qed
  qed
qed

lemma ReplaceAll_removes: "redactable v \<Longrightarrow> \<not> sublist v (ReplaceAll s v hidden_tag)"
  using ReplaceAll_removes_gen [of v "[]" s] by simp

lemma ReplaceAll_keeps_gen:
  assumes "redactable v" "w \<noteq> []" "\<not> sublist v (x @ s)"
  shows "\<not> sublist v (x @ ReplaceAll s w hidden_tag)"
  using assms
proof (induction s w hidden_tag arbitrary: x rule: ReplaceAll.induct)
  case (1 s w)
  show ?case
  proof (cases "prefix w s")
    case True
    then obtain t where t: "s = w @ t" by (auto simp: prefix_def)
    with 1(5) have "\<not> sublist v x" "\<not> sublist v t"
      by (metis sublist_append sublist_order.order_trans append_assoc)+
    moreover have "\<not> sublist v ([] @ ReplaceAll (drop (length w) s) w hidden_tag)"
      using 1(1) [OF 1(4) True 1(3) 1(4), of "[]"] t \<open>\<not> sublist v t\<close> by simp
    ultimately show ?thesis
      using sublist_tag [OF 1(3)] by (auto simp: ReplaceAll_hit [OF 1(4) True])
  next
    case False
    show ?thesis
    proof (cases s)
      case (Cons c cs)
      have "\<not> sublist v ((x @ [c]) @ ReplaceAll cs w hidden_tag)"
        by (rule 1(2) [OF 1(4) False Cons 1(3) 1(4)]) (use 1(5) Cons in simp)
      with Cons False 1(4) show ?thesis by (simp add: ReplaceAll_miss)
    qed (use 1(4,5) in simp)
  qed
qed

lemma redact_values_keeps:
  "redactable v \<Longrightarrow> \<not> sublist v s \<Longrightarrow> \<not> sublist v (redact_values vs s)"
proof (induction vs arbitrary: s)
  case (Cons w vs)
  then show ?case
    using ReplaceAll_keeps_gen [of v w "[]" s] by auto
qed simp

lemma redact_values_removes:
  "redactable v \<Longrightarrow> v \<in> set vs \<Longrightarrow> \<not> sublist v (redact_values vs s)"
proof (induction vs arbitrary: s)
  case (Cons w vs)
  then show ?case
    using redact_values_keeps [OF Cons.prems(1) ReplaceAll_removes [OF Cons.prems(1)]]
    by (auto simp: redactable_def)
qed simp

lemma initSensitiveEnvs_acc: "set acc \<subseteq> set (initSensitiveEnvs kvs acc)"
proof (induction kvs acc rule: initSensitiveEnvs.induct)
  case (2 kv kvs acc)
  then show ?case by (auto split: list.splits)
qed simp

text \<open>Every variable whose name matches a pattern and whose value is not empty is collected.\<close>

lemma initSensitiveEnvs_collects:
  assumes "(name @ CHR ''='' # val) \<in> set environ" "CHR ''='' \<notin> set name" "val \<noteq> []"
    "pat \<in> set envNameSensitivePatterns" "Contains (ToUpper name) pat"
  shows "val \<in> set (initSensitiveEnvs environ acc)"
  using assms(1)
proof (induction environ arbitrary: acc)
  case (Cons kv kvs)
  show ?case
  proof (cases "kv = name @ CHR ''='' # val")
    case True
    have "SplitN2 kv (CHR ''='') = [name, val]"
      using True assms(2) by (auto simp: takeWhile_append dropWhile_append3 takeWhile_eq_all_conv
          dropWhile_append)
    then show ?thesis
      using assms(3-5) initSensitiveEnvs_acc [of "acc @ [val]" kvs] by auto
  next
    case False
    with Cons have "val \<in> set (initSensitiveEnvs kvs acc')" for acc' by auto
    then show ?thesis by (auto split: list.splits)
  qed
qed simp

section \<open>Properties\<close>

text \<open>
  (C36) Redaction is effective. A log line built with \<open>RedactString\<close> does not contain the value of an
  environment variable whose name marks it as sensitive, however the value occurs in the text,
  once or several times, alone or next to other secrets. This is for values that are not empty, hold
  no square bracket and are not part of the word HIDDEN; for others it can fail (\<open>redaction_recreates\<close>).
\<close>
theorem redaction_hides_secrets:
  assumes "(name @ CHR ''='' # val) \<in> set environ" "CHR ''='' \<notin> set name"
    "pat \<in> set envNameSensitivePatterns" "Contains (ToUpper name) pat" "redactable val"
  shows "\<not> Contains (fst (RedactString environ s ResetSensitiveEnvs)) val"
proof -
  have "val \<in> set (initSensitiveEnvs environ [])"
    using assms by (intro initSensitiveEnvs_collects) (auto simp: redactable_def)
  with assms(5) show ?thesis
    by (simp add: RedactString_def ResetSensitiveEnvs_def Contains_def redact_values_removes)
qed

theorem redaction_hides_secrets_witness:
  "\<not> Contains (fst (RedactString [''A=1'', ''MY_TOKEN=k9''] ''http://x/k9/k9k9'' ResetSensitiveEnvs)) ''k9''"
proof (rule redaction_hides_secrets [where name = "''MY_TOKEN''" and pat = "''TOKEN''"])
  show "Contains (ToUpper ''MY_TOKEN'') ''TOKEN''"
    by (simp add: Contains_def ToUpper_def upper_char_def sublist_Cons_right)
  show "redactable ''k9''"
    by (simp add: redactable_def sublist_Cons_right)
qed (simp_all add: envNameSensitivePatterns_def)

text \<open>
  The tag that replaces a value can complete the value anew: with the value \<open>a[H\<close>, the text \<open>aa[H\<close> becomes
  \<open>a[HIDDEN]\<close>, which contains it.
\<close>
theorem redaction_recreates:
  "fst (RedactString [''MY_TOKEN=a[H''] ''aa[H'' ResetSensitiveEnvs) = ''a[HIDDEN]''
    \<and> Contains ''a[HIDDEN]'' ''a[H''"
proof -
  have c: "Contains (ToUpper ''MY_TOKEN'') ''TOKEN''"
    by (simp add: Contains_def ToUpper_def upper_char_def sublist_Cons_right)
  have "initSensitiveEnvs [''MY_TOKEN=a[H''] [] = [''a[H'']"
    using c by (simp add: envNameSensitivePatterns_def)
  then have "fst (RedactString [''MY_TOKEN=a[H''] ''aa[H'' ResetSensitiveEnvs) = ReplaceAll ''aa[H'' ''a[H'' hidden_tag"
    by (simp add: RedactString_def ResetSensitiveEnvs_def)
  also have "\<dots> = ''a[HIDDEN]''" by code_simp
  finally show ?thesis by (simp add: Contains_def sublist_Cons_right)
qed

text \<open>
  Redacted headers keep their names and order; a header that carries credentials has its value
  masked, every other header keeps its value.
\<close>
theorem redacted_headers:
  "map fst (pairs (RedactHeaders h)) = map fst (pairs h) \<and>
   list_all2 (\<lambda>(k, v) (k', v'). v' = (if ToLower k \<in> set headerKeySet then ''***'' else v))
     (pairs h) (pairs (RedactHeaders h))"
proof -
  have "pairs (RedactHeaders h) = map redact_pair (pairs h)"
    by (simp add: RedactHeaders_def)
  then show ?thesis
    by (auto simp: RedactHeaders_keys list_all2_map2 redact_pair_def intro!: list.rel_refl)
qed

end
