(* ===== verification/Networks.thy ===== *)
theory Networks
  imports Secrets
begin

text \<open>
  pkg/networks: the configuration types and \<open>LoadAll\<close>, which reads the YAML files of a directory,
  substitutes environment variables and fills in defaults. The directory, the files and the
  environment are arguments, and so is the YAML reader (a third-party package): \<open>yaml\<close> gives
  the configuration that a text decodes to, or an error.
\<close>

record Node =
  URL :: string
  Priority :: int
  Headers :: gomap
  Tor :: bool

text \<open>A node with a URL and a priority only.\<close>

definition plain_node :: "string \<Rightarrow> int \<Rightarrow> Node" where
  "plain_node u p = \<lparr>URL = u, Priority = p, Headers = None, Tor = False\<rparr>"

lemma plain_node_simps [simp]:
  "URL (plain_node u p) = u" "Priority (plain_node u p) = p" "Headers (plain_node u p) = None"
  "Tor (plain_node u p) = False"
  by (simp_all add: plain_node_def)

record GasConfig =
  ExternalURL :: string
  MinPriorityGwei :: int
  TTLSeconds :: int

record NetworkConfig =
  nc_Route :: string
  nc_Protocol :: string
  nc_Nodes :: "Node list"
  nc_TimeoutMs :: int
  nc_Gas :: "GasConfig option"

record dir_entry =
  de_name :: string
  de_isdir :: bool

datatype load_error = ReadDirFailed | ReadFileFailed string | YamlError string | MissingFields string

datatype load_log = EnvEmpty string string | Unresolved string | NoNodes string

section \<open>The substitution of environment variables\<close>

text \<open>The regular expression \<open>\$\{([A-Z0-9_]+)\}\<close>, matched at the start of a text.\<close>

definition var_char :: "char \<Rightarrow> bool" where
  "var_char c \<longleftrightarrow>
     (let n = of_char c :: nat in (65 \<le> n \<and> n \<le> 90) \<or> (48 \<le> n \<and> n \<le> 57) \<or> n = 95)"

fun match_var :: "string \<Rightarrow> (string \<times> string) option" where
  "match_var (a # b # s) =
     (if a = CHR ''$'' \<and> b = CHR ''{''
      then (let k = takeWhile var_char s; r = dropWhile var_char s
            in if k \<noteq> [] \<and> r \<noteq> [] \<and> hd r = CHR ''}'' then Some (k, tl r) else None)
      else None)"
| "match_var _ = None"

lemma match_var_shorter: "match_var s = Some (k, r) \<Longrightarrow> length r < length s"
proof (induction s rule: match_var.induct)
  case (1 a b s)
  have "length (dropWhile var_char s) \<le> length s"
    by (rule length_dropWhile_le)
  with 1 show ?case by (auto simp: Let_def split: if_splits)
qed auto

text \<open>\<open>re.ReplaceAllFunc\<close> with the closure of \<open>LoadAll\<close>: the new text and the warnings.\<close>

function expand :: "(string \<Rightarrow> string) \<Rightarrow> string \<Rightarrow> string \<Rightarrow> string \<times> load_log list" where
  "expand getenv file s =
     (case match_var s of
        Some (k, r) \<Rightarrow>
          (let (t, log) = expand getenv file r
           in (getenv k @ t, (if getenv k = [] then [EnvEmpty file k] else []) @ log))
      | None \<Rightarrow>
          (case s of
             [] \<Rightarrow> ([], [])
           | c # cs \<Rightarrow> (let (t, log) = expand getenv file cs in (c # t, log))))"
  by pat_completeness auto
termination
  by (relation "measure (\<lambda>(getenv, file, s). length s)") (auto dest: match_var_shorter)

declare expand.simps [simp del]

fun has_var :: "string \<Rightarrow> bool" where
  "has_var [] = False"
| "has_var (c # cs) = (match_var (c # cs) \<noteq> None \<or> has_var cs)"

section \<open>LoadAll\<close>

definition norm_node :: "Node \<Rightarrow> Node" where
  "norm_node n =
     (let n' = (if Priority n = 0 then n\<lparr>Priority := 1\<rparr> else n)
      in if Headers n' = None then n'\<lparr>Headers := Some []\<rparr> else n')"

definition load_one ::
  "(string \<Rightarrow> string) \<Rightarrow> (string \<Rightarrow> NetworkConfig option) \<Rightarrow> string \<Rightarrow> string
     \<Rightarrow> load_error + NetworkConfig \<times> load_log list" where
  "load_one getenv yaml file b =
     (let (b', log1) = expand getenv file b;
          log2 = (if has_var b' then [Unresolved file] else [])
      in case yaml b' of
           None \<Rightarrow> Inl (YamlError file)
         | Some nc \<Rightarrow>
             (if nc_Route nc = [] \<or> nc_Protocol nc = [] then Inl (MissingFields file)
              else Inr (nc\<lparr>nc_Nodes := map norm_node (nc_Nodes nc)\<rparr>,
                        log1 @ log2 @ (if nc_Nodes nc = [] then [NoNodes file] else []))))"

fun load_entries ::
  "(string \<Rightarrow> string) \<Rightarrow> (string \<Rightarrow> NetworkConfig option) \<Rightarrow> (string \<Rightarrow> string option)
     \<Rightarrow> dir_entry list \<Rightarrow> (string \<rightharpoonup> NetworkConfig) \<Rightarrow> load_log list
     \<Rightarrow> load_error + (string \<rightharpoonup> NetworkConfig) \<times> load_log list" where
  "load_entries getenv yaml files [] out log = Inr (out, log)"
| "load_entries getenv yaml files (e # es) out log =
     (if de_isdir e \<or> \<not> HasSuffix (de_name e) ''.yaml'' then load_entries getenv yaml files es out log
      else case files (de_name e) of
             None \<Rightarrow> Inl (ReadFileFailed (de_name e))
           | Some b \<Rightarrow>
               (case load_one getenv yaml (de_name e) b of
                  Inl err \<Rightarrow> Inl err
                | Inr (nc, l) \<Rightarrow>
                    load_entries getenv yaml files es
                      (out(TrimSuffix (de_name e) ''.yaml'' \<mapsto> nc)) (log @ l)))"

definition LoadAll ::
  "(string \<Rightarrow> string) \<Rightarrow> (string \<Rightarrow> NetworkConfig option) \<Rightarrow> (string \<Rightarrow> string option)
     \<Rightarrow> dir_entry list option \<Rightarrow> load_error + (string \<rightharpoonup> NetworkConfig) \<times> load_log list" where
  "LoadAll getenv yaml files dir =
     (case dir of None \<Rightarrow> Inl ReadDirFailed
      | Some es \<Rightarrow> load_entries getenv yaml files es Map.empty [])"

section \<open>What a loaded configuration satisfies\<close>

definition config_ok :: "NetworkConfig \<Rightarrow> bool" where
  "config_ok nc \<longleftrightarrow>
     nc_Route nc \<noteq> [] \<and> nc_Protocol nc \<noteq> [] \<and>
     (\<forall>n \<in> set (nc_Nodes nc). Priority n \<noteq> 0 \<and> Headers n \<noteq> None)"

lemma norm_node_ok: "Priority (norm_node n) \<noteq> 0" "\<exists>y. Headers (norm_node n) = Some y"
  by (auto simp: norm_node_def Let_def)

lemma norm_node_keeps [simp]: "URL (norm_node n) = URL n" "Tor (norm_node n) = Tor n"
  by (simp_all add: norm_node_def Let_def)

lemma load_one_ok: "load_one getenv yaml file b = Inr (nc, log) \<Longrightarrow> config_ok nc"
  by (auto simp: load_one_def config_ok_def norm_node_ok Let_def
      split: prod.splits option.splits if_splits)

lemma load_entries_ConsE:
  assumes "load_entries getenv yaml files (e # es) out log = Inr r"
  obtains (skip) "de_isdir e \<or> \<not> HasSuffix (de_name e) ''.yaml''"
      "load_entries getenv yaml files es out log = Inr r"
    | (load) b nc l where "\<not> de_isdir e" "HasSuffix (de_name e) ''.yaml''"
      "files (de_name e) = Some b" "load_one getenv yaml (de_name e) b = Inr (nc, l)"
      "load_entries getenv yaml files es (out(TrimSuffix (de_name e) ''.yaml'' \<mapsto> nc)) (log @ l)
         = Inr r"
  using assms by (auto split: if_splits option.splits sum.splits)

lemma load_entries_ok:
  "load_entries getenv yaml files es out log = Inr (cfgs, log') \<Longrightarrow>
     \<forall>k nc. out k = Some nc \<longrightarrow> config_ok nc \<Longrightarrow> cfgs k = Some nc \<Longrightarrow> config_ok nc"
proof (induction es arbitrary: out log)
  case (Cons e es)
  from Cons.prems(1) show ?case
  proof (cases rule: load_entries_ConsE)
    case skip
    with Cons show ?thesis by blast
  next
    case (load b nc' l)
    then have "\<forall>k nc. (out(TrimSuffix (de_name e) ''.yaml'' \<mapsto> nc')) k = Some nc \<longrightarrow> config_ok nc"
      using Cons.prems(2) load_one_ok [OF load(4)] by auto
    with Cons.IH [OF load(5)] Cons.prems(3) show ?thesis by blast
  qed
qed auto

definition config_keys :: "dir_entry list \<Rightarrow> string set" where
  "config_keys es =
     (\<lambda>e. TrimSuffix (de_name e) ''.yaml'')
       ` {e \<in> set es. \<not> de_isdir e \<and> HasSuffix (de_name e) ''.yaml''}"

lemma config_keys_simps [simp]:
  "config_keys [] = {}"
  "config_keys (e # es) =
     (if de_isdir e \<or> \<not> HasSuffix (de_name e) ''.yaml'' then config_keys es
      else insert (TrimSuffix (de_name e) ''.yaml'') (config_keys es))"
  by (auto simp: config_keys_def)

lemma load_entries_dom:
  "load_entries getenv yaml files es out log = Inr (cfgs, log') \<Longrightarrow>
     dom cfgs = dom out \<union> config_keys es"
proof (induction es arbitrary: out log)
  case (Cons e es)
  from Cons.prems show ?case
  proof (cases rule: load_entries_ConsE)
    case skip
    with Cons.IH [OF skip(2)] show ?thesis by simp
  next
    case (load b nc' l)
    with Cons.IH [OF load(5)] show ?thesis by (simp add: dom_fun_upd del: fun_upd_apply)
  qed
qed simp

lemma expand_no_var: "\<not> has_var s \<Longrightarrow> expand getenv file s = (s, [])"
proof (induction s)
  case Nil
  then show ?case by (subst expand.simps) simp
next
  case (Cons c cs)
  then show ?case by (subst expand.simps) (auto split: option.splits)
qed

lemma expand_var:
  assumes "k \<noteq> []" "\<And>c. c \<in> set k \<Longrightarrow> var_char c"
  shows "expand getenv file (''${'' @ k @ ''}'' @ r) =
     (getenv k @ fst (expand getenv file r),
      (if getenv k = [] then [EnvEmpty file k] else []) @ snd (expand getenv file r))"
proof -
  have n: "\<not> var_char (CHR ''}'')" by (simp add: var_char_def)
  have "match_var (''${'' @ k @ ''}'' @ r) = Some (k, r)"
    using assms n by (simp add: takeWhile_append2 dropWhile_append2)
  then show ?thesis
    by (subst expand.simps) (simp split: prod.splits)
qed

section \<open>Properties\<close>

text \<open>
  (C37) When the configuration loads, there is exactly one network per YAML file of the directory,
  under the name of the file, and each has a route, a protocol and nodes whose priority and
  headers were filled in. Subdirectories and other files are skipped.
\<close>
theorem LoadAll_configs:
  assumes "LoadAll getenv yaml files (Some es) = Inr (cfgs, log)"
  shows "dom cfgs = config_keys es \<and> (\<forall>nc \<in> ran cfgs. config_ok nc)"
proof -
  have l: "load_entries getenv yaml files es Map.empty [] = Inr (cfgs, log)"
    using assms by (simp add: LoadAll_def)
  then show ?thesis
    using load_entries_dom [OF l] load_entries_ok [OF l] by (auto simp: ran_def)
qed

theorem LoadAll_configs_witness:
  "\<exists>cfgs log. LoadAll (\<lambda>_. []) (\<lambda>b. Some \<lparr>nc_Route = ''/btc'', nc_Protocol = ''btc'',
        nc_Nodes = [plain_node ''http://x'' 0], nc_TimeoutMs = 0, nc_Gas = None\<rparr>)
      [''btc.yaml'' \<mapsto> ''route: /btc'']
      (Some [\<lparr>de_name = ''sub'', de_isdir = True\<rparr>, \<lparr>de_name = ''btc.yaml'', de_isdir = False\<rparr>])
      = Inr (cfgs, log) \<and> dom cfgs = {''btc''}"
proof -
  let ?es = "[\<lparr>de_name = ''sub'', de_isdir = True\<rparr>, \<lparr>de_name = ''btc.yaml'', de_isdir = False\<rparr>]"
  let ?y = "\<lambda>b :: string. Some \<lparr>nc_Route = ''/btc'', nc_Protocol = ''btc'',
        nc_Nodes = [plain_node ''http://x'' 0], nc_TimeoutMs = 0, nc_Gas = None\<rparr>"
  have v: "\<not> has_var ''route: /btc''" by simp
  have s: "HasSuffix ''btc.yaml'' ''.yaml''" "TrimSuffix ''btc.yaml'' ''.yaml'' = ''btc''"
    by (simp_all add: HasSuffix_def TrimSuffix_def suffix_def)
  have "\<exists>cfgs log. LoadAll (\<lambda>_. []) ?y [''btc.yaml'' \<mapsto> ''route: /btc''] (Some ?es) = Inr (cfgs, log)"
    by (simp add: LoadAll_def s load_one_def expand_no_var [OF v] v)
  then obtain cfgs log where
    l: "LoadAll (\<lambda>_. []) ?y [''btc.yaml'' \<mapsto> ''route: /btc''] (Some ?es) = Inr (cfgs, log)" by blast
  from LoadAll_configs [OF l] have "dom cfgs = {''btc''}" by (simp add: s)
  with l show ?thesis by blast
qed

end
