(* ===== verification/Registry.thy ===== *)
theory Registry
  imports Networks
begin

text \<open>
  pkg/registry: the registry maps a network's name to its state (all its nodes, the best node of
  each priority, the nodes learnt by gossip with their expiry). The Go struct guards the map with
  a mutex; an operation here is one critical section. \<open>Registry.All\<close> copies the map but not
  the states it points to, so a caller that writes through it writes to the registry: the
  handlers that do so take and return the registry itself.
\<close>

record NodeWithPing = Node +
  Alive :: bool
  Ping :: int

record DiscoveredNode =
  dn_Node :: Node
  dn_ExpiresAt :: int

record NetworkState =
  st_Protocol :: string
  st_Route :: string
  st_All :: "Node list"
  st_Best :: "NodeWithPing list"
  st_Discovered :: "DiscoveredNode list"
  st_TimeoutMs :: int
  st_Gas :: "GasConfig option"

type_synonym registry = "string \<rightharpoonup> NetworkState"

definition mk_ping :: "Node \<Rightarrow> bool \<Rightarrow> int \<Rightarrow> NodeWithPing" where
  "mk_ping n a p = Node.extend n \<lparr>Alive = a, Ping = p\<rparr>"

lemma mk_ping_simps [simp]:
  "URL (mk_ping n a p) = URL n" "Priority (mk_ping n a p) = Priority n"
  "Headers (mk_ping n a p) = Headers n" "Tor (mk_ping n a p) = Tor n"
  "Alive (mk_ping n a p) = a" "Ping (mk_ping n a p) = p"
  by (simp_all add: mk_ping_def Node.defs)

section \<open>Operations\<close>

definition reg_New :: registry where
  "reg_New = Map.empty"

text \<open>The pattern \<open>if s, ok := r.State[k]; ok { ... }\<close> with a body that updates \<open>s\<close>.\<close>

definition modify :: "string \<Rightarrow> (NetworkState \<Rightarrow> NetworkState) \<Rightarrow> registry \<Rightarrow> registry" where
  "modify k f r = (case r k of None \<Rightarrow> r | Some s \<Rightarrow> r(k \<mapsto> f s))"

definition InitFromConfigs :: "(string \<rightharpoonup> NetworkConfig) \<Rightarrow> registry \<Rightarrow> registry" where
  [reg_simps]: "InitFromConfigs cfgs r =
     (\<lambda>name. case cfgs name of
        Some c \<Rightarrow> Some \<lparr>st_Protocol = nc_Protocol c, st_Route = nc_Route c, st_All = nc_Nodes c,
                        st_Best = [], st_Discovered = [], st_TimeoutMs = nc_TimeoutMs c,
                        st_Gas = nc_Gas c\<rparr>
      | None \<Rightarrow> r name)"

definition SetBest :: "string \<Rightarrow> NodeWithPing list \<Rightarrow> registry \<Rightarrow> registry" where
  [reg_simps]: "SetBest name best r = modify name (\<lambda>s. s\<lparr>st_Best := best\<rparr>) r"

definition reg_Best :: "registry \<Rightarrow> string \<Rightarrow> NodeWithPing list" where
  "reg_Best r name = (case r name of Some s \<Rightarrow> st_Best s | None \<Rightarrow> [])"

definition reg_All :: "registry \<Rightarrow> (string \<rightharpoonup> NetworkState)" where
  "reg_All r = r"

text \<open>
  The grouping loop, the fastest node of a group (\<open>group[0]\<close> unless a later one is strictly
  faster), and the final sort. \<open>ord\<close> is the order in which the groups are visited.
\<close>

fun group_alive ::
  "NodeWithPing list \<Rightarrow> (int \<rightharpoonup> NodeWithPing list) \<Rightarrow> (int \<rightharpoonup> NodeWithPing list)" where
  "group_alive [] m = m"
| "group_alive (n # ns) m =
     (if \<not> Alive n then group_alive ns m
      else group_alive ns
        (m(Priority n \<mapsto> (case m (Priority n) of None \<Rightarrow> [] | Some g \<Rightarrow> g) @ [n])))"

definition fastest_of :: "NodeWithPing list \<Rightarrow> NodeWithPing" where
  "fastest_of g = foldl (\<lambda>f cur. if Ping cur < Ping f then cur else f) (hd g) (tl g)"

definition PickFastest :: "int list \<Rightarrow> NodeWithPing list \<Rightarrow> NodeWithPing list" where
  "PickFastest ord nodes =
     sort_key Priority (map fastest_of (visit ord (group_alive nodes Map.empty)))"

definition PickFastestPerPriority :: "NodeWithPing list \<Rightarrow> NodeWithPing list" where
  "PickFastestPerPriority nodes = PickFastest (remdups (map Priority (filter Alive nodes))) nodes"

definition AddNetwork :: "NetworkConfig \<Rightarrow> NodeWithPing list \<Rightarrow> registry \<Rightarrow> registry" where
  [reg_simps]: "AddNetwork cfg best r =
     r(TrimPrefix (nc_Route cfg) ''/'' \<mapsto>
         \<lparr>st_Protocol = nc_Protocol cfg, st_Route = nc_Route cfg, st_All = nc_Nodes cfg,
          st_Best = best, st_Discovered = [], st_TimeoutMs = nc_TimeoutMs cfg, st_Gas = None\<rparr>)"

definition ProtocolOf :: "registry \<Rightarrow> string \<Rightarrow> string" where
  "ProtocolOf r name = (case r name of Some s \<Rightarrow> st_Protocol s | None \<Rightarrow> [])"

definition AllBestOrEmpty :: "registry \<Rightarrow> (string \<rightharpoonup> NodeWithPing list)" where
  "AllBestOrEmpty r = (\<lambda>name. map_option st_Best (reg_All r name))"

definition AddNode :: "string \<Rightarrow> Node \<Rightarrow> registry \<Rightarrow> registry" where
  [reg_simps]: "AddNode net n r = modify net (\<lambda>s. s\<lparr>st_All := st_All s @ [n]\<rparr>) r"

definition AppendBest :: "string \<Rightarrow> NodeWithPing \<Rightarrow> registry \<Rightarrow> registry" where
  [reg_simps]: "AppendBest net n r = modify net (\<lambda>s. s\<lparr>st_Best := st_Best s @ [n]\<rparr>) r"

fun merge_discovered :: "DiscoveredNode list \<Rightarrow> Node list \<Rightarrow> Node list" where
  "merge_discovered [] all = all"
| "merge_discovered (dn # dns) all =
     (if URL (dn_Node dn) \<in> URL ` set all then merge_discovered dns all
      else merge_discovered dns (all @ [dn_Node dn]))"

definition prune_merge :: "int \<Rightarrow> NetworkState \<Rightarrow> NetworkState" where
  "prune_merge now st =
     (let fresh = filter (\<lambda>dn. now < dn_ExpiresAt dn) (st_Discovered st)
      in st\<lparr>st_Discovered := fresh, st_All := merge_discovered fresh (st_All st)\<rparr>)"

definition PruneAndMerge :: "int \<Rightarrow> registry \<Rightarrow> registry" where
  [reg_simps]: "PruneAndMerge now r = (\<lambda>k. map_option (prune_merge now) (r k))"

definition reg_Exists :: "registry \<Rightarrow> string \<Rightarrow> bool" where
  "reg_Exists r route = (r (ToLower (Trim route ''/'')) \<noteq> None)"

definition reg_TimeoutMs :: "registry \<Rightarrow> string \<Rightarrow> int" where
  "reg_TimeoutMs r network = (case r network of Some s \<Rightarrow> st_TimeoutMs s | None \<Rightarrow> 0)"

definition remove_url :: "string \<Rightarrow> NetworkState \<Rightarrow> NetworkState" where
  "remove_url url st =
     st\<lparr>st_All := filter (\<lambda>n. URL n \<noteq> url) (st_All st),
        st_Best := filter (\<lambda>n. URL n \<noteq> url) (st_Best st),
        st_Discovered := filter (\<lambda>dn. URL (dn_Node dn) \<noteq> url) (st_Discovered st)\<rparr>"

definition RemoveNodeEverywhere :: "string \<Rightarrow> registry \<Rightarrow> registry" where
  [reg_simps]: "RemoveNodeEverywhere url r = (\<lambda>k. map_option (remove_url url) (r k))"

definition GasConfigOf :: "registry \<Rightarrow> string \<Rightarrow> GasConfig option" where
  "GasConfigOf r name = (case r name of Some s \<Rightarrow> st_Gas s | None \<Rightarrow> None)"

text \<open>pkg/registry/sanitize.go.\<close>

definition SanitizeNodes :: "NodeWithPing list \<Rightarrow> NodeWithPing list" where
  "SanitizeNodes nodes = map (\<lambda>n. n\<lparr>Headers := RedactHeaders (Headers n)\<rparr>) nodes"

lemma modify_same [simp]: "modify k f r k = map_option f (r k)"
  by (simp add: modify_def split: option.splits)

lemma modify_other [simp]: "k' \<noteq> k \<Longrightarrow> modify k f r k' = r k'"
  by (simp add: modify_def split: option.splits)

lemma modify_apply: "modify k f r k' = (if k' = k then map_option f (r k) else r k')"
  by simp

lemma dom_modify [simp]: "dom (modify k f r) = dom r"
  by (auto simp: modify_apply split: if_splits)

section \<open>Operations on one network\<close>

text \<open>
  Most operations concern the network they name and no other. That is a contract: the result at
  the network depends on its own state only, the others keep theirs. Two such operations on
  different networks commute, which is why the order in which the goroutines of a health pass
  store their results does not matter (theory HealthLoop).
\<close>

locale network_op =
  fixes op :: "registry \<Rightarrow> registry" and key :: string
  assumes frame: "k \<noteq> key \<Longrightarrow> op r k = r k"
    and own: "r key = r' key \<Longrightarrow> op r key = op r' key"
begin

lemma op_eq: "op r = r(key := op (\<lambda>k. if k = key then r key else None) key)"
proof
  fix k
  have "op r key = op (\<lambda>k. if k = key then r key else None) key"
    by (rule own) simp
  then show "op r k = (r(key := op (\<lambda>k. if k = key then r key else None) key)) k"
    by (cases "k = key") (simp_all add: frame)
qed

lemma commute:
  assumes "network_op op' key'" "key' \<noteq> key"
  shows "op (op' r) = op' (op r)"
proof
  fix k
  note frame' = network_op.frame [OF assms(1)] and own' = network_op.own [OF assms(1)]
  consider "k = key" | "k = key'" | "k \<noteq> key" "k \<noteq> key'" by blast
  then show "op (op' r) k = op' (op r) k"
  proof cases
    case 1
    have "op (op' r) key = op r key"
      using assms(2) by (intro own) (simp add: frame')
    with 1 assms(2) show ?thesis by (simp add: frame')
  next
    case 2
    have "op' (op r) key' = op' r key'"
      using assms(2) by (intro own') (simp add: frame)
    with 2 assms(2) show ?thesis by (simp add: frame)
  next
    case 3
    then show ?thesis by (simp add: frame frame')
  qed
qed

end

interpretation set_best: network_op "SetBest name best" name for name best
  by unfold_locales (simp_all add: SetBest_def)

interpretation add_node: network_op "AddNode net n" net for net n
  by unfold_locales (simp_all add: AddNode_def)

interpretation append_best: network_op "AppendBest net n" net for net n
  by unfold_locales (simp_all add: AppendBest_def)

interpretation add_network: network_op "AddNetwork cfg best" "TrimPrefix (nc_Route cfg) ''/''"
  for cfg best
  by unfold_locales (simp_all add: AddNetwork_def)

section \<open>The fastest node of each priority\<close>

lemma group_alive_eq:
  "group_alive ns m p =
     (let g = filter (\<lambda>n. Alive n \<and> Priority n = p) ns
      in if g = [] then m p else Some ((case m p of None \<Rightarrow> [] | Some h \<Rightarrow> h) @ g))"
proof (induction ns arbitrary: m)
  case (Cons n ns)
  show ?case by (simp add: Cons.IH Let_def split: option.split)
qed simp

lemma group_alive_empty:
  "group_alive ns Map.empty p =
     (let g = filter (\<lambda>n. Alive n \<and> Priority n = p) ns in if g = [] then None else Some g)"
  by (simp add: group_alive_eq Let_def)

lemma dom_group_alive: "dom (group_alive ns Map.empty) = Priority ` {n \<in> set ns. Alive n}"
  by (auto simp: dom_def group_alive_empty Let_def filter_empty_conv)

lemma alive_order: "is_order (remdups (map Priority (filter Alive ns))) (group_alive ns Map.empty)"
  by (auto simp: is_order_def dom_group_alive)

lemma fastest_foldl:
  "\<exists>ys zs. f # ns = ys @ foldl (\<lambda>f cur. if Ping cur < Ping f then cur else f) f ns # zs
     \<and> (\<forall>y \<in> set ys. Ping (foldl (\<lambda>f cur. if Ping cur < Ping f then cur else f) f ns) < Ping y)
     \<and> (\<forall>z \<in> set zs. Ping (foldl (\<lambda>f cur. if Ping cur < Ping f then cur else f) f ns) \<le> Ping z)"
proof (induction ns rule: rev_induct)
  case (snoc n ns)
  let ?f = "foldl (\<lambda>f cur. if Ping cur < Ping f then cur else f) f ns"
  from snoc obtain ys zs where IH: "f # ns = ys @ ?f # zs" "\<forall>y \<in> set ys. Ping ?f < Ping y"
    "\<forall>z \<in> set zs. Ping ?f \<le> Ping z" by blast
  show ?case
  proof (cases "Ping n < Ping ?f")
    case True
    have "set (f # ns) = set (ys @ ?f # zs)"
      using IH(1) by (rule arg_cong)
    then have "\<forall>y \<in> set (f # ns). Ping n < Ping y"
      using IH(2,3) True by fastforce
    with True show ?thesis by (intro exI [of _ "f # ns"] exI [of _ "[]"]) simp
  next
    case False
    with IH show ?thesis by (intro exI [of _ ys] exI [of _ "zs @ [n]"]) auto
  qed
next
  case Nil
  show ?case by (intro exI [of _ "[]"]) simp
qed

text \<open>\<open>fastest_of g\<close> is the first node of \<open>g\<close> with the least ping.\<close>

lemma fastest_of_first:
  assumes "g \<noteq> []"
  obtains ys zs where "g = ys @ fastest_of g # zs" "\<forall>y \<in> set ys. Ping (fastest_of g) < Ping y"
    "\<forall>z \<in> set zs. Ping (fastest_of g) \<le> Ping z"
  using assms fastest_foldl [of "hd g" "tl g"] by (auto simp: fastest_of_def)

lemma fastest_of_in: "g \<noteq> [] \<Longrightarrow> fastest_of g \<in> set g"
  by (metis fastest_of_first in_set_conv_decomp)

lemma fastest_of_least: "g \<noteq> [] \<Longrightarrow> x \<in> set g \<Longrightarrow> Ping (fastest_of g) \<le> Ping x"
  by (erule fastest_of_first) (metis Un_iff less_imp_le order_refl set_ConsD set_append)

definition best_of :: "NodeWithPing list \<Rightarrow> int \<Rightarrow> NodeWithPing" where
  "best_of ns p = fastest_of (filter (\<lambda>n. Alive n \<and> Priority n = p) ns)"

lemma set_PickFastest:
  assumes "is_order ord (group_alive ns Map.empty)"
  shows "set (PickFastest ord ns) = best_of ns ` Priority ` {n \<in> set ns. Alive n}"
proof -
  have "ran (group_alive ns Map.empty) =
      (\<lambda>p. filter (\<lambda>n. Alive n \<and> Priority n = p) ns) ` dom (group_alive ns Map.empty)"
    by (force simp: ran_def dom_def group_alive_empty Let_def split: if_splits)
  then show ?thesis
    by (simp add: PickFastest_def set_visit_ran [OF assms] dom_group_alive image_image best_of_def)
qed

lemma best_of_props:
  assumes "n \<in> set ns" "Alive n"
  shows "best_of ns (Priority n) \<in> set ns" "Alive (best_of ns (Priority n))"
    "Priority (best_of ns (Priority n)) = Priority n" "Ping (best_of ns (Priority n)) \<le> Ping n"
proof -
  let ?g = "filter (\<lambda>m. Alive m \<and> Priority m = Priority n) ns"
  have "?g \<noteq> []" "n \<in> set ?g" using assms by (auto simp: filter_empty_conv)
  then have "best_of ns (Priority n) \<in> set ?g" "Ping (best_of ns (Priority n)) \<le> Ping n"
    unfolding best_of_def by (blast intro: fastest_of_in fastest_of_least)+
  then show "best_of ns (Priority n) \<in> set ns" "Alive (best_of ns (Priority n))"
    "Priority (best_of ns (Priority n)) = Priority n" "Ping (best_of ns (Priority n)) \<le> Ping n"
    by auto
qed

lemma map_Priority_visit:
  assumes "set ord \<subseteq> dom (group_alive ns Map.empty)"
  shows "map Priority (map fastest_of (visit ord (group_alive ns Map.empty))) = ord"
  using assms
proof (induction ord)
  case (Cons p ord)
  let ?g = "filter (\<lambda>n. Alive n \<and> Priority n = p) ns"
  from Cons.prems have g: "?g \<noteq> []"
    by (auto simp: dom_group_alive filter_empty_conv)
  then have "Priority (fastest_of ?g) = p"
    using fastest_of_in [OF g] by simp
  with Cons g show ?case by (simp add: group_alive_empty Let_def)
qed simp

lemma PickFastest_strict:
  assumes "is_order ord (group_alive ns Map.empty)"
  shows "sorted_wrt (<) (map Priority (PickFastest ord ns))"
proof -
  let ?l = "map fastest_of (visit ord (group_alive ns Map.empty))"
  have "map Priority ?l = ord"
    using assms by (intro map_Priority_visit) (simp add: is_order_def)
  then have "distinct (map Priority ?l)"
    using assms by (simp add: is_order_def)
  then have "distinct (map Priority (sort_key Priority ?l))"
    by (simp only: distinct_map distinct_sort set_sort)
  then show ?thesis
    by (simp add: PickFastest_def strict_sorted_iff)
qed

text \<open>The order in which the groups are visited does not show in the result.\<close>

lemma PickFastest_order:
  assumes "is_order ord (group_alive ns Map.empty)"
  shows "PickFastest ord ns = PickFastestPerPriority ns"
proof -
  let ?a = "PickFastest ord ns" and ?b = "PickFastestPerPriority ns"
  have s: "set ?a = set ?b"
    by (simp add: PickFastestPerPriority_def set_PickFastest assms alive_order)
  have a: "sorted_wrt (<) (map Priority ?a)" and b: "sorted_wrt (<) (map Priority ?b)"
    by (simp_all add: PickFastestPerPriority_def PickFastest_strict assms alive_order)
  have "inj_on Priority (set ?a \<union> set ?b)"
    using a s by (simp add: strict_sorted_iff distinct_map)
  then show ?thesis
    by (rule map_sorted_distinct_set_unique) (use a b s in \<open>simp_all add: strict_sorted_iff\<close>)
qed

lemma set_PickFastestPerPriority:
  "set (PickFastestPerPriority ns) = best_of ns ` Priority ` {n \<in> set ns. Alive n}"
  by (simp add: PickFastestPerPriority_def set_PickFastest alive_order)

lemma PickFastestPerPriority_strict: "sorted_wrt (<) (map Priority (PickFastestPerPriority ns))"
  by (simp add: PickFastestPerPriority_def PickFastest_strict alive_order)

lemma PickFastestPerPriority_subset: "n \<in> set (PickFastestPerPriority ns) \<Longrightarrow> n \<in> set ns \<and> Alive n"
  by (auto simp: set_PickFastestPerPriority intro: best_of_props)

lemma PickFastestPerPriority_empty: "PickFastestPerPriority ns = [] \<longleftrightarrow> (\<forall>n \<in> set ns. \<not> Alive n)"
proof -
  have "PickFastestPerPriority ns = [] \<longleftrightarrow> set (PickFastestPerPriority ns) = {}" by simp
  also have "\<dots> \<longleftrightarrow> (\<forall>n \<in> set ns. \<not> Alive n)" by (auto simp only: set_PickFastestPerPriority)
  finally show ?thesis .
qed

section \<open>Merging and removing nodes\<close>

lemma merge_discovered_urls:
  "URL ` set (merge_discovered dns all) = URL ` set all \<union> (URL \<circ> dn_Node) ` set dns"
  by (induction dns all rule: merge_discovered.induct) auto

lemma prune_merge_has:
  "u \<in> URL ` set (st_All st) \<or> (\<exists>d \<in> set (st_Discovered st). URL (dn_Node d) = u \<and> now < dn_ExpiresAt d)
     \<Longrightarrow> u \<in> URL ` set (st_All (prune_merge now st))"
  by (auto simp: prune_merge_def Let_def merge_discovered_urls)

lemma merge_discovered_prefix: "prefix all (merge_discovered dns all)"
proof (induction dns all rule: merge_discovered.induct)
  case (2 dn dns all)
  then show ?case by (auto dest: append_prefixD)
qed simp

lemma merge_discovered_distinct:
  "distinct (map URL all) \<Longrightarrow> distinct (map URL (merge_discovered dns all))"
  by (induction dns all rule: merge_discovered.induct) auto

lemma merge_discovered_new:
  "n \<in> set (merge_discovered dns all) \<Longrightarrow> n \<in> set all \<or> (\<exists>dn \<in> set dns. n = dn_Node dn)"
  by (induction dns all rule: merge_discovered.induct) (auto split: if_splits)

section \<open>Every best node is a node of its network\<close>

definition best_known :: "NetworkState \<Rightarrow> bool" where
  "best_known st \<longleftrightarrow> (\<forall>b \<in> set (st_Best st). URL b \<in> URL ` set (st_All st))"

definition reg_wf :: "registry \<Rightarrow> bool" where
  "reg_wf r \<longleftrightarrow> (\<forall>k st. r k = Some st \<longrightarrow> best_known st)"

text \<open>The operations that keep this share a contract, and so does any sequence of them.\<close>

locale wf_op =
  fixes op :: "registry \<Rightarrow> registry"
  assumes keeps: "reg_wf r \<Longrightarrow> reg_wf (op r)"
begin

lemma after: "wf_op op' \<Longrightarrow> reg_wf r \<Longrightarrow> reg_wf (op' (op r))"
  by (blast intro: keeps wf_op.keeps)

end

lemma reg_wf_New [simp]: "reg_wf reg_New"
  by (simp add: reg_wf_def reg_New_def)

lemma reg_wf_map:
  "reg_wf r \<Longrightarrow> (\<And>st. best_known st \<Longrightarrow> best_known (f st)) \<Longrightarrow> reg_wf (\<lambda>k. map_option f (r k))"
  by (auto simp: reg_wf_def)

lemma reg_wf_modify:
  "reg_wf r \<Longrightarrow> (\<And>st. r k = Some st \<Longrightarrow> best_known st \<Longrightarrow> best_known (f st)) \<Longrightarrow> reg_wf (modify k f r)"
  by (auto simp: reg_wf_def modify_apply)

lemma prune_merge_learnt:
  "URL ` dn_Node ` set (st_Discovered (prune_merge now st)) \<subseteq> URL ` set (st_All (prune_merge now st))"
  by (auto simp: prune_merge_def Let_def merge_discovered_urls)

lemma best_known_prune [simp]: "best_known st \<Longrightarrow> best_known (prune_merge now st)"
  by (auto simp: best_known_def prune_merge_def Let_def merge_discovered_urls)

lemma best_known_remove [simp]: "best_known st \<Longrightarrow> best_known (remove_url url st)"
  by (auto simp: best_known_def remove_url_def image_iff)

interpretation prune_wf: wf_op "PruneAndMerge now" for now
  by unfold_locales (simp add: PruneAndMerge_def reg_wf_map)

interpretation remove_wf: wf_op "RemoveNodeEverywhere url" for url
  by unfold_locales (simp add: RemoveNodeEverywhere_def reg_wf_map)

interpretation add_node_wf: wf_op "AddNode net n" for net n
  by unfold_locales (auto simp: AddNode_def best_known_def intro!: reg_wf_modify)

interpretation init_wf: wf_op "InitFromConfigs cfgs" for cfgs
  by unfold_locales (auto simp: reg_wf_def InitFromConfigs_def best_known_def split: option.splits)

lemma SetBest_wf:
  "reg_wf r \<Longrightarrow> (\<And>st b. r name = Some st \<Longrightarrow> b \<in> set best \<Longrightarrow> URL b \<in> URL ` set (st_All st)) \<Longrightarrow>
     reg_wf (SetBest name best r)"
  by (auto simp: SetBest_def best_known_def intro!: reg_wf_modify)

lemma AppendBest_wf:
  "reg_wf r \<Longrightarrow> (\<And>st. r name = Some st \<Longrightarrow> URL b \<in> URL ` set (st_All st)) \<Longrightarrow>
     reg_wf (AppendBest name b r)"
  by (auto simp: AppendBest_def best_known_def intro!: reg_wf_modify)

lemma AddNetwork_wf:
  "reg_wf r \<Longrightarrow> (\<And>b. b \<in> set best \<Longrightarrow> URL b \<in> URL ` set (nc_Nodes cfg)) \<Longrightarrow> reg_wf (AddNetwork cfg best r)"
  by (auto simp: reg_wf_def AddNetwork_def best_known_def)

section \<open>Properties\<close>

text \<open>
  (C11) \<open>PickFastestPerPriority\<close>: whatever the order in which the map of groups is visited, the result
  holds alive nodes of the list, one per priority, in increasing priority, and each alive node of
  the list has a node of its priority there that is at least as fast.
\<close>
theorem PickFastest_spec:
  assumes "is_order ord (group_alive ns Map.empty)"
  shows "PickFastest ord ns = PickFastestPerPriority ns
    \<and> sorted_wrt (<) (map Priority (PickFastest ord ns))
    \<and> (\<forall>b \<in> set (PickFastest ord ns). b \<in> set ns \<and> Alive b)
    \<and> (\<forall>n \<in> set ns. Alive n \<longrightarrow>
         (\<exists>b \<in> set (PickFastest ord ns). Priority b = Priority n \<and> Ping b \<le> Ping n))"
  unfolding PickFastest_order [OF assms]
  by (auto simp: PickFastestPerPriority_strict set_PickFastestPerPriority intro: best_of_props)

theorem PickFastest_spec_witness:
  "PickFastest [2, 1]
     [mk_ping (plain_node ''a'' 1) True 9, mk_ping (plain_node ''b'' 2) True 3,
      mk_ping (plain_node ''c'' 1) False 0, mk_ping (plain_node ''d'' 1) True 4]
   = [mk_ping (plain_node ''d'' 1) True 4, mk_ping (plain_node ''b'' 2) True 3]"
proof -
  let ?ns = "[mk_ping (plain_node ''a'' 1) True 9, mk_ping (plain_node ''b'' 2) True 3,
      mk_ping (plain_node ''c'' 1) False 0, mk_ping (plain_node ''d'' 1) True 4]"
  have "is_order [2, 1] (group_alive ?ns Map.empty)"
    by (auto simp: is_order_def)
  from PickFastest_spec [OF this] have "PickFastest [2, 1] ?ns = PickFastestPerPriority ?ns" by blast
  also have "\<dots> = [mk_ping (plain_node ''d'' 1) True 4, mk_ping (plain_node ''b'' 2) True 3]"
    by (simp add: PickFastestPerPriority_def PickFastest_def fastest_of_def)
  finally show ?thesis .
qed

text \<open>
  (C14) \<open>PruneAndMerge\<close>: afterwards a network's learnt nodes are those that have not expired, all of
  them are among its nodes, which grow at the end and take on no other URL and no URL twice; the
  best nodes stay. A second call at the same time changes nothing.
\<close>
theorem PruneAndMerge_spec:
  assumes "r k = Some st"
  shows "\<exists>st'. PruneAndMerge now r k = Some st'
    \<and> st_Discovered st' = filter (\<lambda>dn. now < dn_ExpiresAt dn) (st_Discovered st)
    \<and> prefix (st_All st) (st_All st')
    \<and> URL ` set (st_All st') = URL ` set (st_All st) \<union> (URL \<circ> dn_Node) ` set (st_Discovered st')
    \<and> (distinct (map URL (st_All st)) \<longrightarrow> distinct (map URL (st_All st')))
    \<and> st_Best st' = st_Best st
    \<and> PruneAndMerge now (PruneAndMerge now r) k = Some st'"
proof -
  have same: "merge_discovered dns all = all" if "(URL \<circ> dn_Node) ` set dns \<subseteq> URL ` set all" for dns all
    using that by (induction dns all rule: merge_discovered.induct) auto
  have "prune_merge now (prune_merge now st) = prune_merge now st"
    using same [of "filter (\<lambda>dn. now < dn_ExpiresAt dn) (st_Discovered st)"
      "merge_discovered (filter (\<lambda>dn. now < dn_ExpiresAt dn) (st_Discovered st)) (st_All st)"]
    by (auto simp: prune_merge_def Let_def merge_discovered_urls)
  with assms show ?thesis
    by (auto simp: PruneAndMerge_def prune_merge_def Let_def merge_discovered_urls
        merge_discovered_prefix merge_discovered_distinct)
qed

definition sample_network :: NetworkState where
  "sample_network =
     \<lparr>st_Protocol = ''evm'', st_Route = ''/n'', st_All = [plain_node ''a'' 1], st_Best = [],
      st_Discovered = [\<lparr>dn_Node = plain_node ''b'' 1, dn_ExpiresAt = 7\<rparr>,
                       \<lparr>dn_Node = plain_node ''c'' 1, dn_ExpiresAt = 3\<rparr>],
      st_TimeoutMs = 0, st_Gas = None\<rparr>"

theorem PruneAndMerge_spec_witness:
  "\<exists>st. PruneAndMerge 5 [''n'' \<mapsto> sample_network] ''n'' = Some st \<and>
     URL ` set (st_All st) = {''a'', ''b''} \<and> st_Best st = []"
  using PruneAndMerge_spec [of "[''n'' \<mapsto> sample_network]" "''n''" sample_network 5]
  by (auto simp: sample_network_def)

text \<open>The URLs a network has in any of its three lists.\<close>

definition urls_of :: "NetworkState \<Rightarrow> string set" where
  "urls_of st = URL ` set (st_All st) \<union> URL ` set (st_Best st) \<union> (URL \<circ> dn_Node) ` set (st_Discovered st)"

lemma merge_discovered_filter:
  "filter (\<lambda>n. URL n \<noteq> u) (merge_discovered dns all)
     = merge_discovered (filter (\<lambda>d. URL (dn_Node d) \<noteq> u) dns) (filter (\<lambda>n. URL n \<noteq> u) all)"
proof (induction dns all rule: merge_discovered.induct)
  case (2 dn dns all)
  have "URL (dn_Node dn) \<noteq> u \<Longrightarrow>
      URL (dn_Node dn) \<in> URL ` set (filter (\<lambda>n. URL n \<noteq> u) all) \<longleftrightarrow> URL (dn_Node dn) \<in> URL ` set all"
    by auto
  with 2 show ?case by simp
qed simp

text \<open>
  \<open>RemoveNodeEverywhere\<close> takes exactly one URL out of every network, and for good: the pruning
  and merging of learnt nodes, which runs at every tick, never brings the node back, since removal
  commutes with it.
\<close>
theorem RemoveNodeEverywhere_spec:
  "map_option urls_of (RemoveNodeEverywhere u r k) = map_option (\<lambda>st. urls_of st - {u}) (r k)
   \<and> PruneAndMerge now (RemoveNodeEverywhere u r) = RemoveNodeEverywhere u (PruneAndMerge now r)"
proof
  show "map_option urls_of (RemoveNodeEverywhere u r k) = map_option (\<lambda>st. urls_of st - {u}) (r k)"
    by (auto simp: RemoveNodeEverywhere_def remove_url_def urls_of_def option.map_comp intro!: option.map_cong)
  show "PruneAndMerge now (RemoveNodeEverywhere u r) = RemoveNodeEverywhere u (PruneAndMerge now r)"
    by (auto simp: PruneAndMerge_def RemoveNodeEverywhere_def prune_merge_def remove_url_def Let_def
        option.map_comp fun_eq_iff merge_discovered_filter conj_commute intro!: option.map_cong)
qed

text \<open>
  The goroutines of a health pass may store their results in any order: storing the best nodes
  of two networks commutes, and each result depends on its own network only.
\<close>
theorem SetBest_commutes:
  assumes "a \<noteq> b"
  shows "SetBest a x (SetBest b y r) = SetBest b y (SetBest a x r)
    \<and> SetBest a x r = r(a := SetBest a x (\<lambda>k. if k = a then r a else None) a)"
proof
  show "SetBest a x (SetBest b y r) = SetBest b y (SetBest a x r)"
    by (rule set_best.commute [OF set_best.network_op_axioms]) (use assms in simp)
qed (rule set_best.op_eq)

theorem SetBest_commutes_witness:
  "SetBest ''a'' [] (SetBest ''b'' [] [''a'' \<mapsto> sample_network])
     = SetBest ''b'' [] (SetBest ''a'' [] [''a'' \<mapsto> sample_network])"
proof -
  have "''a'' \<noteq> ''b''" by simp
  from SetBest_commutes [OF this] show ?thesis by (rule conjunct1)
qed

end
