(* ===== verification/Health.thy ===== *)
theory Health
  imports Registry Http
begin

text \<open>
  pkg/health: the six probes, the classification of failures, \<open>UpdateNetwork\<close>, and the set of URLs
  to drop. A probe sends at most one request and tells whether the node is alive and how fast. What
  the callers rely on is the locale \<open>prober\<close>, interpreted for every probe and for the dispatch on
  the protocol. \<open>proxy.SOCKS5\<close> does not fail, so the client is always there; logging is left out.
\<close>

section \<open>The checker\<close>

record checker =
  TorSocks5 :: string
  dropURLs :: "string set"

definition health_New :: "string \<Rightarrow> checker" where
  "health_New tor = \<lparr>TorSocks5 = (if tor = [] then ''127.0.0.1:9050'' else tor), dropURLs = {}\<rparr>"

definition via_tor :: "checker \<Rightarrow> bool \<Rightarrow> string option" where
  "via_tor c tor = (if tor then Some (TorSocks5 c) else None)"

definition defaultTimeoutFor :: "string \<Rightarrow> int" where
  "defaultTimeoutFor protocol =
     (let p = ToLower protocol
      in if p = ''sol'' then ms 800
         else if p = ''evm'' then ms 1500
         else if p = ''trx'' then ms 1500
         else if p \<in> {''btc'', ''doge'', ''ltc''} then ms 2000
         else ms 1500)"

definition perNodeTimeout :: "registry \<Rightarrow> string \<Rightarrow> int" where
  "perNodeTimeout r protocol =
     (let tmo = i64 (ms (reg_TimeoutMs r protocol))
      in if tmo \<le> 0 then defaultTimeoutFor protocol else tmo)"

definition isFatalHTTPStatus :: "int \<Rightarrow> bool" where
  "isFatalHTTPStatus code =
     (if code = 0 then False else 400 \<le> code \<and> code < 500 \<and> code \<noteq> 429)"

definition isFatalNetErr :: "net_error \<Rightarrow> bool" where
  "isFatalNetErr e =
     (if as_dns e then True
      else if as_op e = Some (Some True) then True
      else if Contains (err_text e) ''unsupported protocol scheme'' then True
      else if Contains (ToLower (err_text e)) ''no such host'' then True
      else if Contains (ToLower (err_text e)) ''x509:'' \<or> Contains (ToLower (err_text e)) ''tls''
      then True
      else False)"

definition markDrop :: "string \<Rightarrow> checker \<Rightarrow> checker" where
  "markDrop url c = c\<lparr>dropURLs := insert url (dropURLs c)\<rparr>"

text \<open>
  \<open>ord\<close> is the order in which the loop meets the URLs of the set: it lists the elements of any
  finite set, each once.
\<close>

definition drains :: "(string set \<Rightarrow> string list) \<Rightarrow> bool" where
  "drains ord \<longleftrightarrow> (\<forall>S. finite S \<longrightarrow> distinct (ord S) \<and> set (ord S) = S)"

definition DrainDropURLs :: "(string set \<Rightarrow> string list) \<Rightarrow> checker \<Rightarrow> string list \<times> checker" where
  "DrainDropURLs ord c = (ord (dropURLs c), c\<lparr>dropURLs := {}\<rparr>)"

section \<open>The probes\<close>

type_synonym probed = "panic + (bool \<times> int) \<times> checker \<times> world"

text \<open>
  The part all probes share, from \<open>cl.Do\<close> on: an error or a status other than 2xx is a dead node,
  and drops it when it is fatal; \<open>good\<close> is what the probe asks of the body.
\<close>

definition exchange :: "env \<Rightarrow> string \<Rightarrow> request \<Rightarrow> (response \<Rightarrow> bool) \<Rightarrow> checker \<Rightarrow> world \<Rightarrow> probed" where
  "exchange E url rq good c w =
     (case send E rq w of
        Inl p \<Rightarrow> Inl p
      | Inr (Failed e, w') \<Rightarrow>
          Inr ((False, 0), if isFatalNetErr e then markDrop url c else c, w')
      | Inr (Got rs, w') \<Rightarrow>
          if rs_status rs < 200 \<or> 300 \<le> rs_status rs
          then Inr ((False, 0), if isFatalHTTPStatus (rs_status rs) then markDrop url c else c, w')
          else if good rs then Inr ((True, Milliseconds (clock w' - clock w)), c, w')
          else Inr ((False, 0), c, w'))"

definition node_headers :: "Node \<Rightarrow> header \<Rightarrow> header" where
  "node_headers n h = hset_all h (pairs (Headers n))"

definition json_type :: "header \<Rightarrow> header" where
  "json_type h = hset h ''content-type'' ''application/json''"

definition probe_request ::
  "checker \<Rightarrow> Node \<Rightarrow> int \<Rightarrow> string \<Rightarrow> string \<Rightarrow> header \<Rightarrow> string \<Rightarrow> request" where
  "probe_request c n timeout m u h body =
     \<lparr>rq_method = m, rq_url = u, rq_hdr = h, rq_body = body, rq_timeout = timeout,
      rq_tor = via_tor c (Tor n)\<rparr>"

text \<open>The decoder of \<open>checkEVM\<close>: the field \<open>error\<close> takes any value.\<close>

definition evm_good :: "response \<Rightarrow> bool" where
  "evm_good rs =
     (case Decode (rs_body rs) of
        None \<Rightarrow> False
      | Some v \<Rightarrow>
          (case d_object (field ''result'' d_string) v [] of
             None \<Rightarrow> False | Some result \<Rightarrow> result \<noteq> []))"

definition checkEVM :: "env \<Rightarrow> Node \<Rightarrow> int \<Rightarrow> checker \<Rightarrow> world \<Rightarrow> probed" where
  "checkEVM E n timeout c w =
     exchange E (URL n)
       (probe_request c n timeout ''POST'' (URL n) (json_type (node_headers n hempty))
          (Marshal (JMap [(''jsonrpc'', JStr ''2.0''), (''method'', JStr ''eth_blockNumber''),
                          (''id'', JInt 1)])))
       (evm_good) c w"

definition checkBTC :: "env \<Rightarrow> Node \<Rightarrow> int \<Rightarrow> checker \<Rightarrow> world \<Rightarrow> probed" where
  "checkBTC E n timeout c w =
     (let u = TrimSuffix (URL n) ''/''
      in if Contains u ''blockstream.info'' \<or> HasSuffix u ''/api''
         then exchange E (URL n)
                (probe_request c n timeout ''GET'' (u @ ''/blocks/tip/height'') hempty [])
                (\<lambda>_. True) c w
         else if Contains u ''gateway.tatum.io''
         then exchange E (URL n)
                (probe_request c n timeout ''POST'' u (json_type (node_headers n hempty))
                   (Marshal (JObj [(''jsonrpc'', JStr ''2.0''), (''id'', JInt 1),
                                   (''method'', JStr ''getblockcount''), (''params'', JArr [])])))
                (\<lambda>_. True) c w
         else Inr ((False, 0), c, w))"

definition checkTRX :: "env \<Rightarrow> Node \<Rightarrow> int \<Rightarrow> checker \<Rightarrow> world \<Rightarrow> probed" where
  "checkTRX E n timeout c w =
     (let u = TrimSuffix (URL n) ''/''
      in if Contains (URL n) ''tatum.io''
         then exchange E (URL n)
                (probe_request c n timeout ''GET'' (u @ ''/wallet/getnodeinfo'')
                   (node_headers n hempty) [])
                (\<lambda>_. True) c w
         else exchange E (URL n)
                (probe_request c n timeout ''POST'' (u @ ''/wallet/getnowblock'')
                   (node_headers n (json_type hempty)) ''{}'')
                (\<lambda>_. True) c w)"

definition blockcount_body :: string where
  "blockcount_body =
     Marshal (JObj [(''jsonrpc'', JStr ''2.0''), (''method'', JStr ''getblockcount''),
                    (''params'', JArr []), (''id'', JInt 1)])"

definition checkLTC :: "env \<Rightarrow> Node \<Rightarrow> int \<Rightarrow> checker \<Rightarrow> world \<Rightarrow> probed" where
  "checkLTC E n timeout c w =
     (let u = TrimSuffix (URL n) ''/''
      in if Contains (URL n) ''tatum.io''
         then exchange E (URL n)
                (probe_request c n timeout ''POST'' u (node_headers n (json_type hempty)) blockcount_body)
                (\<lambda>_. True) c w
         else exchange E (URL n)
                (probe_request c n timeout ''GET'' (u @ ''/rest/chaininfo.json'') hempty [])
                (\<lambda>_. True) c w)"

definition checkDOGE :: "env \<Rightarrow> Node \<Rightarrow> int \<Rightarrow> checker \<Rightarrow> world \<Rightarrow> probed" where
  "checkDOGE E n timeout c w =
     (let u = TrimSuffix (URL n) ''/''
      in if Contains (URL n) ''tatum.io''
         then exchange E (URL n)
                (probe_request c n timeout ''POST'' u (node_headers n (json_type hempty)) blockcount_body)
                (\<lambda>_. True) c w
         else exchange E (URL n)
                (probe_request c n timeout ''GET'' (u @ ''/rest/chaininfo.json'') hempty [])
                (\<lambda>_. True) c w)"

definition checkSOL :: "env \<Rightarrow> Node \<Rightarrow> int \<Rightarrow> checker \<Rightarrow> world \<Rightarrow> probed" where
  "checkSOL E n timeout c w =
     exchange E (URL n)
       (probe_request c n timeout ''POST'' (URL n) (json_type (node_headers n hempty))
          (Marshal (JMap [(''jsonrpc'', JStr ''2.0''), (''method'', JStr ''getSlot''),
                          (''id'', JInt 1)])))
       (\<lambda>_. True) c w"

section \<open>UpdateNetwork\<close>

text \<open>The switch on the protocol; the comparison is exact.\<close>

definition check_node :: "string \<Rightarrow> env \<Rightarrow> Node \<Rightarrow> int \<Rightarrow> checker \<Rightarrow> world \<Rightarrow> probed" where
  "check_node protocol E n tmo c w =
     (if protocol = ''evm'' then checkEVM E n tmo c w
      else if protocol = ''btc'' then checkBTC E n tmo c w
      else if protocol = ''trx'' then checkTRX E n tmo c w
      else if protocol = ''ltc'' then checkLTC E n tmo c w
      else if protocol = ''doge'' then checkDOGE E n tmo c w
      else if protocol = ''sol'' then checkSOL E n tmo c w
      else Inr ((False, 0), c, w))"

fun check_all ::
  "string \<Rightarrow> env \<Rightarrow> int \<Rightarrow> Node list \<Rightarrow> checker \<Rightarrow> world \<Rightarrow> panic + NodeWithPing list \<times> checker \<times> world"
where
  "check_all protocol E tmo [] c w = Inr ([], c, w)"
| "check_all protocol E tmo (n # ns) c w =
     and_then (check_node protocol E n tmo c w)
       (\<lambda>((alive, ping), c', w').
          and_then (check_all protocol E tmo ns c' w')
            (\<lambda>(res, c'', w''). Inr (mk_ping n alive ping # res, c'', w'')))"

definition UpdateNetwork ::
  "env \<Rightarrow> registry \<Rightarrow> string \<Rightarrow> Node list \<Rightarrow> checker \<Rightarrow> world \<Rightarrow> panic + NodeWithPing list \<times> checker \<times> world"
where
  "UpdateNetwork E r protocol nodes c w =
     and_then (check_all protocol E (perNodeTimeout r protocol) nodes c w)
       (\<lambda>(res, c', w'). Inr (PickFastestPerPriority res, c', w'))"

section \<open>What a probe promises\<close>

text \<open>
  \<open>counts\<close>: at most one request. \<open>drops\<close>: only the probed URL is ever dropped, only when the node
  is dead. \<open>dead\<close> and \<open>pings\<close>: a dead node reports 0, a live one a time that is not negative.
\<close>

locale prober =
  fixes probe :: "env \<Rightarrow> Node \<Rightarrow> int \<Rightarrow> checker \<Rightarrow> world \<Rightarrow> probed"
  assumes counts: "probe E n tmo c w = Inr (r, c', w') \<Longrightarrow> length (sent w') \<le> Suc (length (sent w))"
    and grows: "probe E n tmo c w = Inr (r, c', w') \<Longrightarrow> prefix (sent w) (sent w')"
    and drops: "probe E n tmo c w = Inr (r, c', w') \<Longrightarrow>
      c' = c \<or> \<not> fst r \<and> c' = c\<lparr>dropURLs := insert (URL n) (dropURLs c)\<rparr>"
    and dead: "probe E n tmo c w = Inr (r, c', w') \<Longrightarrow> \<not> fst r \<Longrightarrow> snd r = 0"
    and pings: "probe E n tmo c w = Inr (r, c', w') \<Longrightarrow> 0 \<le> snd r"
    and clocks: "probe E n tmo c w = Inr (r, c', w') \<Longrightarrow> clock w \<le> clock w'"
    and uncounted: "probe E n tmo c w = Inr (r, c', w') \<Longrightarrow> meters w' = meters w"
begin

lemma alive_keeps: "probe E n tmo c w = Inr ((True, p), c', w') \<Longrightarrow> c' = c"
  using drops by fastforce

lemma drop_mono: "probe E n tmo c w = Inr (r, c', w') \<Longrightarrow> dropURLs c \<subseteq> dropURLs c'"
  using drops by fastforce

lemma drop_own: "probe E n tmo c w = Inr (r, c', w') \<Longrightarrow> dropURLs c' \<subseteq> insert (URL n) (dropURLs c)"
  using drops by fastforce

end

text \<open>Every probe ends in \<open>exchange\<close>, with some request and some test, or does nothing.\<close>

lemma exchange_Inr:
  assumes "exchange E url rq good c w = Inr (r, c', w')"
  shows "url_ok E (rq_url rq)" "sent w' = sent w @ [rq]" "clock w \<le> clock w'"
    "c' = c \<or> \<not> fst r \<and> c' = c\<lparr>dropURLs := insert url (dropURLs c)\<rparr>"
    "\<not> fst r \<Longrightarrow> snd r = 0" "0 \<le> snd r" "meters w' = meters w"
proof -
  have ok: "url_ok E (rq_url rq)"
    using assms by (simp add: exchange_def send_def split: if_splits)
  then show "url_ok E (rq_url rq)" .
  obtain rp v where cd: "client_do E rq w = (rp, v)" by fastforce
  have v: "sent v = sent w @ [rq]" "clock w \<le> clock v" "meters v = meters w"
    using client_do_sent [of E rq w] client_do_clock [of w E rq] client_do_meters [of E rq w] by (simp_all add: cd)
  have e: "w' = v \<and> (c' = c \<or> \<not> fst r \<and> c' = markDrop url c)
      \<and> (\<not> fst r \<longrightarrow> snd r = 0) \<and> (fst r \<longrightarrow> snd r = Milliseconds (clock v - clock w))"
    using assms ok cd by (auto simp: exchange_def send_def split: reply.splits if_splits)
  with v show "sent w' = sent w @ [rq]" "clock w \<le> clock w'"
    "c' = c \<or> \<not> fst r \<and> c' = c\<lparr>dropURLs := insert url (dropURLs c)\<rparr>"
    "\<not> fst r \<Longrightarrow> snd r = 0" "0 \<le> snd r" "meters w' = meters w"
    by (cases "fst r"; auto simp: markDrop_def intro: Milliseconds_nonneg)+
qed

definition is_probe :: "env \<Rightarrow> string \<Rightarrow> checker \<Rightarrow> world \<Rightarrow> probed \<Rightarrow> bool" where
  "is_probe E url c w p \<longleftrightarrow>
     (\<exists>rq good. p = exchange E url rq good c w) \<or> p = Inr ((False, 0), c, w)"

lemma is_probe_intros [simp, intro]:
  "is_probe E url c w (exchange E url rq good c w)"
  "is_probe E url c w (Inr ((False, 0), c, w))"
  by (auto simp: is_probe_def)

lemma proberI:
  assumes "\<And>E n tmo c w. is_probe E (URL n) c w (probe E n tmo c w)"
  shows "prober probe"
proof
  fix E n tmo c w r c' w'
  assume a: "probe E n tmo c w = Inr (r, c', w')"
  have "is_probe E (URL n) c w (Inr (r, c', w'))"
    using assms [of E n c w tmo] by (simp only: a)
  then consider rq good where "exchange E (URL n) rq good c w = Inr (r, c', w')"
    | "r = (False, 0)" "c' = c" "w' = w"
    unfolding is_probe_def by (metis Inr_inject Pair_inject)
  then have "length (sent w') \<le> Suc (length (sent w)) \<and> prefix (sent w) (sent w') \<and> clock w \<le> clock w'
      \<and> (c' = c \<or> \<not> fst r \<and> c' = c\<lparr>dropURLs := insert (URL n) (dropURLs c)\<rparr>)
      \<and> (\<not> fst r \<longrightarrow> snd r = 0) \<and> 0 \<le> snd r \<and> meters w' = meters w"
  proof cases
    case 1
    from exchange_Inr [OF 1] show ?thesis by simp
  qed simp
  then show "length (sent w') \<le> Suc (length (sent w))" "prefix (sent w) (sent w')"
    "c' = c \<or> \<not> fst r \<and> c' = c\<lparr>dropURLs := insert (URL n) (dropURLs c)\<rparr>"
    "\<not> fst r \<Longrightarrow> snd r = 0" "0 \<le> snd r" "clock w \<le> clock w'" "meters w' = meters w"
    by blast+
qed

lemma probe_shapes [simp]:
  "is_probe E (URL n) c w (checkEVM E n tmo c w)"
  "is_probe E (URL n) c w (checkBTC E n tmo c w)"
  "is_probe E (URL n) c w (checkTRX E n tmo c w)"
  "is_probe E (URL n) c w (checkLTC E n tmo c w)"
  "is_probe E (URL n) c w (checkDOGE E n tmo c w)"
  "is_probe E (URL n) c w (checkSOL E n tmo c w)"
  by (simp_all add: checkEVM_def checkBTC_def checkTRX_def checkLTC_def checkDOGE_def checkSOL_def
      Let_def)

interpretation evm_probe: prober checkEVM
  by (rule proberI) simp

interpretation btc_probe: prober checkBTC
  by (rule proberI) simp

interpretation trx_probe: prober checkTRX
  by (rule proberI) simp

interpretation ltc_probe: prober checkLTC
  by (rule proberI) simp

interpretation doge_probe: prober checkDOGE
  by (rule proberI) simp

interpretation sol_probe: prober checkSOL
  by (rule proberI) simp

interpretation any_probe: prober "check_node protocol" for protocol
  by (rule proberI) (simp add: check_node_def)

section \<open>UpdateNetwork\<close>

text \<open>The results are the nodes, in order, each with what its probe found.\<close>

definition probed_as :: "Node \<Rightarrow> NodeWithPing \<Rightarrow> bool" where
  "probed_as n b \<longleftrightarrow> (\<exists>a p. b = mk_ping n a p \<and> 0 \<le> p \<and> (\<not> a \<longrightarrow> p = 0))"

lemma check_all_Inr:
  "check_all protocol E tmo ns c w = Inr (res, c', w') \<Longrightarrow>
     list_all2 probed_as ns res
     \<and> dropURLs c \<subseteq> dropURLs c' \<and> dropURLs c' \<subseteq> dropURLs c \<union> URL ` set ns
     \<and> TorSocks5 c' = TorSocks5 c
     \<and> length (sent w') \<le> length (sent w) + length ns \<and> clock w \<le> clock w'"
proof (induction ns arbitrary: c w res)
  case (Cons n ns)
  from Cons.prems obtain a p c1 w1 res' where
    s: "check_node protocol E n tmo c w = Inr ((a, p), c1, w1)"
      "check_all protocol E tmo ns c1 w1 = Inr (res', c', w')" "res = mk_ping n a p # res'"
    by auto
  from any_probe.drops [OF s(1)]
  have "c1 = c \<or> c1 = c\<lparr>dropURLs := insert (URL n) (dropURLs c)\<rparr>" by blast
  moreover have "probed_as n (mk_ping n a p)"
    using any_probe.dead [OF s(1)] any_probe.pings [OF s(1)] by (auto simp: probed_as_def)
  ultimately show ?case
    using Cons.IH [OF s(2)] s(3) any_probe.counts [OF s(1)] any_probe.clocks [OF s(1)] by auto
qed simp

text \<open>A node that is alive in the end was not dropped by its own probe.\<close>

lemma check_all_alive:
  "check_all protocol E tmo ns c w = Inr (res, c', w') \<Longrightarrow> distinct (map URL ns) \<Longrightarrow>
     b \<in> set res \<Longrightarrow> Alive b \<Longrightarrow> URL b \<in> dropURLs c' \<Longrightarrow> URL b \<in> dropURLs c"
proof (induction ns arbitrary: c w res)
  case (Cons n ns)
  from Cons.prems(1) obtain a p c1 w1 res' where
    s: "check_node protocol E n tmo c w = Inr ((a, p), c1, w1)"
      "check_all protocol E tmo ns c1 w1 = Inr (res', c', w')" "res = mk_ping n a p # res'"
    by auto
  note q = check_all_Inr [OF s(2)]
  show ?case
  proof (cases "b \<in> set res'")
    case True
    then obtain m where m: "m \<in> set ns" "URL b = URL m"
      using q by (force simp: list_all2_conv_all_nth in_set_conv_nth probed_as_def)
    then have "URL b \<noteq> URL n" using Cons.prems(2) by force
    with Cons.IH [OF s(2) _ True] Cons.prems(2,4,5) any_probe.drop_own [OF s(1)] show ?thesis
      by auto
  next
    case False
    with Cons.prems(3,4) s(3) have b: "b = mk_ping n True p" "a" by auto
    with any_probe.alive_keeps [of protocol E n tmo c w p c1 w1] s(1) have "c1 = c" by simp
    moreover have "URL n \<notin> URL ` set ns" using Cons.prems(2) by simp
    ultimately show ?thesis using q Cons.prems(5) b by auto
  qed
qed simp

text \<open>
  What a probe found, where it was made after the requests of \<open>v\<close> and before the last of \<open>v'\<close>: the status
  and the time of the result are those that \<open>check_node\<close> returned.
\<close>

definition probed_by :: "env \<Rightarrow> string \<Rightarrow> int \<Rightarrow> world \<Rightarrow> world \<Rightarrow> Node \<Rightarrow> NodeWithPing \<Rightarrow> bool" where
  "probed_by E protocol tmo v v' n b \<longleftrightarrow>
     (\<exists>alive ping c w c' w'. check_node protocol E n tmo c w = Inr ((alive, ping), c', w')
        \<and> b = mk_ping n alive ping \<and> prefix (sent v) (sent w) \<and> prefix (sent w') (sent v'))"

lemma probed_by_as: "probed_by E protocol tmo v v' n b \<Longrightarrow> probed_as n b"
  unfolding probed_by_def probed_as_def by (metis any_probe.dead any_probe.pings fst_conv snd_conv)

lemma probed_by_later: "probed_by E protocol tmo v v' n b \<Longrightarrow> prefix (sent v') (sent u) \<Longrightarrow> probed_by E protocol tmo v u n b"
  unfolding probed_by_def by (blast intro: prefix_order.trans)

lemma UpdateNetwork_Inr:
  assumes "UpdateNetwork E r protocol nodes c w = Inr (best, c', w')"
  obtains res where "best = PickFastestPerPriority res" "list_all2 probed_as nodes res"
    "check_all protocol E (perNodeTimeout r protocol) nodes c w = Inr (res, c', w')"
    "dropURLs c \<subseteq> dropURLs c'" "dropURLs c' \<subseteq> dropURLs c \<union> URL ` set nodes"
    "length (sent w') \<le> length (sent w) + length nodes"
proof -
  from assms obtain res where
    c: "check_all protocol E (perNodeTimeout r protocol) nodes c w = Inr (res, c', w')"
    and "best = PickFastestPerPriority res"
    by (auto simp: UpdateNetwork_def)
  with check_all_Inr [OF c] that show thesis by blast
qed

lemma probed_as_url: "list_all2 probed_as ns res \<Longrightarrow> b \<in> set res \<Longrightarrow> \<exists>n \<in> set ns. probed_as n b"
  by (metis list_all2_conv_all_nth in_set_conv_nth)

lemma probed_as_URL: "probed_as n b \<Longrightarrow> URL b = URL n \<and> Priority b = Priority n"
  by (auto simp: probed_as_def)

text \<open>The best nodes are nodes that were given, and alive: what \<open>SetBest\<close> needs.\<close>

lemma UpdateNetwork_known:
  assumes "UpdateNetwork E r protocol nodes c w = Inr (best, c', w')" "b \<in> set best"
  shows "URL b \<in> URL ` set nodes" "Alive b"
proof -
  from assms(1) obtain res where r: "best = PickFastestPerPriority res" "list_all2 probed_as nodes res"
    by (elim UpdateNetwork_Inr)
  with assms(2) have "b \<in> set res" "Alive b" by (auto dest: PickFastestPerPriority_subset)
  with r(2) show "URL b \<in> URL ` set nodes" "Alive b"
    by (auto dest!: probed_as_url dest: probed_as_URL)
qed

section \<open>Properties\<close>


text \<open>
  (C13) A probe marks a node for removal only for a failure that will not go away by itself: an error
  that \<open>isFatalNetErr\<close> knows, or a status from 400 to 499 other than 429. A timeout, a 5xx or a rate
  limit never does, and an alive node is never marked.
\<close>
theorem drop_only_fatal:
  assumes "check_node protocol E n tmo c w = Inr ((alive, ping), c', w')"
    and "URL n \<in> dropURLs c'" "URL n \<notin> dropURLs c"
  shows "\<not> alive \<and> (\<exists>rq rp. client_do E rq w = (rp, w') \<and>
    (case rp of Failed e \<Rightarrow> isFatalNetErr e
     | Got rs \<Rightarrow> 400 \<le> rs_status rs \<and> rs_status rs < 500 \<and> rs_status rs \<noteq> 429))"
proof -
  have "is_probe E (URL n) c w (check_node protocol E n tmo c w)"
    by (simp add: check_node_def)
  with assms obtain rq good where x: "exchange E (URL n) rq good c w = Inr ((alive, ping), c', w')"
    by (auto simp: is_probe_def)
  then have ok: "url_ok E (rq_url rq)" by (rule exchange_Inr)
  obtain rp v where cd: "client_do E rq w = (rp, v)" by fastforce
  have "v = w' \<and> \<not> alive \<and> (case rp of Failed e \<Rightarrow> isFatalNetErr e
     | Got rs \<Rightarrow> 400 \<le> rs_status rs \<and> rs_status rs < 500 \<and> rs_status rs \<noteq> 429)"
    using x ok cd assms(2,3)
    by (cases rp) (auto simp: exchange_def send_def isFatalHTTPStatus_def split: if_splits)
  with cd show ?thesis by blast
qed

subsection \<open>Instances\<close>

text \<open>A network of which node \<open>a\<close> answers and all others say 404.\<close>

definition half_alive :: env where
  "half_alive = answering (\<lambda>rq. reply_with (if rq_url rq = ''a'' then 200 else 404) [])"

lemma half_alive_run:
  obtains w' where "UpdateNetwork half_alive r ''sol''
      [plain_node ''a'' 1, plain_node ''b'' 2] (health_New []) w
     = Inr ([mk_ping (plain_node ''a'' 1) True 0], (health_New [])\<lparr>dropURLs := {''b''}\<rparr>, w')"
  by (simp add: UpdateNetwork_def check_node_def checkSOL_def exchange_def half_alive_def reply_with_def
      probe_request_def Milliseconds_def isFatalHTTPStatus_def markDrop_def health_New_def send_def client_do_def
      PickFastestPerPriority_def PickFastest_def fastest_of_def)


theorem drop_only_fatal_witness:
  "\<exists>rq rp w'. client_do half_alive rq new_world = (rp, w')
     \<and> (case rp of Failed e \<Rightarrow> isFatalNetErr e | Got rs \<Rightarrow> rs_status rs \<noteq> 429)"
proof -
  obtain w' where "check_node ''sol'' half_alive (plain_node ''b'' 2) 1 (health_New []) new_world
      = Inr ((False, 0), (health_New [])\<lparr>dropURLs := {''b''}\<rparr>, w')"
    by (simp add: check_node_def checkSOL_def exchange_def half_alive_def reply_with_def
        probe_request_def isFatalHTTPStatus_def markDrop_def health_New_def)
  from drop_only_fatal [OF this] show ?thesis
    by (fastforce simp: health_New_def split: reply.splits)
qed

end
