(* ===== verification/HealthLoop.thy ===== *)
theory HealthLoop
  imports Health
begin

text \<open>
  cmd/app/health.go and limiter.go: a health pass starts one goroutine per network; each waits for
  a limiter, probes the nodes of its network one after the other, and stores the best of them.
  \<open>pass_step\<close> interleaves the goroutines at the granularity of one probe. \<open>health_pass\<close> is the run in
  which they follow one another. \<open>tick\<close> is what the loop does every 30 seconds.
\<close>

section \<open>Limiters\<close>

text \<open>
  A limiter is a channel with room for \<open>sem_cap\<close> tokens. \<open>acquire\<close> blocks (None) when it is full,
  \<open>release\<close> when it is empty.
\<close>

record limiter =
  sem_cap :: nat
  sem_len :: nat

definition newLimiter :: "nat \<Rightarrow> limiter" where
  "newLimiter n = \<lparr>sem_cap = n, sem_len = 0\<rparr>"

definition acquire :: "limiter \<Rightarrow> limiter option" where
  "acquire l = (if sem_len l < sem_cap l then Some (l\<lparr>sem_len := sem_len l + 1\<rparr>) else None)"

definition release :: "limiter \<Rightarrow> limiter option" where
  "release l = (if 0 < sem_len l then Some (l\<lparr>sem_len := sem_len l - 1\<rparr>) else None)"

text \<open>The default limiter, or the one of a domain.\<close>

datatype gate = Domain string | Default

definition initial_domains :: "string list" where
  "initial_domains = [''tatum.io'', ''alchemyapi.io'']"

definition loop_domains :: "string list" where
  "loop_domains = [''tatum.io'', ''alchemyapi.io'', ''alchemy.com'']"

definition new_limits :: "gate \<Rightarrow> limiter" where
  "new_limits g = (case g of Domain d \<Rightarrow> newLimiter 1 | Default \<Rightarrow> newLimiter 5)"

text \<open>\<open>ord\<close> is the order in which the loop meets the domains.\<close>

definition pickLimiter :: "string list \<Rightarrow> NetworkState \<Rightarrow> gate" where
  "pickLimiter ord st =
     (case st_All st of
        [] \<Rightarrow> Default
      | n # _ \<Rightarrow> (case find (Contains (URL n)) ord of Some d \<Rightarrow> Domain d | None \<Rightarrow> Default))"

section \<open>The goroutines of a pass\<close>

text \<open>
  Where a goroutine is: started; blocked on its limiter; probing, with the arguments of
  \<open>UpdateNetwork\<close>, the nodes left and the results so far; past \<open>SetBest\<close>, with the number of best
  nodes it is going to report; done.
\<close>

datatype task =
    Spawned
  | Waiting gate
  | Probing gate string int "Node list" "NodeWithPing list"
  | Stored gate nat
  | Finished

text \<open>
  A goroutine works on the state it was started with. That is the one in the registry, unless the
  network has been replaced there since; \<open>pa_old\<close> keeps those states. \<open>pa_crash\<close>: a panic in a
  goroutine ends the process.
\<close>

record pass =
  pa_reg :: registry
  pa_chk :: checker
  pa_world :: world
  pa_sems :: "gate \<Rightarrow> limiter"
  pa_task :: "string \<Rightarrow> task"
  pa_old :: "string \<rightharpoonup> NetworkState"
  pa_crash :: bool

definition pa_st :: "pass \<Rightarrow> string \<Rightarrow> NetworkState option" where
  "pa_st s k = (case pa_old s k of Some st \<Rightarrow> Some st | None \<Rightarrow> pa_reg s k)"

definition set_task :: "string \<Rightarrow> task \<Rightarrow> pass \<Rightarrow> pass" where
  "set_task k t s = s\<lparr>pa_task := (pa_task s)(k := t)\<rparr>"

definition start_pass :: "registry \<Rightarrow> checker \<Rightarrow> world \<Rightarrow> pass" where
  "start_pass r c w =
     \<lparr>pa_reg = r, pa_chk = c, pa_world = w, pa_sems = new_limits,
      pa_task = (\<lambda>k. if k \<in> dom r then Spawned else Finished), pa_old = Map.empty,
      pa_crash = False\<rparr>"

text \<open>The two gauges a goroutine sets before it leaves, from the state it was started with.\<close>

definition set_gauges :: "string \<Rightarrow> NetworkState \<Rightarrow> nat \<Rightarrow> world \<Rightarrow> world" where
  "set_gauges k st nbest w =
     w\<lparr>meters := Set_metric HealthyNodes k (int nbest)
        (Set_metric TotalNodes k (int (length (st_All st) + length (st_Discovered st))) (meters w))\<rparr>"

lemma set_gauges_Best [simp]: "set_gauges k (st\<lparr>st_Best := b\<rparr>) nb w = set_gauges k st nb w"
  by (simp add: set_gauges_def)

inductive pass_step :: "env \<Rightarrow> string list \<Rightarrow> pass \<Rightarrow> pass \<Rightarrow> bool" for E ds where
  pick: "\<not> pa_crash s \<Longrightarrow> pa_task s k = Spawned \<Longrightarrow> pa_st s k = Some st \<Longrightarrow>
      distinct ord \<Longrightarrow> set ord = set ds \<Longrightarrow>
      pass_step E ds s (set_task k (Waiting (pickLimiter ord st)) s)"
| enter: "\<not> pa_crash s \<Longrightarrow> pa_task s k = Waiting g \<Longrightarrow> acquire (pa_sems s g) = Some l \<Longrightarrow>
      pa_st s k = Some st \<Longrightarrow>
      pass_step E ds s
        (set_task k (Probing g (st_Protocol st) (perNodeTimeout (pa_reg s) (st_Protocol st))
                       (st_All st) [])
           (s\<lparr>pa_sems := (pa_sems s)(g := l)\<rparr>))"
| probe: "\<not> pa_crash s \<Longrightarrow> pa_task s k = Probing g pr tmo (n # todo) res \<Longrightarrow>
      check_node pr E n tmo (pa_chk s) (pa_world s) = Inr ((a, p), c, w) \<Longrightarrow>
      pass_step E ds s
        (set_task k (Probing g pr tmo todo (res @ [mk_ping n a p])) (s\<lparr>pa_chk := c, pa_world := w\<rparr>))"
| crash: "\<not> pa_crash s \<Longrightarrow> pa_task s k = Probing g pr tmo (n # todo) res \<Longrightarrow>
      check_node pr E n tmo (pa_chk s) (pa_world s) = Inl e \<Longrightarrow>
      pass_step E ds s (s\<lparr>pa_crash := True\<rparr>)"
| store: "\<not> pa_crash s \<Longrightarrow> pa_task s k = Probing g pr tmo [] res \<Longrightarrow>
      pass_step E ds s
        (set_task k (Stored g (length (PickFastestPerPriority res)))
           (s\<lparr>pa_reg := SetBest k (PickFastestPerPriority res) (pa_reg s)\<rparr>))"
| leave: "\<not> pa_crash s \<Longrightarrow> pa_task s k = Stored g nb \<Longrightarrow> pa_st s k = Some st \<Longrightarrow>
      release (pa_sems s g) = Some l \<Longrightarrow>
      pass_step E ds s
        (set_task k Finished
           (s\<lparr>pa_sems := (pa_sems s)(g := l), pa_world := set_gauges k st nb (pa_world s)\<rparr>))"

inductive_cases pass_stepE: "pass_step E ds s s'"

inductive reached :: "env \<Rightarrow> string list \<Rightarrow> pass \<Rightarrow> pass \<Rightarrow> bool" for E ds s where
  here: "reached E ds s s"
| onward: "reached E ds s t \<Longrightarrow> pass_step E ds t u \<Longrightarrow> reached E ds s u"

lemma set_task_simps [simp]:
  "pa_reg (set_task k t s) = pa_reg s" "pa_chk (set_task k t s) = pa_chk s"
  "pa_world (set_task k t s) = pa_world s" "pa_sems (set_task k t s) = pa_sems s"
  "pa_old (set_task k t s) = pa_old s" "pa_crash (set_task k t s) = pa_crash s"
  "pa_task (set_task k t s) k' = (if k' = k then t else pa_task s k')"
  by (simp_all add: set_task_def)

section \<open>The pass, one network after the other\<close>

fun health_pass ::
  "env \<Rightarrow> string list \<Rightarrow> registry \<Rightarrow> checker \<Rightarrow> world \<Rightarrow> panic + registry \<times> checker \<times> world" where
  "health_pass E [] r c w = Inr (r, c, w)"
| "health_pass E (k # ks) r c w =
     (case r k of
        None \<Rightarrow> health_pass E ks r c w
      | Some st \<Rightarrow>
          and_then (UpdateNetwork E r (st_Protocol st) (st_All st) c w)
            (\<lambda>(best, c', w'). health_pass E ks (SetBest k best r) c' (set_gauges k st (length best) w')))"

definition runInitialHealth ::
  "env \<Rightarrow> string list \<Rightarrow> registry \<Rightarrow> checker \<Rightarrow> world \<Rightarrow> panic + registry \<times> checker \<times> world" where
  "runInitialHealth E names r c w = health_pass E names r c w"

definition drop_all :: "string list \<Rightarrow> registry \<Rightarrow> registry" where
  "drop_all urls r = foldl (\<lambda>r url. RemoveNodeEverywhere url r) r urls"

text \<open>
  One round of the loop of \<open>startHealthLoop\<close>. \<open>names\<close> and \<open>ord\<close> are the orders in which the networks
  run and the dropped URLs are met.
\<close>

definition tick ::
  "env \<Rightarrow> string list \<Rightarrow> (string set \<Rightarrow> string list) \<Rightarrow> registry \<Rightarrow> checker \<Rightarrow> world
     \<Rightarrow> panic + registry \<times> checker \<times> world"
where
  "tick E names ord r c w =
     and_then (health_pass E names (PruneAndMerge (clock w) r) c w)
       (\<lambda>(r', c', w').
          let (urls, c'') = DrainDropURLs ord c' in Inr (drop_all urls r', c'', w'))"

section \<open>Limiters are respected\<close>

fun holds :: "task \<Rightarrow> gate \<Rightarrow> bool" where
  "holds (Probing g' _ _ _ _) g = (g' = g)"
| "holds (Stored g' nb) g = (g' = g)"
| "holds _ g = False"

definition holders :: "pass \<Rightarrow> gate \<Rightarrow> string set" where
  "holders s g = {k. holds (pa_task s k) g}"

definition gate_cap :: "gate \<Rightarrow> nat" where
  "gate_cap g = sem_cap (new_limits g)"

lemma gate_cap_simps [simp]: "gate_cap (Domain d) = 1" "gate_cap Default = 5"
  by (simp_all add: gate_cap_def new_limits_def newLimiter_def)

definition active :: "pass \<Rightarrow> string set" where
  "active s = {k. pa_task s k \<noteq> Finished}"

definition gate_ok :: "pass \<Rightarrow> gate \<Rightarrow> bool" where
  "gate_ok s g \<longleftrightarrow> sem_len (pa_sems s g) = card (holders s g) \<and> sem_cap (pa_sems s g) = gate_cap g
     \<and> card (holders s g) \<le> gate_cap g"

definition sems_ok :: "pass \<Rightarrow> bool" where
  "sems_ok s \<longleftrightarrow> finite (active s) \<and> (\<forall>g. gate_ok s g)"

lemma active_simps [simp]:
  "active (set_task k t s) = (if t = Finished then active s - {k} else insert k (active s))"
  "active (s\<lparr>pa_sems := x\<rparr>) = active s" "active (s\<lparr>pa_reg := r\<rparr>) = active s"
  "active (s\<lparr>pa_chk := c\<rparr>) = active s"
  "active (s\<lparr>pa_crash := b\<rparr>) = active s" "active (s\<lparr>pa_world := w\<rparr>) = active s"
  by (auto simp: active_def)

lemma holders_finite: "finite (active s) \<Longrightarrow> finite (holders s g)"
  by (rule finite_subset [of _ "active s"]) (auto simp: holders_def active_def)

lemma holders_set_task:
  "holders (set_task k t s) g = (if holds t g then insert k (holders s g) else holders s g - {k})"
  by (auto simp: holders_def)

lemma holders_upd [simp]:
  "holders (s\<lparr>pa_sems := x\<rparr>) g = holders s g" "holders (s\<lparr>pa_reg := r\<rparr>) g = holders s g"
  "holders (s\<lparr>pa_chk := c\<rparr>) g = holders s g"
  "holders (s\<lparr>pa_crash := b\<rparr>) g = holders s g" "holders (s\<lparr>pa_world := w\<rparr>) g = holders s g"
  by (simp_all add: holders_def)

lemma holders_mem: "k \<in> holders s g \<longleftrightarrow> holds (pa_task s k) g"
  by (simp add: holders_def)

lemma acquire_Some: "acquire l = Some l' \<longleftrightarrow> sem_len l < sem_cap l \<and> l' = l\<lparr>sem_len := sem_len l + 1\<rparr>"
  by (auto simp: acquire_def)

lemma release_Some: "release l = Some l' \<longleftrightarrow> 0 < sem_len l \<and> l' = l\<lparr>sem_len := sem_len l - 1\<rparr>"
  by (auto simp: release_def)

text \<open>A task that changes without changing what it holds leaves the holders as they are.\<close>

lemma holders_same:
  assumes "\<And>g. holds t g = holds (pa_task s k) g"
  shows "holders (set_task k t s) g = holders s g"
  using assms by (auto simp: holders_set_task holders_mem)

lemma gate_ok_upd [simp]:
  "gate_ok (s\<lparr>pa_reg := r\<rparr>) g = gate_ok s g"
  "gate_ok (s\<lparr>pa_chk := c\<rparr>) g = gate_ok s g"
  "gate_ok (s\<lparr>pa_crash := b\<rparr>) g = gate_ok s g" "gate_ok (s\<lparr>pa_world := w\<rparr>) g = gate_ok s g"
  by (simp_all add: gate_ok_def)

lemma sems_ok_same:
  assumes "sems_ok s" "\<And>g. holds t g = holds (pa_task s k) g"
  shows "sems_ok (set_task k t s)"
  using assms holders_same [OF assms(2)] by (simp add: sems_ok_def gate_ok_def)

lemma sems_ok_step: "pass_step E ds s s' \<Longrightarrow> sems_ok s \<Longrightarrow> sems_ok s'"
proof (induction rule: pass_step.induct)
  case (enter s k g l st)
  have k: "k \<notin> holders s g'" "finite (holders s g')" for g'
    using enter by (auto simp: holders_mem sems_ok_def intro: holders_finite)
  then have "card (insert k (holders s g)) = Suc (card (holders s g))" by simp
  with enter k show ?case
    by (simp add: sems_ok_def gate_ok_def acquire_Some holders_set_task)
next
  case (leave s k g nb st l)
  have k: "k \<in> holders s g" "finite (holders s g')" and o: "g' \<noteq> g \<Longrightarrow> holders s g' - {k} = holders s g'" for g'
    using leave by (auto simp: holders_mem sems_ok_def intro: holders_finite)
  then have "card (holders s g - {k}) = card (holders s g) - 1" by simp
  with leave o show ?case
    by (auto simp: sems_ok_def gate_ok_def release_Some holders_set_task intro: le_trans [OF diff_le_self])
next
  case (pick s k st ord)
  then show ?case by (intro sems_ok_same) auto
next
  case (probe s k g pr tmo n todo res a p c w)
  then show ?case by (intro sems_ok_same) (auto simp: sems_ok_def)
next
  case (store s k g pr tmo res)
  then show ?case by (intro sems_ok_same) (auto simp: sems_ok_def)
qed (simp add: sems_ok_def)

lemma sems_ok_start:
  assumes "finite (dom r)"
  shows "sems_ok (start_pass r c w)"
proof -
  have "active (start_pass r c w) = dom r"
    by (auto simp: active_def start_pass_def)
  moreover have "holders (start_pass r c w) g = {}" for g
    by (auto simp: holders_def start_pass_def)
  moreover have "sem_len (new_limits g) = 0" for g
    by (simp add: new_limits_def newLimiter_def split: gate.split)
  ultimately show ?thesis
    using assms by (simp add: sems_ok_def gate_ok_def) (simp add: start_pass_def gate_cap_def)
qed

lemma reached_induct_inv:
  assumes "reached E ds s s'" "P s" "\<And>t u. pass_step E ds t u \<Longrightarrow> P t \<Longrightarrow> P u"
  shows "P s'"
  using assms by (induction rule: reached.induct) blast+

lemma sems_ok_reached: "reached E ds (start_pass r c w) s \<Longrightarrow> finite (dom r) \<Longrightarrow> sems_ok s"
  by (erule reached_induct_inv) (auto intro: sems_ok_start sems_ok_step)

text \<open>At most one goroutine at a time works for a limited domain, five for all others.\<close>

lemma reached_holders:
  assumes "reached E ds (start_pass r c w) s" "finite (dom r)"
  shows "finite (holders s g)" "card (holders s g) \<le> gate_cap g"
  using sems_ok_reached [OF assms] by (auto simp: sems_ok_def gate_ok_def intro: holders_finite)

section \<open>A pass does not block, and ends\<close>

definition states_kept :: "pass \<Rightarrow> bool" where
  "states_kept s \<longleftrightarrow> (\<forall>k \<in> active s. pa_st s k \<noteq> None)"

lemma pa_st_upd [simp]:
  "pa_st (set_task k t s) k' = pa_st s k'" "pa_st (s\<lparr>pa_sems := x\<rparr>) k' = pa_st s k'"
  "pa_st (s\<lparr>pa_chk := c\<rparr>) k' = pa_st s k'"
  "pa_st (s\<lparr>pa_crash := b\<rparr>) k' = pa_st s k'" "pa_st (s\<lparr>pa_world := w\<rparr>) k' = pa_st s k'"
  "pa_st (s\<lparr>pa_reg := r\<rparr>) k' = (case pa_old s k' of Some st \<Rightarrow> Some st | None \<Rightarrow> r k')"
  by (simp_all add: pa_st_def split: option.split)

lemma pa_st_SetBest: "pa_st (s\<lparr>pa_reg := SetBest j best (pa_reg s)\<rparr>) k = None \<longleftrightarrow> pa_st s k = None"
  by (simp add: pa_st_def SetBest_def modify_apply split: option.split)

lemma states_kept_step: "pass_step E ds s s' \<Longrightarrow> states_kept s \<Longrightarrow> states_kept s'"
proof (induction rule: pass_step.induct)
  case (store s k g pr tmo res)
  then have "k \<in> active s" by (simp add: active_def)
  with store show ?case
    by (auto simp: states_kept_def pa_st_SetBest simp del: pa_st_upd(6))
qed (auto simp: states_kept_def active_def split: if_splits)

lemma states_kept_start: "states_kept (start_pass r c w)"
  by (auto simp: states_kept_def active_def start_pass_def pa_st_def dom_def split: if_splits)

lemma states_kept_reached: "reached E ds (start_pass r c w) s \<Longrightarrow> states_kept s"
  by (erule reached_induct_inv) (fact states_kept_start states_kept_step)+

lemma SetBest_All: "map_option st_All (SetBest k b r k') = map_option st_All (r k')"
  by (simp add: SetBest_def modify_apply option.map_comp comp_def)

lemma no_deadlock:
  assumes "sems_ok s" "states_kept s" "\<not> pa_crash s" "pa_task s k \<noteq> Finished" "distinct ds"
  shows "\<exists>s'. pass_step E ds s s'"
proof -
  have live: "\<exists>s'. pass_step E ds s s'" if "pa_task s j \<noteq> Finished" "\<And>g. pa_task s j \<noteq> Waiting g" for j
  proof (cases "pa_task s j")
    case Spawned
    then obtain st where "pa_st s j = Some st"
      using assms(2) by (force simp: states_kept_def active_def)
    with Spawned assms(3,5) show ?thesis by (blast intro: pick)
  next
    case (Probing g pr tmo todo res)
    show ?thesis
    proof (cases todo)
      case Nil
      with Probing assms(3) show ?thesis by (blast intro: store)
    next
      case (Cons n ns)
      show ?thesis
      proof (cases "check_node pr E n tmo (pa_chk s) (pa_world s)")
        case (Inl e)
        with Probing Cons assms(3) show ?thesis by (blast intro: crash)
      next
        case (Inr x)
        obtain a p c w where "x = ((a, p), c, w)" by (metis surj_pair)
        with Inr Probing Cons assms(3) show ?thesis by (blast intro: probe)
      qed
    qed
  next
    case (Stored g nb)
    then obtain st where st: "pa_st s j = Some st"
      using assms(2) by (force simp: states_kept_def active_def)
    from Stored have "j \<in> holders s g" "finite (holders s g)"
      using assms(1) by (auto simp: holders_mem sems_ok_def intro: holders_finite)
    then have "0 < card (holders s g)" by (auto simp: card_gt_0_iff)
    then have "release (pa_sems s g) = Some (pa_sems s g\<lparr>sem_len := sem_len (pa_sems s g) - 1\<rparr>)"
      using assms(1) by (simp add: release_Some sems_ok_def gate_ok_def)
    with Stored st assms(3) show ?thesis by (blast intro: leave)
  qed (use that in auto)
  show ?thesis
  proof (cases "\<exists>j. pa_task s j \<noteq> Finished \<and> (\<forall>g. pa_task s j \<noteq> Waiting g)")
    case True
    with live show ?thesis by blast
  next
    case False
    then have w: "pa_task s j = Finished \<or> (\<exists>g. pa_task s j = Waiting g)" for j by blast
    have none: "holders s g = {}" for g
    proof -
      have "\<not> holds (pa_task s j) g" for j using w [of j] by auto
      then show ?thesis by (simp add: holders_def)
    qed
    from False assms(4) obtain g where k: "pa_task s k = Waiting g" by blast
    obtain st where st: "pa_st s k = Some st"
      using assms(2,4) by (force simp: states_kept_def active_def)
    have "0 < gate_cap g" by (cases g) simp_all
    then have "acquire (pa_sems s g) = Some (pa_sems s g\<lparr>sem_len := sem_len (pa_sems s g) + 1\<rparr>)"
      using assms(1) none by (simp add: acquire_Some sems_ok_def gate_ok_def)
    with k st assms(3) show ?thesis by (blast intro: enter)
  qed
qed

text \<open>Every step uses up some of the work: the nodes still to probe and a few steps around them.\<close>

definition nodes_of :: "pass \<Rightarrow> string \<Rightarrow> nat" where
  "nodes_of s k = (case pa_st s k of None \<Rightarrow> 0 | Some st \<Rightarrow> length (st_All st))"

fun task_work :: "nat \<Rightarrow> task \<Rightarrow> nat" where
  "task_work n Spawned = n + 4"
| "task_work n (Waiting g) = n + 3"
| "task_work n (Probing g pr tmo todo res) = length todo + 2"
| "task_work n (Stored g nb) = 1"
| "task_work n Finished = 0"

definition work :: "string set \<Rightarrow> pass \<Rightarrow> nat" where
  "work N s = (\<Sum>k \<in> N. task_work (nodes_of s k) (pa_task s k)) + (if pa_crash s then 0 else 1)"

lemma nodes_of_upd [simp]:
  "nodes_of (set_task k t s) k' = nodes_of s k'" "nodes_of (s\<lparr>pa_sems := x\<rparr>) k' = nodes_of s k'"
  "nodes_of (s\<lparr>pa_chk := c\<rparr>) k' = nodes_of s k'"
  "nodes_of (s\<lparr>pa_crash := b\<rparr>) k' = nodes_of s k'" "nodes_of (s\<lparr>pa_world := w\<rparr>) k' = nodes_of s k'"
  "nodes_of (s\<lparr>pa_reg := SetBest j best (pa_reg s)\<rparr>) k' = nodes_of s k'"
proof -
  show "nodes_of (s\<lparr>pa_reg := SetBest j best (pa_reg s)\<rparr>) k' = nodes_of s k'"
    using SetBest_All [of j best "pa_reg s" k']
    by (auto simp: nodes_of_def pa_st_def split: option.splits)
qed (simp_all add: nodes_of_def)

lemma work_set_task:
  assumes "finite N" "k \<in> N" "task_work (nodes_of s k) t < task_work (nodes_of s' k) (pa_task s' k)"
    "\<And>j. j \<noteq> k \<Longrightarrow> pa_task s j = pa_task s' j" "\<And>j. nodes_of s j = nodes_of s' j"
    "pa_crash s = pa_crash s'"
  shows "work N (set_task k t s) < work N s'"
proof -
  have "(\<Sum>j \<in> N. task_work (nodes_of s j) (if j = k then t else pa_task s j))
      < (\<Sum>j \<in> N. task_work (nodes_of s' j) (pa_task s' j))"
  proof (rule sum_strict_mono_ex1)
    show "\<forall>j \<in> N. task_work (nodes_of s j) (if j = k then t else pa_task s j)
        \<le> task_work (nodes_of s' j) (pa_task s' j)"
      using assms(3-5) by auto
    show "\<exists>j \<in> N. task_work (nodes_of s j) (if j = k then t else pa_task s j)
        < task_work (nodes_of s' j) (pa_task s' j)"
      using assms(2,3) by (intro bexI [of _ k]) simp_all
  qed (fact assms(1))
  then show ?thesis using assms(6) by (simp add: work_def)
qed

lemma work_decreases:
  "pass_step E ds s s' \<Longrightarrow> finite N \<Longrightarrow> active s \<subseteq> N \<Longrightarrow> work N s' < work N s \<and> active s' \<subseteq> N"
proof (induction rule: pass_step.induct)
  case (pick s k st ord)
  then have "k \<in> N" by (auto simp: active_def)
  with pick show ?case by (auto intro!: work_set_task)
next
  case (enter s k g l st)
  then have "k \<in> N" by (auto simp: active_def)
  with enter show ?case by (auto intro!: work_set_task simp: nodes_of_def)
next
  case (probe s k g pr tmo n todo res a p c w)
  then have "k \<in> N" by (auto simp: active_def)
  with probe show ?case by (auto intro!: work_set_task)
next
  case (crash s k g pr tmo n todo res e)
  then show ?case by (simp add: work_def)
next
  case (store s k g pr tmo res)
  then have "k \<in> N" by (auto simp: active_def)
  with store show ?case by (auto intro!: work_set_task)
next
  case (leave s k g nb st l)
  then have "k \<in> N" by (auto simp: active_def)
  with leave show ?case by (auto intro!: work_set_task)
qed

text \<open>A run of \<open>n\<close> steps.\<close>

fun runs :: "env \<Rightarrow> string list \<Rightarrow> nat \<Rightarrow> pass \<Rightarrow> pass \<Rightarrow> bool" where
  "runs E ds 0 s s' = (s' = s)"
| "runs E ds (Suc n) s s' = (\<exists>t. pass_step E ds s t \<and> runs E ds n t s')"

lemma runs_bound: "runs E ds n s s' \<Longrightarrow> finite N \<Longrightarrow> active s \<subseteq> N \<Longrightarrow> n + work N s' \<le> work N s"
proof (induction n arbitrary: s)
  case (Suc n)
  then obtain t where t: "pass_step E ds s t" "runs E ds n t s'" by auto
  from work_decreases [OF t(1) Suc.prems(2,3)] Suc.IH [OF t(2) Suc.prems(2)] show ?case by simp
qed simp

lemma active_start: "active (start_pass r c w) = dom r"
  by (auto simp: active_def start_pass_def)

lemma work_start:
  assumes "finite (dom r)"
  shows "work (dom r) (start_pass r c w) = (\<Sum>st \<leftarrow> map (\<lambda>k. the (r k)) (sorted_list_of_set (dom r)). length (st_All st) + 4) + 1"
proof -
  have "work (dom r) (start_pass r c w) = (\<Sum>k \<in> dom r. length (st_All (the (r k))) + 4) + 1"
    by (auto simp: work_def start_pass_def nodes_of_def pa_st_def dom_def split: option.splits intro!: sum.cong)
  also have "(\<Sum>k \<in> dom r. length (st_All (the (r k))) + 4)
      = (\<Sum>k \<leftarrow> sorted_list_of_set (dom r). length (st_All (the (r k))) + 4)"
    using assms sum_list_distinct_conv_sum_set
      [of "sorted_list_of_set (dom r)" "\<lambda>k. length (st_All (the (r k))) + 4"] by simp
  finally show ?thesis by (simp add: comp_def)
qed

section \<open>What a pass leaves\<close>

text \<open>The state of a network after its goroutine: the best of what the probes found, all else kept.\<close>

definition checked :: "NetworkState \<Rightarrow> NetworkState \<Rightarrow> bool" where
  "checked st st' \<longleftrightarrow>
     (\<exists>res. list_all2 probed_as (st_All st) res \<and> st' = st\<lparr>st_Best := PickFastestPerPriority res\<rparr>)"

text \<open>
  The same with the probes of a pass over \<open>r\<close> that were made between \<open>v\<close> and \<open>v'\<close>: its protocol and
  its time-out are those of the network in \<open>r\<close>.
\<close>

definition probes_of :: "env \<Rightarrow> registry \<Rightarrow> world \<Rightarrow> world \<Rightarrow> NetworkState \<Rightarrow> Node \<Rightarrow> NodeWithPing \<Rightarrow> bool" where
  "probes_of E r v v' st = probed_by E (st_Protocol st) (perNodeTimeout r (st_Protocol st)) v v'"

definition found :: "env \<Rightarrow> registry \<Rightarrow> world \<Rightarrow> world \<Rightarrow> NetworkState \<Rightarrow> NetworkState \<Rightarrow> bool" where
  "found E r v v' st st' \<longleftrightarrow>
     (\<exists>res. list_all2 (probes_of E r v v' st) (st_All st) res
        \<and> st' = st\<lparr>st_Best := PickFastestPerPriority res\<rparr>)"

lemma found_checked: "found E r v v' st st' \<Longrightarrow> checked st st'"
  unfolding found_def checked_def probes_of_def by (blast intro: list_all2_mono probed_by_as)

lemma probes_later:
  "list_all2 (probes_of E r v v' st) ns res \<Longrightarrow> prefix (sent v') (sent u) \<Longrightarrow> list_all2 (probes_of E r v u st) ns res"
  by (erule list_all2_mono) (auto simp: probes_of_def intro: probed_by_later)

lemma found_later: "found E r v v' st st' \<Longrightarrow> prefix (sent v') (sent u) \<Longrightarrow> found E r v u st st'"
  by (auto simp: found_def intro: probes_later)

fun task_ok :: "env \<Rightarrow> registry \<Rightarrow> world \<Rightarrow> world \<Rightarrow> NetworkState option \<Rightarrow> NetworkState option \<Rightarrow> task \<Rightarrow> bool" where
  "task_ok E r v v' a b (Probing g pr tmo todo res) \<longleftrightarrow>
     b = a \<and> (\<exists>st tried. a = Some st \<and> pr = st_Protocol st \<and> tmo = perNodeTimeout r pr
        \<and> st_All st = tried @ todo \<and> list_all2 (probes_of E r v v' st) tried res)"
| "task_ok E r v v' a b (Stored g nb) \<longleftrightarrow>
     rel_option (found E r v v') a b \<and> (\<forall>st. b = Some st \<longrightarrow> nb = length (st_Best st))"
| "task_ok E r v v' a b Finished \<longleftrightarrow> rel_option (found E r v v') a b"
| "task_ok E r v v' a b t \<longleftrightarrow> b = a"

lemma task_ok_later:
  assumes "task_ok E r v v' a b t" "prefix (sent v') (sent u)"
  shows "task_ok E r v u a b t"
proof -
  have f: "rel_option (found E r v v') a b \<Longrightarrow> rel_option (found E r v u) a b"
    using assms(2) by (auto intro: found_later elim!: option.rel_mono_strong)
  show ?thesis using assms f by (cases t) (auto intro: probes_later)
qed

definition pass_ok :: "env \<Rightarrow> registry \<Rightarrow> world \<Rightarrow> pass \<Rightarrow> bool" where
  "pass_ok E r v s \<longleftrightarrow> pa_old s = Map.empty \<and> reg_TimeoutMs (pa_reg s) = reg_TimeoutMs r
     \<and> prefix (sent v) (sent (pa_world s))
     \<and> (\<forall>k. task_ok E r v (pa_world s) (r k) (pa_reg s k) (pa_task s k))"

lemma pass_ok_upd:
  assumes "pass_ok E r v s" "pa_old t = pa_old s" "reg_TimeoutMs (pa_reg t) = reg_TimeoutMs (pa_reg s)"
    "prefix (sent (pa_world s)) (sent (pa_world t))"
    "\<And>j. j \<noteq> k \<Longrightarrow> pa_reg t j = pa_reg s j"
    "\<And>j. j \<noteq> k \<Longrightarrow> pa_task t j = pa_task s j" "task_ok E r v (pa_world t) (r k) (pa_reg t k) (pa_task t k)"
  shows "pass_ok E r v t"
proof -
  have "task_ok E r v (pa_world t) (r j) (pa_reg t j) (pa_task t j)" for j
    using assms(1,5-7) task_ok_later [OF _ assms(4)] unfolding pass_ok_def by metis
  with assms(1-4) show ?thesis by (auto simp: pass_ok_def intro: prefix_order.trans)
qed

lemma pass_ok_task: "pass_ok E r v s \<Longrightarrow> task_ok E r v (pa_world s) (r k) (pa_reg s k) (pa_task s k)"
  by (simp add: pass_ok_def)

lemma timeout_SetBest [simp]: "reg_TimeoutMs (SetBest k best r) = reg_TimeoutMs r"
  by (auto simp: reg_TimeoutMs_def SetBest_def modify_apply split: option.split)

lemma perNodeTimeout_cong: "reg_TimeoutMs r = reg_TimeoutMs r' \<Longrightarrow> perNodeTimeout r = perNodeTimeout r'"
  by (simp add: perNodeTimeout_def fun_eq_iff)

lemma sent_set_gauges [simp]: "sent (set_gauges k st nb w) = sent w"
  by (simp add: set_gauges_def)

lemma pass_ok_step: "pass_step E ds s s' \<Longrightarrow> pass_ok E r v s \<Longrightarrow> pass_ok E r v s'"
proof (induction rule: pass_step.induct)
  case (pick s k st ord)
  then show ?case
    using pass_ok_task [OF pick(6), of k] by (intro pass_ok_upd [OF pick(6), of _ k]) simp_all
next
  case (enter s k g l st)
  then have s: "pa_reg s k = Some st" by (simp add: pa_st_def pass_ok_def)
  then have r: "r k = Some st" using pass_ok_task [OF enter(5), of k] enter(2) by simp
  have "perNodeTimeout (pa_reg s) = perNodeTimeout r"
    using enter(5) unfolding pass_ok_def by (blast intro: perNodeTimeout_cong)
  then have "task_ok E r v (pa_world s) (r k) (pa_reg s k)
      (Probing g (st_Protocol st) (perNodeTimeout (pa_reg s) (st_Protocol st)) (st_All st) [])"
    unfolding task_ok.simps s r by (intro conjI refl exI [of _ st] exI [of _ "[]"]) simp_all
  then show ?case by (intro pass_ok_upd [OF enter(5), of _ k]) simp_all
next
  case (probe s k g pr tmo n todo res a p c w)
  then obtain st tried where t: "r k = Some st" "pa_reg s k = Some st" "st_All st = tried @ n # todo"
    "pr = st_Protocol st" "tmo = perNodeTimeout r pr" "list_all2 (probes_of E r v (pa_world s) st) tried res"
    using pass_ok_task [OF probe(4), of k] by auto
  have grows: "prefix (sent (pa_world s)) (sent w)" by (rule any_probe.grows [OF probe(3)])
  have "prefix (sent v) (sent (pa_world s))" using probe(4) by (simp add: pass_ok_def)
  then have "probes_of E r v w st n (mk_ping n a p)"
    using probe(3) unfolding probes_of_def probed_by_def t(4,5) [symmetric] by blast
  with probes_later [OF t(6) grows] have "list_all2 (probes_of E r v w st) (tried @ [n]) (res @ [mk_ping n a p])"
    by (simp add: list_all2_appendI)
  then have "task_ok E r v w (r k) (pa_reg s k) (Probing g pr tmo todo (res @ [mk_ping n a p]))"
    unfolding task_ok.simps using t by (intro conjI exI [of _ st] exI [of _ "tried @ [n]"]) simp_all
  with grows show ?case by (intro pass_ok_upd [OF probe(4), of _ k]) simp_all
next
  case (crash s k g pr tmo n todo res e)
  then show ?case by (simp add: pass_ok_def)
next
  case (store s k g pr tmo res)
  then obtain st where t: "r k = Some st" "pa_reg s k = Some st"
    "list_all2 (probes_of E r v (pa_world s) st) (st_All st) res"
    using pass_ok_task [OF store(3), of k] by auto
  then have "found E r v (pa_world s) st (st\<lparr>st_Best := PickFastestPerPriority res\<rparr>)"
    unfolding found_def by blast
  with t show ?case
    by (intro pass_ok_upd [OF store(3), of _ k]) (simp_all add: SetBest_def modify_apply timeout_SetBest [unfolded SetBest_def])
next
  case (leave s k g nb st l)
  then have "task_ok E r v (pa_world s) (r k) (pa_reg s k) Finished" using pass_ok_task [OF leave(5), of k] by simp
  from task_ok_later [OF this, of "set_gauges k st nb (pa_world s)"]
  show ?case by (intro pass_ok_upd [OF leave(5), of _ k]) simp_all
qed

lemma pass_ok_start: "pass_ok E r w (start_pass r c w)"
  by (auto simp: pass_ok_def start_pass_def domIff)

lemma pass_ok_reached: "reached E ds (start_pass r c w) s \<Longrightarrow> pass_ok E r w s"
  by (erule reached_induct_inv) (fact pass_ok_start pass_ok_step)+

text \<open>When every goroutine is done, every network is checked.\<close>

lemma pass_found:
  assumes "reached E ds (start_pass r c w) s" "active s = {}"
  shows "rel_option (found E r w (pa_world s)) (r k) (pa_reg s k)"
  using pass_ok_task [OF pass_ok_reached [OF assms(1)], of k] assms(2) by (auto simp: active_def)

lemma pass_done:
  assumes "reached E ds (start_pass r c w) s" "active s = {}"
  shows "rel_option checked (r k) (pa_reg s k)"
  by (rule option.rel_mono_strong [OF pass_found [OF assms]]) (rule found_checked)

section \<open>The gauges\<close>

text \<open>A goroutine that is done has reported what the registry holds of its network.\<close>

definition gauges_ok :: "pass \<Rightarrow> bool" where
  "gauges_ok s \<longleftrightarrow> (\<forall>k st. pa_task s k = Finished \<longrightarrow> pa_reg s k = Some st \<longrightarrow>
     reading (meters (pa_world s)) TotalNodes k = int (length (st_All st) + length (st_Discovered st))
     \<and> reading (meters (pa_world s)) HealthyNodes k = int (length (st_Best st)))"

lemma reading_set_gauges [simp]:
  "reading (meters (set_gauges k st nb w)) m j =
     (if j \<noteq> k then reading (meters w) m j
      else if m = HealthyNodes then int nb
      else if m = TotalNodes then int (length (st_All st) + length (st_Discovered st))
      else reading (meters w) m j)"
  by (auto simp: set_gauges_def)

lemma gauges_ok_upd:
  assumes "gauges_ok s" "\<And>j m. j \<noteq> k \<Longrightarrow> reading (meters (pa_world t)) m j = reading (meters (pa_world s)) m j"
    "\<And>j. j \<noteq> k \<Longrightarrow> pa_reg t j = pa_reg s j" "\<And>j. j \<noteq> k \<Longrightarrow> pa_task t j = pa_task s j"
    "pa_task t k \<noteq> Finished"
  shows "gauges_ok t"
  using assms unfolding gauges_ok_def by metis

lemma gauges_ok_step:
  assumes "pass_step E ds s s'" "pass_ok E r v s" "gauges_ok s"
  shows "gauges_ok s'"
  using assms
proof (induction rule: pass_step.induct)
  case (probe s k g pr tmo n todo res a p c w)
  then show ?case
    by (intro gauges_ok_upd [OF probe(5), of k]) (simp_all add: any_probe.uncounted [OF probe(3)])
next
  case (store s k g pr tmo res)
  then show ?case
    by (intro gauges_ok_upd [OF store(4), of k]) (simp_all add: SetBest_def modify_apply)
next
  case (leave s k g nb st l)
  then have k: "pa_reg s k = Some st" by (simp add: pa_st_def pass_ok_def)
  with pass_ok_task [OF leave(5), of k] leave(2) have "nb = length (st_Best st)" by simp
  with k leave(6) show ?case by (auto simp: gauges_ok_def)
qed (auto simp: gauges_ok_def)

lemma gauges_ok_reached: "reached E ds (start_pass r c w) s \<Longrightarrow> gauges_ok s"
proof -
  assume a: "reached E ds (start_pass r c w) s"
  have "gauges_ok s \<and> pass_ok E r w s"
  proof (rule reached_induct_inv [OF a])
    show "gauges_ok (start_pass r c w) \<and> pass_ok E r w (start_pass r c w)"
      using pass_ok_start by (auto simp: gauges_ok_def start_pass_def split: if_splits)
  qed (auto intro: gauges_ok_step pass_ok_step)
  then show ?thesis ..
qed

section \<open>The sequential pass is a run\<close>

lemma reached_trans: "reached E ds s t \<Longrightarrow> reached E ds t u \<Longrightarrow> reached E ds s u"
  by (rotate_tac 1, induction rule: reached.induct) (auto intro: reached.onward)

lemma set_task_twice [simp]: "set_task k t (set_task k t' s) = set_task k t s"
  by (simp add: set_task_def)

lemma set_task_upd:
  "(set_task k t s)\<lparr>pa_chk := c, pa_world := w\<rparr> = set_task k t (s\<lparr>pa_chk := c, pa_world := w\<rparr>)"
  "(set_task k t s)\<lparr>pa_reg := r\<rparr> = set_task k t (s\<lparr>pa_reg := r\<rparr>)"
  "(set_task k t s)\<lparr>pa_sems := x\<rparr> = set_task k t (s\<lparr>pa_sems := x\<rparr>)"
  by (simp_all add: set_task_def)

lemma reached_probes:
  "check_all pr E tmo todo (pa_chk s) (pa_world s) = Inr (res', c, w) \<Longrightarrow> \<not> pa_crash s \<Longrightarrow>
     pa_task s k = Probing g pr tmo todo res \<Longrightarrow>
     reached E ds s (set_task k (Probing g pr tmo [] (res @ res')) (s\<lparr>pa_chk := c, pa_world := w\<rparr>))"
proof (induction todo arbitrary: s res res')
  case Nil
  then have "(pa_task s)(k := Probing g pr tmo [] res) = pa_task s"
    by (simp add: fun_upd_idem)
  with Nil have "set_task k (Probing g pr tmo [] (res @ res')) (s\<lparr>pa_chk := c, pa_world := w\<rparr>) = s"
    by (simp add: set_task_def)
  then show ?case by (simp add: reached.here)
next
  case (Cons n todo)
  from Cons.prems(1) obtain a p c1 w1 res1 where
    q: "check_node pr E n tmo (pa_chk s) (pa_world s) = Inr ((a, p), c1, w1)"
      "check_all pr E tmo todo c1 w1 = Inr (res1, c, w)" "res' = mk_ping n a p # res1"
    by auto
  let ?t = "set_task k (Probing g pr tmo todo (res @ [mk_ping n a p])) (s\<lparr>pa_chk := c1, pa_world := w1\<rparr>)"
  have "reached E ds s ?t"
    by (rule reached.onward [OF reached.here probe [OF Cons.prems(2,3) q(1)]])
  moreover have "reached E ds ?t
      (set_task k (Probing g pr tmo [] (res @ res')) (?t\<lparr>pa_chk := c, pa_world := w\<rparr>))"
    using Cons.IH [of ?t res1 "res @ [mk_ping n a p]"] Cons.prems(2) q by simp
  ultimately show ?case
    by (auto intro: reached_trans simp: set_task_upd)
qed

text \<open>A goroutine that runs alone up to its last probe, or to the probe that panics.\<close>

lemma reached_entered:
  assumes "pa_task s k = Spawned" "pa_reg s k = Some st" "pa_old s = Map.empty" "\<not> pa_crash s"
    "pa_sems s = new_limits" "distinct ds"
  obtains g l where "release l = Some (new_limits g)"
    "reached E ds s (set_task k (Probing g (st_Protocol st) (perNodeTimeout (pa_reg s) (st_Protocol st))
       (st_All st) []) (s\<lparr>pa_sems := (new_limits)(g := l)\<rparr>))"
proof -
  let ?g = "pickLimiter ds st" and ?l = "(new_limits (pickLimiter ds st))\<lparr>sem_len := 1\<rparr>"
  have st: "pa_st s k = Some st" using assms(2,3) by (simp add: pa_st_def)
  have l: "acquire (new_limits ?g) = Some ?l" "release ?l = Some (new_limits ?g)"
    by (simp_all add: acquire_def release_def new_limits_def newLimiter_def split: gate.split)
  let ?s1 = "set_task k (Waiting ?g) s"
  have 1: "pass_step E ds s ?s1"
    by (rule pick [OF assms(4,1) st assms(6)]) simp
  have 2: "pass_step E ds ?s1 (set_task k (Probing ?g (st_Protocol st) (perNodeTimeout (pa_reg s) (st_Protocol st))
       (st_All st) []) (s\<lparr>pa_sems := (new_limits)(?g := ?l)\<rparr>))"
    using enter [of ?s1 k ?g ?l st E ds] assms(4,5) l st by (simp add: set_task_upd)
  show thesis
    by (rule that [OF l(2) reached.onward [OF reached.onward [OF reached.here 1] 2]])
qed

lemma reached_probed:
  assumes "pa_task s k = Spawned" "pa_reg s k = Some st" "pa_old s = Map.empty" "\<not> pa_crash s"
    "pa_sems s = new_limits" "distinct ds"
    "UpdateNetwork E (pa_reg s) (st_Protocol st) (st_All st) (pa_chk s) (pa_world s) = Inr (best, c, w)"
  obtains g l tmo res where "release l = Some (new_limits g)" "best = PickFastestPerPriority res"
    "reached E ds s (set_task k (Probing g (st_Protocol st) tmo [] res)
       (s\<lparr>pa_sems := (new_limits)(g := l), pa_chk := c, pa_world := w\<rparr>))"
proof -
  let ?tmo = "perNodeTimeout (pa_reg s) (st_Protocol st)"
  from assms(7) obtain res where
    u: "check_all (st_Protocol st) E ?tmo (st_All st) (pa_chk s) (pa_world s) = Inr (res, c, w)"
      "best = PickFastestPerPriority res"
    by (auto simp: UpdateNetwork_def)
  obtain g l where g: "release l = Some (new_limits g)" "reached E ds s
      (set_task k (Probing g (st_Protocol st) ?tmo (st_All st) []) (s\<lparr>pa_sems := (new_limits)(g := l)\<rparr>))"
    using reached_entered [OF assms(1-6)] by blast
  let ?t = "set_task k (Probing g (st_Protocol st) ?tmo (st_All st) []) (s\<lparr>pa_sems := (new_limits)(g := l)\<rparr>)"
  have "reached E ds ?t (set_task k (Probing g (st_Protocol st) ?tmo [] ([] @ res)) (?t\<lparr>pa_chk := c, pa_world := w\<rparr>))"
    by (rule reached_probes) (use u(1) assms(4) in simp_all)
  then have "reached E ds s (set_task k (Probing g (st_Protocol st) ?tmo [] res)
       (s\<lparr>pa_sems := (new_limits)(g := l), pa_chk := c, pa_world := w\<rparr>))"
    by (intro reached_trans [OF g(2)]) (simp add: set_task_upd)
  with that [OF g(1) u(2)] show thesis .
qed

lemma reached_panic:
  "check_all pr E tmo todo (pa_chk s) (pa_world s) = Inl e \<Longrightarrow> \<not> pa_crash s \<Longrightarrow>
     pa_task s k = Probing g pr tmo todo res \<Longrightarrow> \<exists>s'. reached E ds s s' \<and> pa_crash s'"
proof (induction todo arbitrary: s res)
  case (Cons n todo)
  show ?case
  proof (cases "check_node pr E n tmo (pa_chk s) (pa_world s)")
    case (Inl e')
    from reached.onward [OF reached.here crash [OF Cons.prems(2,3) Inl]] show ?thesis by fastforce
  next
    case (Inr x)
    obtain a p c1 w1 where x: "x = ((a, p), c1, w1)" by (metis surj_pair)
    let ?t = "set_task k (Probing g pr tmo todo (res @ [mk_ping n a p])) (s\<lparr>pa_chk := c1, pa_world := w1\<rparr>)"
    have r: "reached E ds s ?t"
      by (rule reached.onward [OF reached.here probe [OF Cons.prems(2,3) Inr [unfolded x]]])
    have "check_all pr E tmo todo c1 w1 = Inl e"
      using Cons.prems(1) by (auto simp: Inr x and_then_Inl)
    with Cons.IH [of ?t "res @ [mk_ping n a p]"] Cons.prems(2) have "\<exists>s'. reached E ds ?t s' \<and> pa_crash s'"
      by simp
    with r show ?thesis by (blast intro: reached_trans)
  qed
qed simp

text \<open>A node whose URL does not parse brings a pass down that probes it.\<close>

lemma check_all_panics:
  assumes "n \<in> set ns" "pr \<in> {''evm'', ''sol''}" "\<not> url_ok E (URL n)"
  shows "\<exists>e. check_all pr E tmo ns c w = Inl e"
  using assms(1)
proof (induction ns arbitrary: c w)
  case (Cons m ns)
  have bad: "check_node pr E n tmo c w = Inl NilDeref"
    using assms(2,3)
    by (auto simp: check_node_def checkEVM_def checkSOL_def exchange_def send_def probe_request_def)
  show ?case
  proof (cases "m = n")
    case False
    with Cons show ?thesis by (cases "check_node pr E m tmo c w") (auto simp: and_then_Inl)
  qed (simp add: bad)
qed simp

lemma pass_crashes:
  assumes "r k = Some st" "n \<in> set (st_All st)" "st_Protocol st \<in> {''evm'', ''sol''}" "\<not> url_ok E (URL n)"
    "distinct ds"
  obtains q where "reached E ds (start_pass r c w) q" "pa_crash q"
proof -
  let ?p = "start_pass r c w"
  let ?q = "\<lambda>g l. set_task k (Probing g (st_Protocol st) (perNodeTimeout (pa_reg ?p) (st_Protocol st)) (st_All st) [])
    (?p\<lparr>pa_sems := (new_limits)(g := l)\<rparr>)"
  obtain g l where run: "reached E ds ?p (?q g l)"
    by (rule reached_entered [of ?p k st ds E]) (use assms(1,5) in \<open>simp_all add: start_pass_def domIff\<close>)
  obtain e where "check_all (st_Protocol st) E (perNodeTimeout (pa_reg ?p) (st_Protocol st))
      (st_All st) (pa_chk (?q g l)) (pa_world (?q g l)) = Inl e"
    using check_all_panics [OF assms(2-4)] by blast
  then obtain q where "reached E ds (?q g l) q" "pa_crash q"
    using reached_panic [of _ E _ _ "?q g l" e k g "[]" ds] by (fastforce simp: start_pass_def)
  with reached_trans [OF run] that show thesis by blast
qed

lemma reached_network:
  assumes "pa_task s k = Spawned" "pa_reg s k = Some st" "pa_old s = Map.empty" "\<not> pa_crash s"
    "pa_sems s = new_limits" "distinct ds"
    "UpdateNetwork E (pa_reg s) (st_Protocol st) (st_All st) (pa_chk s) (pa_world s) = Inr (best, c, w)"
  shows "reached E ds s
    (set_task k Finished (s\<lparr>pa_reg := SetBest k best (pa_reg s), pa_chk := c,
       pa_world := set_gauges k st (length best) w\<rparr>))"
proof -
  obtain g l tmo res where g: "release l = Some (new_limits g)" "best = PickFastestPerPriority res"
    and r: "reached E ds s (set_task k (Probing g (st_Protocol st) tmo [] res)
       (s\<lparr>pa_sems := (new_limits)(g := l), pa_chk := c, pa_world := w\<rparr>))"
    by (rule reached_probed [OF assms])
  let ?s3 = "set_task k (Probing g (st_Protocol st) tmo [] res)
       (s\<lparr>pa_sems := (new_limits)(g := l), pa_chk := c, pa_world := w\<rparr>)"
  let ?s4 = "set_task k (Stored g (length best)) (?s3\<lparr>pa_reg := SetBest k best (pa_reg s)\<rparr>)"
  have 4: "pass_step E ds ?s3 ?s4"
    using store [of ?s3 k g "st_Protocol st" tmo res E ds] assms(4) g by simp
  let ?st = "st\<lparr>st_Best := best\<rparr>"
  let ?s5 = "set_task k Finished (?s4\<lparr>pa_sems := (pa_sems ?s4)(g := new_limits g),
    pa_world := set_gauges k ?st (length best) (pa_world ?s4)\<rparr>)"
  have e: "?s5 = set_task k Finished (s\<lparr>pa_reg := SetBest k best (pa_reg s), pa_chk := c,
      pa_world := set_gauges k st (length best) w\<rparr>)"
    using assms(5) by (simp add: set_task_def)
  have "pa_st ?s4 k = Some ?st"
    using assms(2,3) by (simp add: pa_st_def SetBest_def modify_apply set_task_def)
  then have 5: "pass_step E ds ?s4 ?s5"
    by (rule leave [rotated 2]) (use assms(4) g in simp_all)
  from reached.onward [OF reached.onward [OF r 4] 5] show ?thesis unfolding e .
qed

lemma reached_pass:
  "health_pass E ks (pa_reg s) (pa_chk s) (pa_world s) = Inr (r', c', w') \<Longrightarrow> distinct ks \<Longrightarrow>
     distinct ds \<Longrightarrow> (\<forall>k \<in> set ks. pa_task s k = Spawned) \<Longrightarrow> active s = set ks \<Longrightarrow>
     set ks \<subseteq> dom (pa_reg s) \<Longrightarrow> pa_old s = Map.empty \<Longrightarrow> \<not> pa_crash s \<Longrightarrow> pa_sems s = new_limits \<Longrightarrow>
     \<exists>s'. reached E ds s s' \<and> active s' = {} \<and> \<not> pa_crash s' \<and> pa_reg s' = r' \<and> pa_chk s' = c' \<and> pa_world s' = w'"
proof (induction ks arbitrary: s)
  case Nil
  then show ?case by (intro exI [of _ s]) (auto intro: reached.here)
next
  case (Cons k ks)
  from Cons.prems(6) obtain st where st: "pa_reg s k = Some st" by auto
  with Cons.prems(1) obtain best c w where
    u: "UpdateNetwork E (pa_reg s) (st_Protocol st) (st_All st) (pa_chk s) (pa_world s) = Inr (best, c, w)"
      "health_pass E ks (SetBest k best (pa_reg s)) c (set_gauges k st (length best) w) = Inr (r', c', w')"
    by auto
  let ?t = "set_task k Finished (s\<lparr>pa_reg := SetBest k best (pa_reg s), pa_chk := c,
    pa_world := set_gauges k st (length best) w\<rparr>)"
  have r: "reached E ds s ?t"
    by (rule reached_network) (use Cons.prems st u in simp_all)
  have "active ?t = set ks"
    using Cons.prems(2,5) by (auto simp: active_def set_task_def)
  moreover have "\<forall>j \<in> set ks. pa_task ?t j = Spawned"
    using Cons.prems(2,4) by auto
  moreover have "set ks \<subseteq> dom (pa_reg ?t)"
    using Cons.prems(6) by (simp add: SetBest_def)
  ultimately have "\<exists>s'. reached E ds ?t s' \<and> active s' = {} \<and> \<not> pa_crash s' \<and> pa_reg s' = r'
      \<and> pa_chk s' = c' \<and> pa_world s' = w'"
    using Cons.prems u(2) by (intro Cons.IH) simp_all
  with r show ?case by (blast intro: reached_trans)
qed

lemma health_pass_reached:
  assumes "health_pass E names r c w = Inr (r', c', w')" "is_order names r" "distinct ds"
  obtains s where "reached E ds (start_pass r c w) s" "active s = {}" "\<not> pa_crash s"
    "pa_reg s = r'" "pa_chk s = c'" "pa_world s = w'"
proof -
  have "\<exists>s'. reached E ds (start_pass r c w) s' \<and> active s' = {} \<and> \<not> pa_crash s' \<and> pa_reg s' = r'
      \<and> pa_chk s' = c' \<and> pa_world s' = w'"
    using assms by (intro reached_pass [of E names])
      (auto simp: is_order_def start_pass_def active_def)
  with that show thesis by blast
qed

lemma health_pass_checked:
  assumes "health_pass E names r c w = Inr (r', c', w')" "is_order names r"
  shows "rel_option checked (r k) (r' k)"
  using assms by (metis health_pass_reached pass_done distinct.simps(1))

section \<open>The tick\<close>

definition remove_urls :: "string set \<Rightarrow> NetworkState \<Rightarrow> NetworkState" where
  "remove_urls D st =
     st\<lparr>st_All := filter (\<lambda>n. URL n \<notin> D) (st_All st),
        st_Best := filter (\<lambda>n. URL n \<notin> D) (st_Best st),
        st_Discovered := filter (\<lambda>dn. URL (dn_Node dn) \<notin> D) (st_Discovered st)\<rparr>"

lemma remove_urls_url: "remove_urls D (remove_url u st) = remove_urls (insert u D) st"
  by (simp add: remove_urls_def remove_url_def conj_commute)

text \<open>Dropping a list of URLs is dropping the set of them: the order does not matter.\<close>

lemma drop_all_eq: "drop_all urls r k = map_option (remove_urls (set urls)) (r k)"
proof (induction urls arbitrary: r)
  case Nil
  then show ?case by (simp add: drop_all_def remove_urls_def option.map_ident)
next
  case (Cons u urls)
  have "drop_all (u # urls) r k = drop_all urls (RemoveNodeEverywhere u r) k"
    by (simp add: drop_all_def)
  then show ?case
    by (simp add: Cons.IH RemoveNodeEverywhere_def option.map_comp comp_def remove_urls_url)
qed

lemma health_pass_drops:
  "health_pass E ks r c w = Inr (r', c', w') \<Longrightarrow> finite (dropURLs c) \<Longrightarrow>
     dropURLs c \<subseteq> dropURLs c' \<and> finite (dropURLs c')"
proof (induction ks arbitrary: r c w)
  case (Cons k ks)
  show ?case
  proof (cases "r k")
    case None
    with Cons show ?thesis by simp
  next
    case (Some st)
    with Cons.prems(1) obtain best c1 w1 where
      u: "UpdateNetwork E r (st_Protocol st) (st_All st) c w = Inr (best, c1, w1)"
        "health_pass E ks (SetBest k best r) c1 (set_gauges k st (length best) w1) = Inr (r', c', w')"
      by auto
    from u(1) have d: "dropURLs c \<subseteq> dropURLs c1" "dropURLs c1 \<subseteq> dropURLs c \<union> URL ` set (st_All st)"
      by (auto elim: UpdateNetwork_Inr)
    with Cons.prems(2) have "finite (dropURLs c1)"
      by (meson List.finite_set finite_Un finite_imageI finite_subset)
    from Cons.IH [OF u(2) this] d show ?thesis by blast
  qed
qed simp

lemma is_order_prune: "is_order names (PruneAndMerge now r) = is_order names r"
  by (auto simp: is_order_def PruneAndMerge_def dom_def)

lemma tick_Inr:
  assumes "tick E names ord r c w = Inr (r', c', w')" "is_order names r" "finite (dropURLs c)"
    "drains ord"
  obtains r1 c1 D where "health_pass E names (PruneAndMerge (clock w) r) c w = Inr (r1, c1, w')" "D = dropURLs c1"
    "dropURLs c \<subseteq> D" "dropURLs c' = {}"
    "\<And>k. r k = None \<longleftrightarrow> r' k = None"
    "\<And>k st. r k = Some st \<Longrightarrow>
       \<exists>st1. checked (prune_merge (clock w) st) st1 \<and> r' k = Some (remove_urls D st1)"
proof -
  let ?r0 = "PruneAndMerge (clock w) r"
  from assms(1) obtain r1 c1 w1 where h: "health_pass E names ?r0 c w = Inr (r1, c1, w1)"
    and t: "r' = drop_all (ord (dropURLs c1)) r1" "c' = c1\<lparr>dropURLs := {}\<rparr>" "w' = w1"
    by (auto simp: tick_def DrainDropURLs_def)
  from health_pass_drops [OF h assms(3)] have d: "dropURLs c \<subseteq> dropURLs c1"
    and "set (ord (dropURLs c1)) = dropURLs c1"
    using assms(4) by (simp_all add: drains_def)
  with t(1) have r': "r' k = map_option (remove_urls (dropURLs c1)) (r1 k)" for k
    by (simp add: drop_all_eq)
  have "rel_option checked (?r0 k) (r1 k)" for k
    by (rule health_pass_checked [OF h]) (simp add: is_order_prune assms(2))
  then have c: "rel_option checked (map_option (prune_merge (clock w)) (r k)) (r1 k)" for k
    by (simp add: PruneAndMerge_def)
  show thesis
  proof (rule that [OF h [folded t(3)] refl d])
    show "dropURLs c' = {}" using t(2) by simp
    show "r k = None \<longleftrightarrow> r' k = None" for k
      using c [of k] by (cases "r k"; cases "r1 k") (auto simp: r')
    show "\<exists>st1. checked (prune_merge (clock w) st) st1 \<and> r' k = Some (remove_urls (dropURLs c1) st1)"
      if "r k = Some st" for k st
      using c [of k] that by (cases "r1 k") (auto simp: r')
  qed
qed

text \<open>The best nodes of a checked network.\<close>

lemma checked_best:
  assumes "checked st st'"
  shows "st_All st' = st_All st" "st_Discovered st' = st_Discovered st"
    "sorted_wrt (<) (map Priority (st_Best st'))"
    "b \<in> set (st_Best st') \<Longrightarrow> Alive b \<and> URL b \<in> URL ` set (st_All st)"
proof -
  from assms obtain res where r: "list_all2 probed_as (st_All st) res"
    "st' = st\<lparr>st_Best := PickFastestPerPriority res\<rparr>" by (auto simp: checked_def)
  then show "st_All st' = st_All st" "st_Discovered st' = st_Discovered st"
    "sorted_wrt (<) (map Priority (st_Best st'))"
    by (simp_all add: PickFastestPerPriority_strict)
  show "Alive b \<and> URL b \<in> URL ` set (st_All st)" if "b \<in> set (st_Best st')"
  proof -
    from that r have "b \<in> set res" "Alive b" by (auto dest: PickFastestPerPriority_subset)
    with r(1) show ?thesis by (auto dest!: probed_as_url dest: probed_as_URL)
  qed
qed

lemma sorted_wrt_filter_map: "sorted_wrt P (map f xs) \<Longrightarrow> sorted_wrt P (map f (filter Q xs))"
  by (induction xs) auto

section \<open>Properties\<close>

text \<open>
  (C7) A health pass of goroutines never blocks for good and ends: from every state it can reach
  without a crash, as long as a goroutine is left, some goroutine can go on; and no run has more
  steps than the nodes of the registry, plus four per network, plus one.
\<close>
theorem pass_ends:
  assumes "finite (dom r)" "distinct ds"
  shows "(\<forall>s. reached E ds (start_pass r c w) s \<and> \<not> pa_crash s \<and> active s \<noteq> {} \<longrightarrow> (\<exists>s'. pass_step E ds s s'))
    \<and> (\<forall>n s. runs E ds n (start_pass r c w) s \<longrightarrow>
         n \<le> (\<Sum>st \<leftarrow> map (\<lambda>k. the (r k)) (sorted_list_of_set (dom r)). length (st_All st) + 4) + 1)"
proof (intro conjI allI impI)
  fix s
  assume a: "reached E ds (start_pass r c w) s \<and> \<not> pa_crash s \<and> active s \<noteq> {}"
  then obtain k where "pa_task s k \<noteq> Finished" by (auto simp: active_def)
  with a show "\<exists>s'. pass_step E ds s s'"
    by (intro no_deadlock) (auto intro: sems_ok_reached states_kept_reached assms)
next
  fix n s
  assume "runs E ds n (start_pass r c w) s"
  from runs_bound [OF this assms(1)] show "n \<le> (\<Sum>st \<leftarrow> map (\<lambda>k. the (r k)) (sorted_list_of_set (dom r)). length (st_All st) + 4) + 1"
    using work_start [OF assms(1), of c w] by (simp add: active_start)
qed

text \<open>
  (C8) Whatever the interleaving, when the last goroutine is done each network holds its former nodes,
  and nothing of it has changed but the best nodes. These come from the probes that the pass made of
  exactly these nodes, with the network's protocol and time-out: each probe left the status and the time
  that \<open>check_node\<close> returned, and the best nodes are the alive ones among the results, one per priority
  in increasing priority, none slower than another alive one of its priority.
\<close>
theorem pass_result:
  assumes "reached E ds (start_pass r c w) s" "active s = {}" "r k = Some st"
  shows "\<exists>res best. list_all2 (\<lambda>n b. \<exists>alive ping c1 w1 c2 w2.
        check_node (st_Protocol st) E n (perNodeTimeout r (st_Protocol st)) c1 w1 = Inr ((alive, ping), c2, w2)
        \<and> b = mk_ping n alive ping \<and> prefix (sent w) (sent w1) \<and> prefix (sent w2) (sent (pa_world s)))
      (st_All st) res
    \<and> pa_reg s k = Some (st\<lparr>st_Best := best\<rparr>) \<and> best = PickFastestPerPriority res
    \<and> sorted_wrt (<) (map Priority best) \<and> set best \<subseteq> {b \<in> set res. Alive b}
    \<and> (\<forall>x \<in> set res. Alive x \<longrightarrow> (\<exists>b \<in> set best. Priority b = Priority x \<and> Ping b \<le> Ping x))"
proof -
  from pass_found [OF assms(1,2), of k] assms(3) obtain res where
    r: "list_all2 (probes_of E r w (pa_world s) st) (st_All st) res"
      "pa_reg s k = Some (st\<lparr>st_Best := PickFastestPerPriority res\<rparr>)"
    by (auto simp: found_def option_rel_Some1)
  have "set (PickFastestPerPriority res) \<subseteq> {b \<in> set res. Alive b}"
    by (auto dest: PickFastestPerPriority_subset)
  moreover have "\<exists>b \<in> set (PickFastestPerPriority res). Priority b = Priority x \<and> Ping b \<le> Ping x"
    if "x \<in> set res" "Alive x" for x
    using that by (auto simp: set_PickFastestPerPriority intro!: bexI [of _ x] best_of_props)
  ultimately show ?thesis
    using r PickFastestPerPriority_strict [of res] unfolding probes_of_def probed_by_def by blast
qed

text \<open>
  (C9) After a pass the gauges tell of every network how many of its nodes are best nodes, and as its
  total the nodes plus the learnt nodes. \<open>PruneAndMerge\<close> has just added the learnt nodes to the nodes,
  and so, in a round of the loop, the total counts them twice.
\<close>
theorem gauges_after_pass:
  assumes "reached E ds (start_pass (PruneAndMerge (clock w) r) c w) s" "active s = {}" "r k = Some st"
  shows "\<exists>st'. pa_reg s k = Some st'
    \<and> reading (meters (pa_world s)) HealthyNodes k = int (length (st_Best st'))
    \<and> reading (meters (pa_world s)) TotalNodes k = int (length (st_All st') + length (st_Discovered st'))
    \<and> URL ` dn_Node ` set (st_Discovered st') \<subseteq> URL ` set (st_All st')"
proof -
  have k: "PruneAndMerge (clock w) r k = Some (prune_merge (clock w) st)"
    using assms(3) by (simp add: PruneAndMerge_def)
  with pass_done [OF assms(1,2), of k] obtain st' where
    st': "pa_reg s k = Some st'" "checked (prune_merge (clock w) st) st'" by (auto simp: option_rel_Some1)
  have "pa_task s k = Finished" using assms(2) by (auto simp: active_def)
  with gauges_ok_reached [OF assms(1)] st'(1) have
    "reading (meters (pa_world s)) TotalNodes k = int (length (st_All st') + length (st_Discovered st'))"
    "reading (meters (pa_world s)) HealthyNodes k = int (length (st_Best st'))"
    by (simp_all add: gauges_ok_def)
  moreover have "URL ` dn_Node ` set (st_Discovered st') \<subseteq> URL ` set (st_All st')"
    using st'(2) prune_merge_learnt [of "clock w" st] unfolding checked_def by (metis NetworkState.ext_inject
        NetworkState.surjective NetworkState.update_convs(4))
  ultimately show ?thesis using st'(1) by blast
qed

text \<open>
  During a pass at most one goroutine at a time probes nodes of a network assigned to a limited
  domain and at most five probe the others, so no more requests are in flight.
\<close>
theorem limiters_hold:
  assumes "reached E ds (start_pass r c w) s" "finite (dom r)"
  shows "finite {k. \<exists>pr tmo todo res. pa_task s k = Probing g pr tmo todo res}
    \<and> card {k. \<exists>pr tmo todo res. pa_task s k = Probing g pr tmo todo res}
      \<le> (case g of Domain d \<Rightarrow> 1 | Default \<Rightarrow> 5)"
proof -
  have sub: "{k. \<exists>pr tmo todo res. pa_task s k = Probing g pr tmo todo res} \<subseteq> holders s g"
    by (auto simp: holders_def)
  note h = reached_holders [OF assms, of g]
  have "card {k. \<exists>pr tmo todo res. pa_task s k = Probing g pr tmo todo res} \<le> gate_cap g"
    by (rule order_trans [OF card_mono [OF h(1) sub] h(2)])
  with finite_subset [OF sub h(1)] show ?thesis by (cases g) simp_all
qed

text \<open>
  (C10) One round of the loop. The URLs that are marked when its probes are over, the ones marked before
  and the ones its own probes marked, are gone from every list of every network, and the marks are
  cleared. No network appears or disappears; its nodes are otherwise those that the merging of learnt
  nodes gives, its learnt nodes those that have not expired, and its best nodes are alive nodes of it,
  in strictly increasing priority.
\<close>
theorem tick_spec:
  assumes "tick E names ord r c w = Inr (r', c', w')" "is_order names r" "finite (dropURLs c)" "drains ord"
  shows "\<exists>r1 c1. health_pass E names (PruneAndMerge (clock w) r) c w = Inr (r1, c1, w')
    \<and> dropURLs c \<subseteq> dropURLs c1 \<and> dropURLs c' = {} \<and> dom r' = dom r
    \<and> (\<forall>k st. r' k = Some st \<longrightarrow>
         urls_of st \<inter> dropURLs c1 = {}
         \<and> st_All st = filter (\<lambda>n. URL n \<notin> dropURLs c1) (st_All (prune_merge (clock w) (the (r k))))
         \<and> st_Discovered st = filter (\<lambda>dn. clock w < dn_ExpiresAt dn \<and> URL (dn_Node dn) \<notin> dropURLs c1)
              (st_Discovered (the (r k)))
         \<and> (\<forall>b \<in> set (st_Best st). Alive b \<and> URL b \<in> URL ` set (st_All st))
         \<and> sorted_wrt (<) (map Priority (st_Best st)))"
proof (rule tick_Inr [OF assms])
  fix r1 c1 D
  assume D: "health_pass E names (PruneAndMerge (clock w) r) c w = Inr (r1, c1, w')" "D = dropURLs c1"
    "dropURLs c \<subseteq> D" "dropURLs c' = {}" "\<And>k. r k = None \<longleftrightarrow> r' k = None"
    "\<And>k st. r k = Some st \<Longrightarrow> \<exists>st1. checked (prune_merge (clock w) st) st1 \<and> r' k = Some (remove_urls D st1)"
  have "urls_of st \<inter> D = {}
      \<and> st_All st = filter (\<lambda>n. URL n \<notin> D) (st_All (prune_merge (clock w) (the (r k))))
      \<and> st_Discovered st = filter (\<lambda>dn. clock w < dn_ExpiresAt dn \<and> URL (dn_Node dn) \<notin> D)
              (st_Discovered (the (r k)))
      \<and> (\<forall>b \<in> set (st_Best st). Alive b \<and> URL b \<in> URL ` set (st_All st))
      \<and> sorted_wrt (<) (map Priority (st_Best st))" if k: "r' k = Some st" for k st
  proof -
    from D(5) [of k] k obtain st0 where st0: "r k = Some st0" by auto
    with D(6) k obtain st1 where s: "checked (prune_merge (clock w) st0) st1" "st = remove_urls D st1"
      by fastforce
    note b = checked_best [OF s(1)]
    have "urls_of st \<inter> D = {}" by (auto simp: s(2) urls_of_def remove_urls_def)
    moreover have "Alive x \<and> URL x \<in> URL ` set (st_All st)" if "x \<in> set (st_Best st)" for x
      using that b(1) b(4) [of x] by (auto simp: s(2) remove_urls_def)
    moreover have "st_Discovered st = filter (\<lambda>dn. clock w < dn_ExpiresAt dn \<and> URL (dn_Node dn) \<notin> D)
        (st_Discovered st0)"
      using b(2) by (simp add: s(2) remove_urls_def prune_merge_def Let_def conj_commute)
    ultimately show ?thesis
      using b(1,3) by (simp add: st0 s(2) remove_urls_def sorted_wrt_filter_map)
  qed
  moreover have "dom r' = dom r" using D(5) by (auto simp: dom_def)
  ultimately show ?thesis
    using D(1,3,4) unfolding D(2) by (intro exI [of _ r1] exI [of _ c1] conjI allI impI) blast+
qed

subsection \<open>Instances\<close>

definition sol_network :: NetworkState where
  "sol_network =
     \<lparr>st_Protocol = ''sol'', st_Route = ''/s'', st_All = [plain_node ''a'' 1, plain_node ''b'' 2], st_Best = [],
      st_Discovered = [], st_TimeoutMs = 0, st_Gas = None\<rparr>"

definition sol_registry :: registry where
  "sol_registry = [''s'' \<mapsto> sol_network]"

lemma sol_pass:
  obtains w' where "health_pass half_alive [''s''] sol_registry (health_New []) new_world
     = Inr (SetBest ''s'' [mk_ping (plain_node ''a'' 1) True 0] sol_registry,
            (health_New [])\<lparr>dropURLs := {''b''}\<rparr>, w')"
proof -
  obtain w' where "UpdateNetwork half_alive sol_registry ''sol'' [plain_node ''a'' 1, plain_node ''b'' 2]
      (health_New []) new_world
    = Inr ([mk_ping (plain_node ''a'' 1) True 0], (health_New [])\<lparr>dropURLs := {''b''}\<rparr>, w')"
    by (rule half_alive_run)
  then have "health_pass half_alive [''s''] sol_registry (health_New []) new_world
     = Inr (SetBest ''s'' [mk_ping (plain_node ''a'' 1) True 0] sol_registry,
            (health_New [])\<lparr>dropURLs := {''b''}\<rparr>, set_gauges ''s'' sol_network 1 w')"
    by (simp add: sol_registry_def sol_network_def)
  with that show thesis .
qed

lemma sol_order: "is_order [''s''] sol_registry"
  by (auto simp: is_order_def sol_registry_def)

theorem pass_ends_witness:
  "\<not> (\<exists>s. runs half_alive loop_domains 8 (start_pass sol_registry (health_New []) new_world) s)"
proof -
  have d: "finite (dom sol_registry)" "distinct loop_domains" "sorted_list_of_set (dom sol_registry) = [''s'']"
    by (simp_all add: sol_registry_def loop_domains_def)
  show ?thesis
    using pass_ends [OF d(1,2), of half_alive "health_New []" new_world] d(3)
    by (auto simp: sol_registry_def sol_network_def)
qed

theorem pass_result_witness:
  "\<exists>s res. reached half_alive [] (start_pass sol_registry (health_New []) new_world) s \<and>
     length res = 2 \<and> pa_reg s ''s'' = Some (sol_network\<lparr>st_Best := PickFastestPerPriority res\<rparr>)"
proof -
  obtain w' where p: "health_pass half_alive [''s''] sol_registry (health_New []) new_world
     = Inr (SetBest ''s'' [mk_ping (plain_node ''a'' 1) True 0] sol_registry,
            (health_New [])\<lparr>dropURLs := {''b''}\<rparr>, w')" by (rule sol_pass)
  obtain s where s: "reached half_alive [] (start_pass sol_registry (health_New []) new_world) s" "active s = {}"
    by (rule health_pass_reached [OF p sol_order, of "[]"]) auto
  have "sol_registry ''s'' = Some sol_network" by (simp add: sol_registry_def)
  from pass_result [OF s this] obtain res best where
    "list_all2 (\<lambda>n b. \<exists>alive ping c1 w1 c2 w2. check_node (st_Protocol sol_network) half_alive n
        (perNodeTimeout sol_registry (st_Protocol sol_network)) c1 w1 = Inr ((alive, ping), c2, w2)
        \<and> b = mk_ping n alive ping \<and> prefix (sent new_world) (sent w1) \<and> prefix (sent w2) (sent (pa_world s)))
      (st_All sol_network) res"
    and r: "pa_reg s ''s'' = Some (sol_network\<lparr>st_Best := best\<rparr>)" "best = PickFastestPerPriority res"
    by (elim exE conjE)
  from list_all2_lengthD [OF this(1)] have "length res = 2" by (simp add: sol_network_def)
  with s(1) r show ?thesis by blast
qed

theorem gauges_after_pass_witness:
  "\<exists>s. reading (meters (pa_world s)) HealthyNodes ''s'' = 1 \<and> reading (meters (pa_world s)) TotalNodes ''s'' = 2
     \<and> reached half_alive [] (start_pass sol_registry (health_New []) new_world) s"
proof -
  obtain w' where p: "health_pass half_alive [''s''] sol_registry (health_New []) new_world
     = Inr (SetBest ''s'' [mk_ping (plain_node ''a'' 1) True 0] sol_registry,
            (health_New [])\<lparr>dropURLs := {''b''}\<rparr>, w')" by (rule sol_pass)
  obtain s where s: "reached half_alive [] (start_pass sol_registry (health_New []) new_world) s" "active s = {}"
    "pa_reg s = SetBest ''s'' [mk_ping (plain_node ''a'' 1) True 0] sol_registry"
    by (rule health_pass_reached [OF p sol_order, of "[]"]) auto
  have n: "sol_registry ''s'' = Some sol_network" "PruneAndMerge (clock new_world) sol_registry = sol_registry"
    by (auto simp: PruneAndMerge_def sol_registry_def sol_network_def prune_merge_def)
  have "pa_reg s ''s'' = Some (sol_network\<lparr>st_Best := [mk_ping (plain_node ''a'' 1) True 0]\<rparr>)"
    by (simp add: s(3) SetBest_def modify_apply n(1))
  with gauges_after_pass [of half_alive "[]" new_world sol_registry "health_New []" s "''s''" sol_network] s(1,2) n
  show ?thesis by (intro exI [of _ s]) (simp add: sol_network_def)
qed

theorem limiters_hold_witness:
  "\<exists>g. card {k. \<exists>pr tmo todo res.
     pa_task (start_pass sol_registry (health_New []) new_world) k = Probing g pr tmo todo res} \<le> 1"
proof -
  have "finite (dom sol_registry)" by (simp add: sol_registry_def)
  from limiters_hold [OF reached.here this, where g = "Domain ''tatum.io''"] show ?thesis
    by (intro exI [of _ "Domain ''tatum.io''"]) auto
qed

theorem tick_spec_witness:
  "\<exists>r' c' w' st. tick half_alive [''s''] sorted_list_of_set sol_registry (health_New []) new_world = Inr (r', c', w')
     \<and> dropURLs c' = {} \<and> dom r' = {''s''} \<and> r' ''s'' = Some st \<and> st_All st = [plain_node ''a'' 1]"
proof -
  obtain w' where p: "health_pass half_alive [''s''] sol_registry (health_New []) new_world
     = Inr (SetBest ''s'' [mk_ping (plain_node ''a'' 1) True 0] sol_registry,
            (health_New [])\<lparr>dropURLs := {''b''}\<rparr>, w')" by (rule sol_pass)
  have n: "PruneAndMerge (clock new_world) sol_registry = sol_registry"
    by (auto simp: PruneAndMerge_def sol_registry_def sol_network_def prune_merge_def)
  with p obtain r' c' where t:
    "tick half_alive [''s''] sorted_list_of_set sol_registry (health_New []) new_world = Inr (r', c', w')"
    by (simp add: tick_def DrainDropURLs_def del: health_pass.simps new_world_simps)
  have "finite (dropURLs (health_New []))" "drains sorted_list_of_set"
    by (simp_all add: health_New_def drains_def)
  note spec = tick_spec [OF t sol_order this, unfolded n p]
  then have d: "dropURLs c' = {}" "dom r' = {''s''}" by (auto simp: sol_registry_def)
  then obtain st where st: "r' ''s'' = Some st" by blast
  with spec have "st_All st = filter (\<lambda>n. URL n \<notin> {''b''}) (st_All (prune_merge 0 sol_network))"
    by (auto simp: sol_registry_def)
  then have "st_All st = [plain_node ''a'' 1]" by (simp add: prune_merge_def sol_network_def)
  with t d st show ?thesis by blast
qed

end
