(* ===== verification/Peers.thy ===== *)
theory Peers
  imports Http
begin

text \<open>
  pkg/peers: the store of known peers, keyed by ID, with a count of consecutive failures that
  evicts a peer at the second one. The store is a map; \<open>List\<close> returns its values in map order.
  The clients (gossip, bootstrap, start-up) rely on the laws of the locale \<open>peer_store\<close> only.
\<close>

record Peer =
  ID :: string
  Addr :: string
  Failures :: int

type_synonym peer_map = "string \<rightharpoonup> Peer"

definition NewStore :: peer_map where
  "NewStore = Map.empty"

definition peers_Add :: "Peer \<Rightarrow> peer_map \<Rightarrow> peer_map" where
  "peers_Add p s = s(ID p \<mapsto> p)"

definition peers_Remove :: "string \<Rightarrow> peer_map \<Rightarrow> peer_map" where
  "peers_Remove i s = s(i := None)"

definition peers_List :: "string list \<Rightarrow> peer_map \<Rightarrow> Peer list" where
  "peers_List ord s = visit ord s"

definition OnFailure :: "string \<Rightarrow> peer_map \<Rightarrow> peer_map" where
  "OnFailure i s =
     (case s i of
        None \<Rightarrow> s
      | Some p \<Rightarrow>
          (let p' = p\<lparr>Failures := i64 (Failures p + 1)\<rparr>
           in if 2 \<le> Failures p' then s(i := None) else s(i \<mapsto> p')))"

definition OnSuccess :: "string \<Rightarrow> peer_map \<Rightarrow> peer_map" where
  "OnSuccess i s = (case s i of None \<Rightarrow> s | Some p \<Rightarrow> s(i \<mapsto> p\<lparr>Failures := 0\<rparr>))"

definition peers_Exists :: "string \<Rightarrow> peer_map \<Rightarrow> bool" where
  "peers_Exists i s = (s i \<noteq> None)"

section \<open>The contract of a peer store\<close>

locale peer_store =
  fixes lookup :: "'s \<Rightarrow> string \<Rightarrow> Peer option"
    and add :: "Peer \<Rightarrow> 's \<Rightarrow> 's"
    and failed :: "string \<Rightarrow> 's \<Rightarrow> 's"
    and succeeded :: "string \<Rightarrow> 's \<Rightarrow> 's"
  assumes lookup_add: "lookup (add p s) i = (if i = ID p then Some p else lookup s i)"
    and lookup_failed_other: "i \<noteq> j \<Longrightarrow> lookup (failed j s) i = lookup s i"
    and lookup_failed_None: "lookup s j = None \<Longrightarrow> lookup (failed j s) j = None"
    and lookup_failed_first: "lookup s j = Some p \<Longrightarrow> Failures p = 0 \<Longrightarrow>
      lookup (failed j s) j = Some (p\<lparr>Failures := 1\<rparr>)"
    and lookup_failed_second: "lookup s j = Some p \<Longrightarrow> Failures p = 1 \<Longrightarrow> lookup (failed j s) j = None"
    and lookup_succeeded: "lookup (succeeded j s) i =
      (if i = j then map_option (\<lambda>p. p\<lparr>Failures := 0\<rparr>) (lookup s j) else lookup s i)"
begin

text \<open>Merging a list of peers: the last entry of an ID wins, the others stay.\<close>

lemma lookup_add_all:
  "lookup (fold add ps s) i = (lookup s ++ map_of (rev (map (\<lambda>p. (ID p, p)) ps))) i"
proof (induction ps arbitrary: s)
  case (Cons p ps)
  then show ?case by (simp add: lookup_add map_add_def split: option.split)
qed simp

lemma two_failures_evict:
  assumes "lookup s j = Some p" "Failures p = 0"
  shows "lookup (failed j (failed j s)) j = None"
  using lookup_failed_second [OF lookup_failed_first [OF assms]] by simp

lemma success_between:
  assumes "lookup s j = Some p" "Failures p = 0"
  shows "lookup (failed j (succeeded j (failed j s))) j = Some (p\<lparr>Failures := 1\<rparr>)"
proof -
  have "lookup (succeeded j (failed j s)) j = Some (p\<lparr>Failures := 0\<rparr>)"
    by (simp add: lookup_succeeded lookup_failed_first [OF assms])
  from lookup_failed_first [OF this] show ?thesis by simp
qed

end

interpretation pm: peer_store "\<lambda>s. s" peers_Add OnFailure OnSuccess
proof
  fix s :: peer_map and j p
  assume "s j = Some p" "Failures p = 0"
  then show "OnFailure j s j = Some (p\<lparr>Failures := 1\<rparr>)"
    by (simp add: OnFailure_def Let_def in_i64_def)
next
  fix s :: peer_map and j p
  assume "s j = Some p" "Failures p = 1"
  then show "OnFailure j s j = None"
    by (simp add: OnFailure_def Let_def in_i64_def)
qed (auto simp: peers_Add_def OnFailure_def OnSuccess_def Let_def split: option.splits)

section \<open>The store's invariant\<close>

definition store_wf :: "peer_map \<Rightarrow> bool" where
  "store_wf s \<longleftrightarrow> (\<forall>i p. s i = Some p \<longrightarrow> ID p = i)"

lemma store_wf_simps [intro]:
  "store_wf NewStore"
  "store_wf s \<Longrightarrow> store_wf (peers_Add p s)"
  "store_wf s \<Longrightarrow> store_wf (peers_Remove i s)"
  "store_wf s \<Longrightarrow> store_wf (OnFailure i s)"
  "store_wf s \<Longrightarrow> store_wf (OnSuccess i s)"
  by (auto simp: store_wf_def NewStore_def peers_Add_def peers_Remove_def OnFailure_def
      OnSuccess_def Let_def split: option.splits if_splits)

lemma store_wf_fold: "store_wf s \<Longrightarrow> store_wf (fold peers_Add ps s)"
  by (induction ps arbitrary: s) auto

text \<open>A well-formed store lists each peer once.\<close>

lemma peers_List_IDs:
  assumes "store_wf s" "set ord \<subseteq> dom s"
  shows "map ID (peers_List ord s) = ord"
  using assms(2)
  by (induction ord) (use assms(1) in \<open>auto simp: peers_List_def store_wf_def\<close>)

lemma peers_List_set: "is_order ord s \<Longrightarrow> set (peers_List ord s) = ran s"
  by (simp add: peers_List_def set_visit_ran)

section \<open>Properties\<close>

text \<open>
  A peer is dropped at its second failure in a row: two failures remove it, a success in
  between resets the count, and other peers are not touched.
\<close>
theorem second_failure_evicts:
  assumes "s i = Some p" "Failures p = 0"
  shows "OnFailure i (OnFailure i s) i = None
    \<and> OnFailure i (OnSuccess i (OnFailure i s)) i = Some (p\<lparr>Failures := 1\<rparr>)
    \<and> (\<forall>j. j \<noteq> i \<longrightarrow> OnFailure i (OnFailure i s) j = s j)"
  using pm.two_failures_evict [of s i p, OF assms] pm.success_between [of s i p, OF assms] pm.lookup_failed_other by simp

theorem second_failure_evicts_witness:
  "OnFailure ''p'' (OnFailure ''p'' [''p'' \<mapsto> \<lparr>ID = ''p'', Addr = ''h:1'', Failures = 0\<rparr>]) ''p'' = None"
  using second_failure_evicts [of "[''p'' \<mapsto> \<lparr>ID = ''p'', Addr = ''h:1'', Failures = 0\<rparr>]" "''p''"] by simp

end
