(* ===== verification/Leader.thy ===== *)
theory Leader
  imports Peers
begin

text \<open>
  pkg/leader: the leader is the peer with the least ID; it records and sends heartbeats, the
  others check the age of its last one. The package state is the map of last heartbeats, in
  seconds. \<open>HeartbeatLoop\<close> runs forever; \<open>heartbeat_round\<close> is one pass of its body.
\<close>

type_synonym heartbeats = "string \<rightharpoonup> int"

definition Elect :: "Peer list \<Rightarrow> string" where
  "Elect ps =
     (if ps = [] then []
      else foldl (\<lambda>least p. if ID p < least then ID p else least) (ID (hd ps)) ps)"

definition RecordHeartbeat :: "string \<Rightarrow> int \<Rightarrow> heartbeats \<Rightarrow> heartbeats" where
  "RecordHeartbeat i ts hb = hb(i \<mapsto> ts)"

text \<open>\<open>time.Since\<close> saturates at the ends of the range of a \<open>Duration\<close>.\<close>

definition Since :: "int \<Rightarrow> int \<Rightarrow> int" where
  "Since now t = max (- (2 ^ 63)) (min (2 ^ 63 - 1) (now - t))"

definition IsLeaderAlive :: "string \<Rightarrow> int \<Rightarrow> int \<Rightarrow> heartbeats \<Rightarrow> bool" where
  "IsLeaderAlive i ttl now hb =
     (case hb i of None \<Rightarrow> False | Some ts \<Rightarrow> Since now (sec ts) < ttl)"

definition heartbeat_json :: "string \<Rightarrow> int \<Rightarrow> json" where
  "heartbeat_json i ts = JObj [(''leader_id'', JStr i), (''timestamp'', JInt ts)]"

text \<open>\<open>http.Post\<close> with the default client; a URL that does not parse is an error, not a panic.\<close>

definition bad_url_error :: net_error where
  "bad_url_error = \<lparr>as_dns = False, as_op = None, err_text = ''invalid URL''\<rparr>"

definition http_Post :: "env \<Rightarrow> string \<Rightarrow> string \<Rightarrow> world \<Rightarrow> reply \<times> world" where
  "http_Post E url b w =
     (if url_ok E url
      then client_do E \<lparr>rq_method = ''POST'', rq_url = url,
             rq_hdr = hset hempty ''Content-Type'' ''application/json'', rq_body = b,
             rq_timeout = 0, rq_tor = None\<rparr> w
      else (Failed bad_url_error, w))"

fun send_heartbeats :: "env \<Rightarrow> string \<Rightarrow> string \<Rightarrow> Peer list \<Rightarrow> world \<Rightarrow> world" where
  "send_heartbeats E selfID data [] w = w"
| "send_heartbeats E selfID data (p # ps) w =
     (if ID p = selfID then send_heartbeats E selfID data ps w
      else send_heartbeats E selfID data ps
             (snd (http_Post E (''http://'' @ Addr p @ ''/heartbeat'') data w)))"

definition heartbeat_round ::
  "env \<Rightarrow> string \<Rightarrow> int \<Rightarrow> Peer list \<Rightarrow> heartbeats \<Rightarrow> world \<Rightarrow> heartbeats \<times> world \<times> bool" where
  "heartbeat_round E selfID ttl plist hb w =
     (let leaderID = Elect plist
      in if leaderID = selfID
         then (let ts = clock w div sec 1; data = Marshal (heartbeat_json selfID ts)
               in (RecordHeartbeat selfID ts hb, send_heartbeats E selfID data plist w, False))
         else (hb, w, \<not> IsLeaderAlive leaderID ttl (clock w) hb))"

text \<open>The inbound handler.\<close>

definition d_heartbeat :: "(string \<times> int) decoder" where
  "d_heartbeat = d_object (\<lambda>kvs (i, ts).
     (case field ''leader_id'' d_string kvs i of None \<Rightarrow> None
      | Some i' \<Rightarrow> (case field ''timestamp'' d_int kvs ts of None \<Rightarrow> None
                   | Some ts' \<Rightarrow> Some (i', ts'))))"

definition leader_Handler :: "incoming \<Rightarrow> heartbeats \<Rightarrow> response \<times> heartbeats" where
  "leader_Handler r hb =
     (if in_method r \<noteq> ''POST'' then (bare 405, hb)
      else case decode_into d_heartbeat ([], 0) (in_body r) of
             None \<Rightarrow> (bare 400, hb)
           | Some (i, ts) \<Rightarrow> (bare 200, RecordHeartbeat i ts hb))"

section \<open>Every node elects the same leader\<close>

lemma Elect_foldl:
  "foldl (\<lambda>least p. if ID p < least then ID p else least) x ps = Min (insert x (ID ` set ps))"
proof (induction ps arbitrary: x)
  case (Cons p ps)
  have "(if ID p < x then ID p else x) = min x (ID p)" by (auto simp: min_def)
  then have "foldl (\<lambda>least p. if ID p < least then ID p else least) x (p # ps)
      = Min (insert (min x (ID p)) (ID ` set ps))"
    by (simp only: foldl_Cons Cons.IH)
  then show ?case
    by (cases "ps = []") (simp_all add: min.assoc)
qed simp

lemma Elect_Min: "ps \<noteq> [] \<Longrightarrow> Elect ps = Min (ID ` set ps)"
  by (cases ps) (simp_all add: Elect_def Elect_foldl)

lemma Elect_cong: "set ps = set qs \<Longrightarrow> Elect ps = Elect qs"
  by (metis Elect_Min set_empty)

section \<open>Heartbeats\<close>

definition heartbeat_request :: "string \<Rightarrow> Peer \<Rightarrow> request" where
  "heartbeat_request data p =
     \<lparr>rq_method = ''POST'', rq_url = ''http://'' @ Addr p @ ''/heartbeat'',
      rq_hdr = hset hempty ''Content-Type'' ''application/json'', rq_body = data,
      rq_timeout = 0, rq_tor = None\<rparr>"

lemma send_heartbeats_sent:
  "sent (send_heartbeats E selfID data ps w) =
     sent w @ map (heartbeat_request data)
       (filter (\<lambda>p. ID p \<noteq> selfID \<and> url_ok E (''http://'' @ Addr p @ ''/heartbeat'')) ps)"
proof (induction ps arbitrary: w)
  case (Cons p ps)
  then show ?case
    by (simp add: http_Post_def heartbeat_request_def)
qed simp

lemma heartbeat_round_leader:
  assumes "Elect plist = selfID"
  shows "heartbeat_round E selfID ttl plist hb w =
    (hb(selfID \<mapsto> clock w div sec 1),
     send_heartbeats E selfID (Marshal (heartbeat_json selfID (clock w div sec 1))) plist w, False)"
  using assms by (simp add: heartbeat_round_def Let_def RecordHeartbeat_def)

lemma d_heartbeat_json:
  "in_i64 ts \<Longrightarrow> d_heartbeat (heartbeat_json i ts) z = Some (i, ts)"
  by (cases z) (simp add: d_heartbeat_def heartbeat_json_def d_object_def)

section \<open>Properties\<close>

text \<open>
  The leader is the peer with the least ID, so all nodes that know the same peers elect the
  same leader, in whatever order their maps list them.
\<close>
theorem Elect_agreement:
  assumes "set ps = set qs" "ps \<noteq> []"
  shows "Elect ps = Elect qs \<and> Elect ps \<in> ID ` set ps \<and> (\<forall>p \<in> set ps. Elect ps \<le> ID p)"
proof -
  have "ID ` set ps \<noteq> {}" "finite (ID ` set ps)" using assms(2) by simp_all
  then have "Elect ps \<in> ID ` set ps" "\<forall>p \<in> set ps. Elect ps \<le> ID p"
    unfolding Elect_Min [OF assms(2)] by (rule Min_in [rotated], auto)
  with Elect_cong [OF assms(1)] show ?thesis by blast
qed

theorem Elect_agreement_witness:
  "Elect [\<lparr>ID = ''b'', Addr = ''h:1'', Failures = 0\<rparr>, \<lparr>ID = ''a'', Addr = ''h:2'', Failures = 0\<rparr>]
   = Elect [\<lparr>ID = ''a'', Addr = ''h:2'', Failures = 0\<rparr>, \<lparr>ID = ''b'', Addr = ''h:1'', Failures = 0\<rparr>]"
  using Elect_agreement [of "[\<lparr>ID = ''b'', Addr = ''h:1'', Failures = 0\<rparr>, \<lparr>ID = ''a'', Addr = ''h:2'', Failures = 0\<rparr>]"
    "[\<lparr>ID = ''a'', Addr = ''h:2'', Failures = 0\<rparr>, \<lparr>ID = ''b'', Addr = ''h:1'', Failures = 0\<rparr>]"]
  by (simp add: insert_commute)

text \<open>
  A round of the leader sends one heartbeat, with the current time, to every other peer whose
  address is a host, and records its own; a round of a follower sends nothing and asks for a new
  election exactly when the leader's last heartbeat is too old.
\<close>
theorem heartbeat_round_spec:
  "heartbeat_round E selfID ttl ps hb w =
     (if Elect ps = selfID
      then let ts = clock w div sec 1;
               w' = send_heartbeats E selfID (Marshal (heartbeat_json selfID ts)) ps w
           in (hb(selfID \<mapsto> ts), w', False)
      else (hb, w, \<not> IsLeaderAlive (Elect ps) ttl (clock w) hb))
   \<and> sent (send_heartbeats E selfID d ps w) = sent w @ map (heartbeat_request d)
       [p \<leftarrow> ps. ID p \<noteq> selfID \<and> url_ok E (''http://'' @ Addr p @ ''/heartbeat'')]"
  by (simp add: heartbeat_round_leader send_heartbeats_sent Let_def)
    (simp add: heartbeat_round_def)

end
