(* ===== verification/Gossip.thy ===== *)
theory Gossip
  imports Registry Leader
begin

text \<open>
  pkg/gossip: the exchange of peer lists (gossip.go) and of network state (state.go). Both senders
  are endless ticker loops; \<open>gossip_tick\<close> and \<open>publish_tick\<close> are one tick. The handlers take the
  decoded message through the decoders below.
\<close>

section \<open>Messages\<close>

record NodeAdvert =
  na_URL :: string
  na_Priority :: int
  na_Protocol :: string
  na_Alive :: bool
  na_Ping :: int

record NetworkAdvert =
  ad_Name :: string
  ad_Protocol :: string
  ad_Nodes :: "NodeAdvert list"
  ad_Ts :: int

record GossipMessage =
  gm_From :: string
  gm_Peers :: "Peer list"

record StateMessage =
  sm_From :: string
  sm_Networks :: "NetworkAdvert list"

definition peer_json :: "Peer \<Rightarrow> json" where
  "peer_json p =
     JObj [(''id'', JStr (ID p)), (''addr'', JStr (Addr p)), (''Failures'', JInt (Failures p))]"

definition gossip_json :: "GossipMessage \<Rightarrow> json" where
  "gossip_json m = JObj [(''from'', JStr (gm_From m)), (''peers'', JArr (map peer_json (gm_Peers m)))]"

definition d_peer :: "Peer decoder" where
  "d_peer = d_object (\<lambda>kvs p.
     Option.bind (field ''id'' d_string kvs (ID p)) (\<lambda>i.
     Option.bind (field ''addr'' d_string kvs (Addr p)) (\<lambda>a.
     Option.bind (field ''Failures'' d_int kvs (Failures p)) (\<lambda>f.
       Some (p\<lparr>ID := i, Addr := a, Failures := f\<rparr>)))))"

definition zero_peer :: Peer where
  "zero_peer = \<lparr>ID = [], Addr = [], Failures = 0\<rparr>"

definition d_gossip :: "GossipMessage decoder" where
  "d_gossip = d_object (\<lambda>kvs m.
     Option.bind (field ''from'' d_string kvs (gm_From m)) (\<lambda>f.
     Option.bind (field ''peers'' (d_list d_peer zero_peer) kvs (gm_Peers m)) (\<lambda>ps.
       Some (m\<lparr>gm_From := f, gm_Peers := ps\<rparr>))))"

definition zero_gossip :: GossipMessage where
  "zero_gossip = \<lparr>gm_From = [], gm_Peers = []\<rparr>"

definition advert_json :: "NodeAdvert \<Rightarrow> json" where
  "advert_json a =
     JObj [(''url'', JStr (na_URL a)), (''priority'', JInt (na_Priority a)),
           (''protocol'', JStr (na_Protocol a)), (''alive'', JBool (na_Alive a)),
           (''ping'', JInt (na_Ping a))]"

text \<open>A nil slice is written \<open>null\<close>: \<open>buildAdvert\<close> leaves \<open>nodes\<close> nil for a network without a best node.\<close>

definition network_json :: "NetworkAdvert \<Rightarrow> json" where
  "network_json n =
     JObj [(''name'', JStr (ad_Name n)), (''protocol'', JStr (ad_Protocol n)),
           (''nodes'', if ad_Nodes n = [] then JNull else JArr (map advert_json (ad_Nodes n))),
           (''ts'', JInt (ad_Ts n))]"

definition state_json :: "StateMessage \<Rightarrow> json" where
  "state_json m =
     JObj [(''from'', JStr (sm_From m)), (''networks'', JArr (map network_json (sm_Networks m)))]"

definition d_advert :: "NodeAdvert decoder" where
  "d_advert = d_object (\<lambda>kvs a.
     Option.bind (field ''url'' d_string kvs (na_URL a)) (\<lambda>u.
     Option.bind (field ''priority'' d_int kvs (na_Priority a)) (\<lambda>p.
     Option.bind (field ''protocol'' d_string kvs (na_Protocol a)) (\<lambda>pr.
     Option.bind (field ''alive'' d_bool kvs (na_Alive a)) (\<lambda>al.
     Option.bind (field ''ping'' d_int kvs (na_Ping a)) (\<lambda>pi.
       Some \<lparr>na_URL = u, na_Priority = p, na_Protocol = pr, na_Alive = al, na_Ping = pi\<rparr>))))))"

definition zero_advert :: NodeAdvert where
  "zero_advert = \<lparr>na_URL = [], na_Priority = 0, na_Protocol = [], na_Alive = False, na_Ping = 0\<rparr>"

definition d_network :: "NetworkAdvert decoder" where
  "d_network = d_object (\<lambda>kvs n.
     Option.bind (field ''name'' d_string kvs (ad_Name n)) (\<lambda>nm.
     Option.bind (field ''protocol'' d_string kvs (ad_Protocol n)) (\<lambda>pr.
     Option.bind (field ''nodes'' (d_list d_advert zero_advert) kvs (ad_Nodes n)) (\<lambda>ns.
     Option.bind (field ''ts'' d_int kvs (ad_Ts n)) (\<lambda>ts.
       Some \<lparr>ad_Name = nm, ad_Protocol = pr, ad_Nodes = ns, ad_Ts = ts\<rparr>)))))"

definition zero_network :: NetworkAdvert where
  "zero_network = \<lparr>ad_Name = [], ad_Protocol = [], ad_Nodes = [], ad_Ts = 0\<rparr>"

definition d_state :: "StateMessage decoder" where
  "d_state = d_object (\<lambda>kvs m.
     Option.bind (field ''from'' d_string kvs (sm_From m)) (\<lambda>f.
     Option.bind (field ''networks'' (d_list d_network zero_network) kvs (sm_Networks m)) (\<lambda>ns.
       Some \<lparr>sm_From = f, sm_Networks = ns\<rparr>)))"

definition zero_state :: StateMessage where
  "zero_state = \<lparr>sm_From = [], sm_Networks = []\<rparr>"

section \<open>Reading what was written\<close>

lemma d_peer_json [simp]: "in_i64 (Failures p) \<Longrightarrow> d_peer (peer_json p) z = Some p"
  by (cases z) (simp add: d_peer_def peer_json_def d_object_def)

lemma d_elems_peers:
  "\<forall>p \<in> set ps. in_i64 (Failures p) \<Longrightarrow> d_elems d_peer z (map peer_json ps) = Some ps"
  by (induction ps) auto

lemma d_gossip_json [simp]:
  "\<forall>p \<in> set (gm_Peers m). in_i64 (Failures p) \<Longrightarrow> d_gossip (gossip_json m) z = Some m"
  by (cases z) (simp add: d_gossip_def gossip_json_def d_object_def d_list_def d_elems_peers)

definition peer_ok :: "Peer \<Rightarrow> bool" where
  "peer_ok p \<longleftrightarrow> valid_utf8 (ID p) \<and> valid_utf8 (Addr p) \<and> in_i64 (Failures p)"

definition advert_ok :: "NodeAdvert \<Rightarrow> bool" where
  "advert_ok a \<longleftrightarrow> valid_utf8 (na_URL a) \<and> valid_utf8 (na_Protocol a) \<and> in_i64 (na_Priority a)
     \<and> in_i64 (na_Ping a)"

definition network_ok :: "NetworkAdvert \<Rightarrow> bool" where
  "network_ok n \<longleftrightarrow> valid_utf8 (ad_Name n) \<and> valid_utf8 (ad_Protocol n) \<and> list_all advert_ok (ad_Nodes n)
     \<and> in_i64 (ad_Ts n)"

lemma peer_json_wf: "peer_ok p \<Longrightarrow> wf_json (peer_json p)" "depth (peer_json p) = 1"
  by (simp_all add: peer_json_def peer_ok_def)

lemma peers_json_wf:
  "list_all peer_ok ps \<Longrightarrow> wf_json (JArr (map peer_json ps))" "depth (JArr (map peer_json ps)) \<le> 2"
  using depth_JArr_le [of "map peer_json ps" 1] by (auto simp: list_all_iff peer_json_wf)

lemma advert_json_wf: "advert_ok a \<Longrightarrow> wf_json (advert_json a)" "depth (advert_json a) = 1"
  by (simp_all add: advert_json_def advert_ok_def)

lemma d_advert_json [simp]: "advert_ok a \<Longrightarrow> d_advert (advert_json a) z = Some a"
  by (cases z) (simp add: d_advert_def advert_json_def d_object_def advert_ok_def d_bool_def)

lemma d_elems_adverts: "list_all advert_ok as \<Longrightarrow> d_elems d_advert z (map advert_json as) = Some as"
  by (induction as) auto

lemma network_json_wf:
  "network_ok n \<Longrightarrow> wf_json (network_json n)" "depth (network_json n) \<le> 3"
  using depth_JArr_le [of "map advert_json (ad_Nodes n)" 1]
  by (auto simp: network_json_def network_ok_def list_all_iff advert_json_wf)

lemma d_network_json [simp]: "network_ok n \<Longrightarrow> d_network (network_json n) zero_network = Some n"
  by (cases n) (auto simp: d_network_def network_json_def d_object_def network_ok_def d_list_def d_elems_adverts
      zero_network_def)

lemma d_elems_networks:
  "list_all network_ok ns \<Longrightarrow> d_elems d_network zero_network (map network_json ns) = Some ns"
  by (induction ns) auto

lemma state_json_wf:
  assumes "valid_utf8 (sm_From m)" "list_all network_ok (sm_Networks m)"
  shows "wf_json (state_json m)" "depth (state_json m) \<le> 5"
  using assms depth_JArr_le [of "map network_json (sm_Networks m)" 3]
  by (auto simp: state_json_def list_all_iff network_json_wf)

lemma d_state_json [simp]:
  "list_all network_ok (sm_Networks m) \<Longrightarrow> d_state (state_json m) zero_state = Some m"
  by (cases m) (simp add: d_state_def state_json_def d_object_def d_list_def d_elems_networks)

lemma decode_state:
  assumes "valid_utf8 (sm_From m)" "list_all network_ok (sm_Networks m)"
  shows "decode_into d_state zero_state (Marshal (state_json m)) = Some m"
  using decode_into_Marshal [OF state_json_wf(1) [OF assms], of "[]" d_state zero_state]
    state_json_wf(2) [OF assms] assms
  by (simp add: maxNestingDepth_def)

lemma decode_gossip:
  assumes "valid_utf8 (gm_From m)" "list_all peer_ok (gm_Peers m)"
  shows "decode_into d_gossip zero_gossip (Marshal (gossip_json m)) = Some m"
proof -
  have "wf_json (gossip_json m)" "depth (gossip_json m) \<le> 3"
    using assms peers_json_wf [of "gm_Peers m"] by (simp_all add: gossip_json_def)
  with assms(2) decode_into_Marshal [of "gossip_json m" "[]" d_gossip zero_gossip] show ?thesis
    by (simp add: maxNestingDepth_def list_all_iff peer_ok_def)
qed

section \<open>What is read has its type\<close>

lemma zeros_ok [simp]: "peer_ok zero_peer" "advert_ok zero_advert" "network_ok zero_network"
  by (simp_all add: peer_ok_def zero_peer_def advert_ok_def zero_advert_def network_ok_def zero_network_def in_i64_def)

interpretation peer: typed_elements d_peer peer_ok zero_peer
  by unfold_locales (rule zeros_ok | (auto simp: d_peer_def peer_ok_def bind_eq_Some_conv elim!: d_object_typed;
      (erule (2) strings.field_typed ints.field_typed)+))+

interpretation advert: typed_elements d_advert advert_ok zero_advert
  by unfold_locales (rule zeros_ok | (auto simp: d_advert_def advert_ok_def bind_eq_Some_conv elim!: d_object_typed;
      (erule (2) strings.field_typed ints.field_typed)+))+

interpretation network: typed_elements d_network network_ok zero_network
  by unfold_locales (rule zeros_ok | (auto simp: d_network_def network_ok_def bind_eq_Some_conv elim!: d_object_typed;
      (erule (2) strings.field_typed ints.field_typed advert.elements.field_typed)+))+

definition gossip_ok :: "GossipMessage \<Rightarrow> bool" where
  "gossip_ok m \<longleftrightarrow> valid_utf8 (gm_From m) \<and> list_all peer_ok (gm_Peers m)"

definition state_ok :: "StateMessage \<Rightarrow> bool" where
  "state_ok m \<longleftrightarrow> valid_utf8 (sm_From m) \<and> list_all network_ok (sm_Networks m)"

interpretation gossip: typed_decoder d_gossip gossip_ok
  by unfold_locales (auto simp: d_gossip_def gossip_ok_def bind_eq_Some_conv elim!: d_object_typed;
      (erule (2) strings.field_typed peer.elements.field_typed)+)

interpretation state: typed_decoder d_state state_ok
  by unfold_locales (auto simp: d_state_def state_ok_def bind_eq_Some_conv elim!: d_object_typed;
      (erule (2) strings.field_typed network.elements.field_typed)+)

section \<open>Peer gossip\<close>

text \<open>One tick of \<open>Start\<close>: \<open>ord\<close> is the map order of \<open>List\<close>, \<open>i\<close> the value of \<open>rand.Intn\<close>.\<close>

definition gossip_tick ::
  "env \<Rightarrow> string \<Rightarrow> string list \<Rightarrow> nat \<Rightarrow> peer_map \<Rightarrow> world \<Rightarrow> peer_map \<times> world" where
  "gossip_tick E selfID ord i s w =
     (let plist = peers_List ord s
      in if length plist \<le> 1 then (s, w)
         else let target = plist ! i
              in if ID target = selfID then (s, w)
                 else let data = Marshal (gossip_json \<lparr>gm_From = selfID, gm_Peers = plist\<rparr>)
                      in case http_Post E (''http://'' @ Addr target @ ''/gossip'') data w of
                           (Failed e, w') \<Rightarrow> (OnFailure (ID target) s, w')
                         | (Got rs, w') \<Rightarrow> (OnSuccess (ID target) s, w'))"

definition gossip_Handler :: "incoming \<Rightarrow> peer_map \<Rightarrow> response \<times> peer_map" where
  "gossip_Handler r s =
     (if in_method r \<noteq> ''POST'' then (bare 405, s)
      else case decode_into d_gossip zero_gossip (in_body r) of
             None \<Rightarrow> (bare 400, s)
           | Some m \<Rightarrow> (bare 200, fold peers_Add (gm_Peers m) s))"

text \<open>
  A store whose peers have UTF-8 texts and a count in int64. What a tick sends is then read back as it
  was sent.
\<close>

definition peers_typed :: "peer_map \<Rightarrow> bool" where
  "peers_typed s \<longleftrightarrow> (\<forall>i p. s i = Some p \<longrightarrow> peer_ok p)"

lemma peers_typed_simps [intro]:
  "peers_typed NewStore"
  "peer_ok p \<Longrightarrow> peers_typed s \<Longrightarrow> peers_typed (peers_Add p s)"
  "peers_typed s \<Longrightarrow> peers_typed (peers_Remove i s)"
  "peers_typed s \<Longrightarrow> peers_typed (OnFailure i s)"
  "peers_typed s \<Longrightarrow> peers_typed (OnSuccess i s)"
  by (auto simp: peers_typed_def NewStore_def peers_Add_def peers_Remove_def OnFailure_def OnSuccess_def
      Let_def peer_ok_def split: option.splits) (simp_all add: in_i64_def)

lemma peers_typed_fold: "list_all peer_ok ps \<Longrightarrow> peers_typed s \<Longrightarrow> peers_typed (fold peers_Add ps s)"
  by (induction ps arbitrary: s) auto

lemma peers_typed_List: "peers_typed s \<Longrightarrow> list_all peer_ok (peers_List ord s)"
  by (auto simp: peers_typed_def peers_List_def list_all_iff visit_def List.map_filter_def split: option.splits)

lemma gossip_Handler_typed: "gossip_Handler rq s = (rs, s') \<Longrightarrow> peers_typed s \<Longrightarrow> peers_typed s'"
proof -
  have "gossip_ok zero_gossip" by (simp add: gossip_ok_def zero_gossip_def)
  then show "gossip_Handler rq s = (rs, s') \<Longrightarrow> peers_typed s \<Longrightarrow> peers_typed s'"
    by (auto simp: gossip_Handler_def gossip_ok_def intro: peers_typed_fold dest!: gossip.decode_typed
        split: if_splits option.splits)
qed

section \<open>State gossip\<close>

definition advert_of :: "string \<Rightarrow> NodeWithPing \<Rightarrow> NodeAdvert" where
  "advert_of proto n =
     \<lparr>na_URL = URL n, na_Priority = Priority n, na_Protocol = proto, na_Alive = Alive n,
      na_Ping = Ping n\<rparr>"

definition buildAdvert :: "string \<Rightarrow> string list \<Rightarrow> int \<Rightarrow> registry \<Rightarrow> StateMessage" where
  "buildAdvert selfID ord now r =
     \<lparr>sm_From = selfID,
      sm_Networks = List.map_filter (\<lambda>name. map_option (\<lambda>st.
        \<lparr>ad_Name = name, ad_Protocol = st_Protocol st,
         ad_Nodes = map (advert_of (st_Protocol st)) (st_Best st), ad_Ts = now div sec 1\<rparr>)
        (reg_All r name)) ord\<rparr>"

text \<open>One tick of \<open>Publisher\<close>; the peer is picked by the clock, \<open>int(UnixNano) % len\<close>.\<close>

definition publish_tick ::
  "env \<Rightarrow> string \<Rightarrow> string list \<Rightarrow> string list \<Rightarrow> registry \<Rightarrow> peer_map \<Rightarrow> world \<Rightarrow> world" where
  "publish_tick E selfID pord nord r s w =
     (let plist = peers_List pord s
      in if length plist \<le> 1 then w
         else let peer = plist ! nat (clock w mod int (length plist));
                  data = Marshal (state_json (buildAdvert selfID nord (clock w) r))
              in snd (http_Post E (''http://'' @ Addr peer @ ''/gossip-state'') data w))"

text \<open>
  \<open>StateHandler\<close>. For each advertised node that is not in the network's nodes the inner loop runs
  over the whole advert again and appends every such node, up to 20 entries. \<open>exists\<close> is computed
  once, from the nodes known before.
\<close>

definition maxDiscovered :: nat where
  "maxDiscovered = 20"

definition discover :: "int \<Rightarrow> NodeAdvert \<Rightarrow> DiscoveredNode" where
  "discover now a =
     \<lparr>dn_Node = \<lparr>URL = na_URL a, Priority = na_Priority a, Headers = Some [], Tor = False\<rparr>,
      dn_ExpiresAt = now + sec 600\<rparr>"

fun append_new ::
  "int \<Rightarrow> string set \<Rightarrow> NodeAdvert list \<Rightarrow> DiscoveredNode list \<Rightarrow> DiscoveredNode list" where
  "append_new now known [] ds = ds"
| "append_new now known (a # as) ds =
     (if na_URL a \<in> known then append_new now known as ds
      else if maxDiscovered \<le> length ds then append_new now known as ds
      else append_new now known as (ds @ [discover now a]))"

fun merge_advert ::
  "int \<Rightarrow> string set \<Rightarrow> NodeAdvert list \<Rightarrow> NodeAdvert list \<Rightarrow> DiscoveredNode list
     \<Rightarrow> DiscoveredNode list" where
  "merge_advert now known whole [] ds = ds"
| "merge_advert now known whole (a # as) ds =
     (if na_URL a \<notin> known then merge_advert now known whole as (append_new now known whole ds)
      else merge_advert now known whole as ds)"

definition merge_network :: "int \<Rightarrow> NetworkAdvert \<Rightarrow> registry \<Rightarrow> registry" where
  "merge_network now adv r =
     modify (ad_Name adv) (\<lambda>st. st\<lparr>st_Discovered :=
       merge_advert now (URL ` set (st_All st)) (ad_Nodes adv) (ad_Nodes adv) (st_Discovered st)\<rparr>) r"

definition StateHandler :: "int \<Rightarrow> incoming \<Rightarrow> registry \<Rightarrow> response \<times> registry" where
  "StateHandler now r reg =
     (if in_method r \<noteq> ''POST'' then (bare 405, reg)
      else case decode_into d_state zero_state (in_body r) of
             None \<Rightarrow> (bare 400, reg)
           | Some m \<Rightarrow> (bare 200, fold (merge_network now) (sm_Networks m) reg))"

section \<open>Facts about the merging of adverts\<close>

lemma append_new_bound: "length (append_new now known as ds) \<le> max maxDiscovered (length ds)"
  by (induction now known as ds rule: append_new.induct) auto

lemma merge_advert_bound:
  "length (merge_advert now known whole as ds) \<le> max maxDiscovered (length ds)"
proof (induction now known whole as ds rule: merge_advert.induct)
  case (2 now known whole a as ds)
  then show ?case using append_new_bound [of now known whole ds] by auto
qed simp

lemma append_new_unknown:
  "d \<in> set (append_new now known as ds) \<Longrightarrow>
     d \<in> set ds \<or> (\<exists>a \<in> set as. d = discover now a \<and> na_URL a \<notin> known)"
  by (induction now known as ds rule: append_new.induct) (auto split: if_splits)

lemma merge_advert_unknown:
  "d \<in> set (merge_advert now known whole as ds) \<Longrightarrow>
     d \<in> set ds \<or> (\<exists>a \<in> set whole. d = discover now a \<and> na_URL a \<notin> known)"
  by (induction now known whole as ds rule: merge_advert.induct)
    (auto split: if_splits dest: append_new_unknown)

lemma append_new_prefix: "prefix ds (append_new now known as ds)"
proof (induction now known as ds rule: append_new.induct)
  case (2 now known a as ds)
  then show ?case by (auto dest: append_prefixD)
qed simp

lemma merge_advert_prefix: "prefix ds (merge_advert now known whole as ds)"
proof (induction now known whole as ds rule: merge_advert.induct)
  case (2 now known whole a as ds)
  then show ?case using append_new_prefix prefix_order.order_trans by fastforce
qed simp

text \<open>The bound on the learnt nodes, for every network of a registry.\<close>

definition discovered_bounded :: "registry \<Rightarrow> bool" where
  "discovered_bounded r \<longleftrightarrow> (\<forall>k st. r k = Some st \<longrightarrow> length (st_Discovered st) \<le> maxDiscovered)"

lemma merge_network_bounded: "discovered_bounded r \<Longrightarrow> discovered_bounded (merge_network now adv r)"
  unfolding discovered_bounded_def
  by (auto simp: merge_network_def modify_apply intro!: order_trans [OF merge_advert_bound])

interpretation merge_wf: wf_op "merge_network now adv" for now adv
  by unfold_locales (auto simp: merge_network_def best_known_def intro!: reg_wf_modify)

interpretation merge_net: network_op "merge_network now adv" "ad_Name adv" for now adv
  by unfold_locales (simp_all add: merge_network_def)

lemma fold_merge_wf: "reg_wf r \<Longrightarrow> reg_wf (fold (merge_network now) ns r)"
  by (induction ns arbitrary: r) (auto intro: merge_wf.keeps)

lemma fold_merge_bounded: "discovered_bounded r \<Longrightarrow> discovered_bounded (fold (merge_network now) ns r)"
  by (induction ns arbitrary: r) (auto intro: merge_network_bounded)

definition post :: "string \<Rightarrow> string \<Rightarrow> incoming" where
  "post path body =
     \<lparr>in_method = ''POST'', in_escaped = path, in_path = path, in_query = [], in_param = (\<lambda>_. []), in_hdr = hempty,
      in_body = body\<rparr>"

section \<open>What is learnt\<close>

text \<open>What a state message does to one network: it learns nodes, at most twenty in all.\<close>

definition learnt :: "int \<Rightarrow> NetworkState \<Rightarrow> NetworkState \<Rightarrow> bool" where
  "learnt now st st' \<longleftrightarrow>
     (\<exists>new. st' = st\<lparr>st_Discovered := st_Discovered st @ new\<rparr>
        \<and> length (st_Discovered st @ new) \<le> max maxDiscovered (length (st_Discovered st))
        \<and> (\<forall>d \<in> set new. URL (dn_Node d) \<notin> URL ` set (st_All st) \<and> dn_ExpiresAt d = now + sec 600))"

lemma append_new_part:
  "\<exists>new. append_new now known as ds = ds @ new \<and> set new \<subseteq> {discover now a | a. na_URL a \<notin> known}"
proof (induction now known as ds rule: append_new.induct)
  case (2 now known a as ds)
  show ?case
  proof (cases "na_URL a \<in> known \<or> maxDiscovered \<le> length ds")
    case False
    with 2 obtain new where "append_new now known as (ds @ [discover now a]) = (ds @ [discover now a]) @ new"
      "set new \<subseteq> {discover now a | a. na_URL a \<notin> known}" by blast
    with False show ?thesis by (intro exI [of _ "discover now a # new"]) auto
  qed (use 2 in auto)
qed (auto intro: exI [of _ "[]"])

lemma merge_advert_part:
  "\<exists>new. merge_advert now known whole as ds = ds @ new \<and> set new \<subseteq> {discover now a | a. na_URL a \<notin> known}"
proof (induction now known whole as ds rule: merge_advert.induct)
  case (2 now known whole a as ds)
  show ?case
  proof (cases "na_URL a \<in> known")
    case False
    obtain new where n: "append_new now known whole ds = ds @ new"
      "set new \<subseteq> {discover now a | a. na_URL a \<notin> known}"
      using append_new_part by blast
    from 2(1) [OF False] n obtain new' where
      "merge_advert now known whole as (ds @ new) = (ds @ new) @ new'"
      "set new' \<subseteq> {discover now a | a. na_URL a \<notin> known}" by auto
    with n False show ?thesis by (intro exI [of _ "new @ new'"]) auto
  qed (use 2 in auto)
qed (auto intro: exI [of _ "[]"])

lemma learnt_refl [intro]: "learnt now st st"
  by (auto simp: learnt_def intro!: exI [of _ "[]"])

lemma learnt_trans:
  assumes "learnt now a b" "learnt now b c"
  shows "learnt now a c"
proof -
  from assms(1) obtain x where x: "b = a\<lparr>st_Discovered := st_Discovered a @ x\<rparr>"
    "length (st_Discovered a @ x) \<le> max maxDiscovered (length (st_Discovered a))"
    "\<forall>d \<in> set x. URL (dn_Node d) \<notin> URL ` set (st_All a) \<and> dn_ExpiresAt d = now + sec 600"
    by (auto simp: learnt_def)
  from assms(2) x(1) obtain y where y: "c = a\<lparr>st_Discovered := st_Discovered a @ x @ y\<rparr>"
    "length (st_Discovered a @ x @ y) \<le> max maxDiscovered (length (st_Discovered a @ x))"
    "\<forall>d \<in> set y. URL (dn_Node d) \<notin> URL ` set (st_All a) \<and> dn_ExpiresAt d = now + sec 600"
    by (auto simp: learnt_def)
  show ?thesis
    unfolding learnt_def
    by (rule exI [of _ "x @ y"]) (use x y in auto)
qed

lemma merge_network_learnt: "rel_option (learnt now) (r k) (merge_network now adv r k)"
proof (cases "k = ad_Name adv")
  case True
  show ?thesis
  proof (cases "r k")
    case (Some st)
    let ?m = "merge_advert now (URL ` set (st_All st)) (ad_Nodes adv) (ad_Nodes adv) (st_Discovered st)"
    obtain new where n: "?m = st_Discovered st @ new"
      "set new \<subseteq> {discover now a | a. na_URL a \<notin> URL ` set (st_All st)}"
      using merge_advert_part by blast
    then have "\<forall>d \<in> set new. URL (dn_Node d) \<notin> URL ` set (st_All st) \<and> dn_ExpiresAt d = now + sec 600"
      by (auto simp: discover_def)
    with n merge_advert_bound [of now "URL ` set (st_All st)" "ad_Nodes adv" "ad_Nodes adv" "st_Discovered st"]
    have "learnt now st (st\<lparr>st_Discovered := ?m\<rparr>)" unfolding learnt_def by auto
    with Some True show ?thesis by (simp add: merge_network_def)
  qed (simp add: merge_network_def True)
next
  case False
  then show ?thesis by (cases "r k") (auto simp: merge_network_def)
qed

lemma fold_merge_learnt: "rel_option (learnt now) (r k) (fold (merge_network now) ns r k)"
proof (induction ns arbitrary: r)
  case (Cons n ns)
  from merge_network_learnt [of now r k n] Cons.IH [of "merge_network now n r"] show ?case
    by (cases "r k"; cases "merge_network now n r k"; cases "fold (merge_network now) ns (merge_network now n r) k")
      (auto intro: learnt_trans)
next
  case Nil
  then show ?case by (cases "r k") auto
qed

section \<open>Delivery\<close>

text \<open>The URLs a network has learnt, and what is known there or found no room.\<close>

definition learnt_urls :: "DiscoveredNode list \<Rightarrow> string set" where
  "learnt_urls ds = (\<lambda>d. URL (dn_Node d)) ` set ds"

definition known_or_full :: "int \<Rightarrow> string set \<Rightarrow> DiscoveredNode list \<Rightarrow> string \<Rightarrow> bool" where
  "known_or_full now known ds u \<longleftrightarrow>
     u \<in> known \<or> (\<exists>d \<in> set ds. URL (dn_Node d) = u \<and> dn_ExpiresAt d = now + sec 600) \<or> maxDiscovered \<le> length ds"

lemma known_or_full_learnt:
  "known_or_full now known ds u \<Longrightarrow> u \<in> known \<or> u \<in> learnt_urls ds \<or> maxDiscovered \<le> length ds"
  by (auto simp: known_or_full_def learnt_urls_def image_iff)

lemma known_or_full_mono: "known_or_full now known ds u \<Longrightarrow> prefix ds ds' \<Longrightarrow> known_or_full now known ds' u"
  by (auto simp: known_or_full_def learnt_urls_def prefix_def)

lemma append_new_head: "known_or_full now known (append_new now known (a # as) ds) (na_URL a)"
proof -
  let ?ds' = "append_new now known (a # as) ds"
  consider "na_URL a \<in> known" | "maxDiscovered \<le> length ds"
    | "?ds' = append_new now known as (ds @ [discover now a])" by fastforce
  then show ?thesis
  proof cases
    case 2
    with append_new_prefix [of ds now known "a # as"] show ?thesis
      unfolding known_or_full_def using prefix_length_le order_trans by blast
  next
    case 3
    have "known_or_full now known (ds @ [discover now a]) (na_URL a)"
      by (simp add: known_or_full_def learnt_urls_def discover_def)
    with 3 append_new_prefix known_or_full_mono show ?thesis by metis
  qed (simp add: known_or_full_def)
qed

lemma append_new_delivers:
  "a \<in> set as \<Longrightarrow> known_or_full now known (append_new now known as ds) (na_URL a)"
proof (induction now known as ds rule: append_new.induct)
  case (2 now known b as ds)
  show ?case
  proof (cases "a = b")
    case True
    then show ?thesis using append_new_head by blast
  next
    case False
    with 2 show ?thesis by simp
  qed
qed simp

lemma merge_advert_delivers:
  "x \<in> set as \<Longrightarrow> na_URL x \<notin> known \<Longrightarrow> a \<in> set whole \<Longrightarrow>
     known_or_full now known (merge_advert now known whole as ds) (na_URL a)"
proof (induction now known whole as ds rule: merge_advert.induct)
  case (2 now known whole b as ds)
  have "known_or_full now known (merge_advert now known whole as (append_new now known whole ds)) (na_URL a)"
    using append_new_delivers [OF 2(5)] merge_advert_prefix known_or_full_mono by blast
  with 2 show ?case by auto
qed simp

lemma merge_network_delivers:
  assumes "a \<in> set (ad_Nodes adv)" "r (ad_Name adv) = Some st"
  obtains st' where "merge_network now adv r (ad_Name adv) = Some st'"
    "known_or_full now (URL ` set (st_All st)) (st_Discovered st') (na_URL a)"
proof -
  let ?d = "merge_advert now (URL ` set (st_All st)) (ad_Nodes adv) (ad_Nodes adv) (st_Discovered st)"
  have "known_or_full now (URL ` set (st_All st)) ?d (na_URL a)"
    using merge_advert_delivers [OF assms(1) _ assms(1)] by (cases "na_URL a \<in> URL ` set (st_All st)")
      (simp_all add: known_or_full_def)
  with assms(2) that show thesis by (simp add: merge_network_def)
qed

lemma learntD: "learnt now st st' \<Longrightarrow> st_All st' = st_All st \<and> prefix (st_Discovered st) (st_Discovered st')"
  by (auto simp: learnt_def)

lemma fold_merge_delivers:
  assumes "adv \<in> set ns" "a \<in> set (ad_Nodes adv)" "r (ad_Name adv) = Some st"
  obtains st' where "fold (merge_network now) ns r (ad_Name adv) = Some st'"
    "known_or_full now (URL ` set (st_All st)) (st_Discovered st') (na_URL a)"
proof -
  obtain xs ys where ns: "ns = xs @ adv # ys" using split_list [OF assms(1)] by blast
  let ?r1 = "fold (merge_network now) xs r" and ?r2 = "merge_network now adv (fold (merge_network now) xs r)"
  from fold_merge_learnt [of now r "ad_Name adv" xs] assms(3) obtain st1 where
    1: "?r1 (ad_Name adv) = Some st1" "learnt now st st1" by (auto simp: option_rel_Some1)
  obtain st2 where 2: "?r2 (ad_Name adv) = Some st2"
    "known_or_full now (URL ` set (st_All st1)) (st_Discovered st2) (na_URL a)"
    by (rule merge_network_delivers [where now = now and adv = adv and r = ?r1, OF assms(2) 1(1)])
  from fold_merge_learnt [of now ?r2 "ad_Name adv" ys] 2(1) obtain st3 where
    3: "fold (merge_network now) ys ?r2 (ad_Name adv) = Some st3" "learnt now st2 st3" by (auto simp: option_rel_Some1)
  with that 2(2) learntD [OF 1(2)] learntD [OF 3(2)] known_or_full_mono show thesis
    by (auto simp: ns)
qed

text \<open>The registries whose adverts survive the trip: names are UTF-8, numbers fit.\<close>

definition advertisable :: "registry \<Rightarrow> bool" where
  "advertisable r \<longleftrightarrow> (\<forall>k st. r k = Some st \<longrightarrow> valid_utf8 k \<and> valid_utf8 (st_Protocol st)
     \<and> (\<forall>b \<in> set (st_Best st). valid_utf8 (URL b) \<and> in_i64 (Priority b) \<and> in_i64 (Ping b)))"

lemma buildAdvert_ok:
  "advertisable r \<Longrightarrow> in_i64 (now div sec 1) \<Longrightarrow> list_all network_ok (sm_Networks (buildAdvert self ord now r))"
  by (auto simp: buildAdvert_def map_filter_def list_all_iff reg_All_def network_ok_def advert_ok_def
      advertisable_def advert_of_def)

lemma buildAdvert_network:
  assumes "is_order ord r" "r k = Some st"
  shows "\<lparr>ad_Name = k, ad_Protocol = st_Protocol st, ad_Nodes = map (advert_of (st_Protocol st)) (st_Best st),
    ad_Ts = now div sec 1\<rparr> \<in> set (sm_Networks (buildAdvert self ord now r))"
proof -
  have "k \<in> set ord" using assms by (auto simp: is_order_def)
  with assms(2) show ?thesis
    by (auto simp: buildAdvert_def map_filter_def reg_All_def intro!: image_eqI [of _ _ k])
qed

section \<open>Properties\<close>

text \<open>
  (C32) State gossip from one process to another. What \<open>Publisher\<close> sends is read back by the handler of
  state messages as it was written: the handler answers 200, and then the receiver knows every best node of the
  sender for each network both have, unless its twenty places for learnt nodes are taken.
\<close>
theorem gossip_delivers:
  assumes "advertisable r1" "valid_utf8 self" "in_i64 (now div sec 1)" "is_order ord r1"
    and "StateHandler now' (post path (Marshal (state_json (buildAdvert self ord now r1)))) r2 = (rs, r')"
    and "r1 k = Some st1" "r2 k = Some st2" "b \<in> set (st_Best st1)"
  shows "rs_status rs = 200 \<and> (\<exists>st'. r' k = Some st' \<and> (URL b \<in> URL ` set (st_All st2)
    \<or> URL b \<in> learnt_urls (st_Discovered st') \<or> maxDiscovered \<le> length (st_Discovered st')))"
proof -
  let ?m = "buildAdvert self ord now r1"
  let ?adv = "\<lparr>ad_Name = k, ad_Protocol = st_Protocol st1,
    ad_Nodes = map (advert_of (st_Protocol st1)) (st_Best st1), ad_Ts = now div sec 1\<rparr>"
  have "decode_into d_state zero_state (Marshal (state_json ?m)) = Some ?m"
    by (rule decode_state) (use assms(2) buildAdvert_ok [OF assms(1,3)] in \<open>simp_all add: buildAdvert_def\<close>)
  with assms(5) have r': "rs_status rs = 200" "r' = fold (merge_network now') (sm_Networks ?m) r2"
    by (auto simp: StateHandler_def post_def)
  have a: "advert_of (st_Protocol st1) b \<in> set (ad_Nodes ?adv)" "r2 (ad_Name ?adv) = Some st2"
    using assms(7,8) by simp_all
  obtain st' where "r' k = Some st'" "known_or_full now' (URL ` set (st_All st2)) (st_Discovered st') (URL b)"
    by (rule fold_merge_delivers [where now = now' and adv = ?adv and ns = "sm_Networks ?m" and r = r2,
        OF buildAdvert_network [OF assms(4,6)] a])
      (simp_all add: r' advert_of_def)
  with r'(1) known_or_full_learnt show ?thesis by blast
qed

text \<open>
  (C35) A state message can only make known networks learn nodes. For every network the handler
  appends entries to the learnt nodes, at most up to twenty in all, none with a URL the network
  already has, each expiring after ten minutes; nothing else of any network changes, no network
  appears or disappears, and a message that is refused changes nothing.
\<close>
theorem StateHandler_spec:
  assumes "StateHandler now rq r = (rs, r')"
  shows "rel_option (learnt now) (r k) (r' k) \<and> (rs_status rs = 200 \<or> r' = r)"
  using assms
proof (cases "in_method rq \<noteq> ''POST''
    \<or> decode_into d_state zero_state (in_body rq) = None")
  case True
  with assms have "r' = r" by (auto simp: StateHandler_def split: if_splits)
  then show ?thesis by (cases "r k") auto
next
  case False
  then obtain m where m: "decode_into d_state zero_state (in_body rq) = Some m"
    by blast
  from assms m False have "r' = fold (merge_network now) (sm_Networks m) r" "rs_status rs = 200"
    by (auto simp: StateHandler_def)
  then show ?thesis by (simp add: fold_merge_learnt)
qed


definition demo_state :: "string \<Rightarrow> string \<Rightarrow> StateMessage" where
  "demo_state k u = \<lparr>sm_From = ''p'', sm_Networks = [\<lparr>ad_Name = k, ad_Protocol = ''sol'',
     ad_Nodes = [\<lparr>na_URL = u, na_Priority = 1, na_Protocol = ''sol'', na_Alive = True, na_Ping = 4\<rparr>],
     ad_Ts = 0\<rparr>]\<rparr>"

lemma demo_state_ok:
  "valid_utf8 k \<Longrightarrow> valid_utf8 u \<Longrightarrow> valid_utf8 (sm_From (demo_state k u)) \<and> list_all network_ok (sm_Networks (demo_state k u))"
  by (simp add: demo_state_def network_ok_def advert_ok_def in_i64_def)

theorem StateHandler_spec_witness:
  "\<exists>st. snd (StateHandler 5 (post ''/gossip-state'' (Marshal (state_json (demo_state ''n'' ''z'')))) [''n'' \<mapsto> sample_network]) ''n'' = Some st
     \<and> learnt 5 sample_network st \<and> st_Discovered st \<noteq> st_Discovered sample_network"
proof -
  let ?rq = "post ''/gossip-state'' (Marshal (state_json (demo_state ''n'' ''z'')))"
  let ?R = "StateHandler 5 ?rq [''n'' \<mapsto> sample_network]"
  have "rel_option (learnt 5) (Some sample_network) (snd ?R ''n'')"
    using StateHandler_spec [of 5 ?rq "[''n'' \<mapsto> sample_network]" "fst ?R" "snd ?R" "''n''"] by simp
  then obtain st where st: "snd ?R ''n'' = Some st" "learnt 5 sample_network st"
    by (cases "snd ?R ''n''") auto
  have "decode_into d_state zero_state (Marshal (state_json (demo_state ''n'' ''z''))) = Some (demo_state ''n'' ''z'')"
    using demo_state_ok [of "''n''" "''z''"] by (intro decode_state) simp_all
  then have "snd ?R ''n'' = Some (sample_network\<lparr>st_Discovered := st_Discovered sample_network @
      [discover 5 \<lparr>na_URL = ''z'', na_Priority = 1, na_Protocol = ''sol'', na_Alive = True, na_Ping = 4\<rparr>]\<rparr>)"
    by (simp add: StateHandler_def post_def) (simp add: demo_state_def merge_network_def sample_network_def maxDiscovered_def)
  with st show ?thesis by auto
qed

theorem gossip_delivers_witness:
  "\<exists>r'. StateHandler 5 (post ''/gossip-state'' (Marshal (state_json (buildAdvert ''p'' [''n''] 0
       [''n'' \<mapsto> sample_network\<lparr>st_Best := [mk_ping (plain_node ''z'' 1) True 4]\<rparr>])))) [''n'' \<mapsto> sample_network]
     = (bare 200, r') \<and> (\<exists>st'. r' ''n'' = Some st' \<and> (''z'' \<in> learnt_urls (st_Discovered st')
        \<or> maxDiscovered \<le> length (st_Discovered st')))"
proof -
  let ?r1 = "[''n'' \<mapsto> sample_network\<lparr>st_Best := [mk_ping (plain_node ''z'' 1) True 4]\<rparr>]"
  let ?r2 = "[''n'' \<mapsto> sample_network]"
  let ?m = "buildAdvert ''p'' [''n''] 0 ?r1"
  let ?R = "StateHandler 5 (post ''/gossip-state'' (Marshal (state_json ?m))) ?r2"
  have r1: "advertisable ?r1" "valid_utf8 ''p''" "in_i64 (0 div sec 1)" "is_order [''n''] ?r1"
    by (simp_all add: advertisable_def sample_network_def in_i64_def is_order_def)
  have R: "?R = (fst ?R, snd ?R)" by simp
  have b: "?r1 ''n'' = Some (sample_network\<lparr>st_Best := [mk_ping (plain_node ''z'' 1) True 4]\<rparr>)"
    "?r2 ''n'' = Some sample_network"
    "mk_ping (plain_node ''z'' 1) True 4 \<in> set (st_Best (sample_network\<lparr>st_Best := [mk_ping (plain_node ''z'' 1) True 4]\<rparr>))"
    by simp_all
  from gossip_delivers [OF r1 R b] have g: "rs_status (fst ?R) = 200"
    "\<exists>st'. snd ?R ''n'' = Some st' \<and> (''z'' \<in> learnt_urls (st_Discovered st')
       \<or> maxDiscovered \<le> length (st_Discovered st'))"
    by (auto simp: sample_network_def)
  then have "fst ?R = bare 200" by (auto simp: StateHandler_def bare_def split: if_splits option.splits)
  with g R show ?thesis by metis
qed

end
