(* ===== verification/Admin.thy ===== *)
theory Admin
  imports Health Http
begin

text \<open>
  pkg/api/admin.go: the endpoints that change the networks of a running process. Every handler logs
  the body before it checks the key, and reads it afterwards (\<open>after_log\<close>). A handler maps the
  registry, the checker and the world to new ones; a panic (a node URL that does not parse) ends it
  with the state it has by then. An empty list of nodes is written as [], also where the Go slice is
  nil (which \<open>encoding/json\<close> writes as null).
\<close>

type_synonym admin_handled = "(panic + response) \<times> registry \<times> checker \<times> world"

section \<open>JSON of the configuration types\<close>

definition node_members :: "'a Node_scheme \<Rightarrow> (string \<times> json) list" where
  "node_members n =
     [(''url'', JStr (URL n)), (''priority'', JInt (Priority n)),
      (''headers'', case Headers n of None \<Rightarrow> JNull
                    | Some kvs \<Rightarrow> JMap (map (\<lambda>(k, v). (k, JStr v)) kvs)),
      (''tor'', JBool (Tor n))]"

definition node_json :: "Node \<Rightarrow> json" where
  "node_json n = JObj (node_members n)"

definition ping_json :: "NodeWithPing \<Rightarrow> json" where
  "ping_json n = JObj (node_members n @ [(''alive'', JBool (Alive n)), (''ping'', JInt (Ping n))])"

definition zero_node :: Node where
  "zero_node = \<lparr>URL = [], Priority = 0, Headers = None, Tor = False\<rparr>"

definition d_node :: "Node decoder" where
  "d_node = d_object (\<lambda>kvs n.
     Option.bind (field ''url'' d_string kvs (URL n)) (\<lambda>u.
     Option.bind (field ''priority'' d_int kvs (Priority n)) (\<lambda>p.
     Option.bind (field ''headers'' d_smap kvs (Headers n)) (\<lambda>h.
     Option.bind (field ''tor'' d_bool kvs (Tor n)) (\<lambda>t.
       Some \<lparr>URL = u, Priority = p, Headers = h, Tor = t\<rparr>)))))"

definition zero_gas :: GasConfig where
  "zero_gas = \<lparr>ExternalURL = [], MinPriorityGwei = 0, TTLSeconds = 0\<rparr>"

definition d_gas :: "GasConfig decoder" where
  "d_gas = d_object (\<lambda>kvs g.
     Option.bind (field ''externalUrl'' d_string kvs (ExternalURL g)) (\<lambda>u.
     Option.bind (field ''minPriorityGwei'' d_int kvs (MinPriorityGwei g)) (\<lambda>m.
     Option.bind (field ''ttlSeconds'' d_int kvs (TTLSeconds g)) (\<lambda>t.
       Some \<lparr>ExternalURL = u, MinPriorityGwei = m, TTLSeconds = t\<rparr>))))"

definition zero_config :: NetworkConfig where
  "zero_config = \<lparr>nc_Route = [], nc_Protocol = [], nc_Nodes = [], nc_TimeoutMs = 0, nc_Gas = None\<rparr>"

definition d_config :: "NetworkConfig decoder" where
  "d_config = d_object (\<lambda>kvs c.
     Option.bind (field ''route'' d_string kvs (nc_Route c)) (\<lambda>r.
     Option.bind (field ''protocol'' d_string kvs (nc_Protocol c)) (\<lambda>p.
     Option.bind (field ''nodes'' (d_list d_node zero_node) kvs (nc_Nodes c)) (\<lambda>ns.
     Option.bind (field ''timeoutMs'' d_int kvs (nc_TimeoutMs c)) (\<lambda>t.
     Option.bind (field ''gas'' (d_pointer d_gas zero_gas) kvs (nc_Gas c)) (\<lambda>g.
       Some \<lparr>nc_Route = r, nc_Protocol = p, nc_Nodes = ns, nc_TimeoutMs = t, nc_Gas = g\<rparr>))))))"

section \<open>Handlers\<close>

definition auth :: "string \<Rightarrow> incoming \<Rightarrow> bool" where
  "auth adminKey rq \<longleftrightarrow> hget (in_hdr rq) ''x-admin-key'' = adminKey"

definition unauthorized :: response where
  "unauthorized = http_error ''unauthorized'' 401"

definition admin_body :: "env \<Rightarrow> incoming \<Rightarrow> string" where
  "admin_body E rq = after_log (read_cap E) (in_body rq)"

definition admin_path :: "incoming \<Rightarrow> string list" where
  "admin_path rq = Split (TrimPrefix (in_path rq) ''/admin/'') (CHR ''/'')"

text \<open>
  \<open>UpdateNetwork\<close> called from a handler. The probes before a panic have had their effect on the
  checker and the world.
\<close>

fun probes_state ::
  "string \<Rightarrow> env \<Rightarrow> int \<Rightarrow> Node list \<Rightarrow> checker \<Rightarrow> world \<Rightarrow> checker \<times> world" where
  "probes_state protocol E tmo [] c w = (c, w)"
| "probes_state protocol E tmo (n # ns) c w =
     (case check_node protocol E n tmo c w of
        Inl p \<Rightarrow> (c, w)
      | Inr (r, c', w') \<Rightarrow> probes_state protocol E tmo ns c' w')"

definition update_in_handler ::
  "env \<Rightarrow> registry \<Rightarrow> string \<Rightarrow> Node list \<Rightarrow> checker \<Rightarrow> world
     \<Rightarrow> (panic + NodeWithPing list) \<times> checker \<times> world" where
  "update_in_handler E r protocol nodes c w =
     (case UpdateNetwork E r protocol nodes c w of
        Inl p \<Rightarrow> (Inl p, probes_state protocol E (perNodeTimeout r protocol) nodes c w)
      | Inr (best, c', w') \<Rightarrow> (Inr best, c', w'))"

definition admin_AddNetwork ::
  "env \<Rightarrow> string \<Rightarrow> incoming \<Rightarrow> registry \<Rightarrow> checker \<Rightarrow> world \<Rightarrow> admin_handled" where
  "admin_AddNetwork E adminKey rq r c w =
     (if \<not> auth adminKey rq then (Inr unauthorized, r, c, w)
      else case unmarshal_into d_config zero_config (admin_body E rq) of
        None \<Rightarrow> (Inr (http_error ''bad json'' 400), r, c, w)
      | Some nc \<Rightarrow>
          if nc_Route nc = [] \<or> nc_Protocol nc = [] \<or> nc_Nodes nc = []
          then (Inr (http_error ''missing required fields'' 400), r, c, w)
          else let nc = nc\<lparr>nc_Route := Trim (nc_Route nc) ''/''\<rparr>
          in case update_in_handler E r (nc_Protocol nc) (nc_Nodes nc) c w of
            (Inl p, c', w') \<Rightarrow> (Inl p, r, c', w')
          | (Inr best, c', w') \<Rightarrow>
              if best = [] then (Inr (http_error ''no healthy nodes'' 400), r, c', w')
              else (Inr (writeJSON 200 (JMap [(''status'', JStr ''added''),
                                              (''healthyNodes'', JArr (map ping_json best))])),
                    AddNetwork nc best r, c', w'))"

definition admin_AddNode ::
  "env \<Rightarrow> string \<Rightarrow> incoming \<Rightarrow> registry \<Rightarrow> checker \<Rightarrow> world \<Rightarrow> admin_handled" where
  "admin_AddNode E adminKey rq r c w =
     (if \<not> auth adminKey rq then (Inr unauthorized, r, c, w)
      else if length (admin_path rq) < 2 then (Inr (http_error ''bad path'' 400), r, c, w)
      else let network = hd (admin_path rq)
      in case unmarshal_into d_node zero_node (admin_body E rq) of
        None \<Rightarrow> (Inr (http_error ''bad json'' 400), r, c, w)
      | Some n \<Rightarrow>
          (case update_in_handler E r (ProtocolOf r network) [n] c w of
            (Inl p, c', w') \<Rightarrow> (Inl p, r, c', w')
          | (Inr best, c', w') \<Rightarrow>
              if best = [] then (Inr (http_error ''node not healthy'' 400), r, c', w')
              else (Inr (writeJSON 200 (JMap [(''status'', JStr ''added''),
                                              (''node'', ping_json (hd best))])),
                    AppendBest network (hd best) (AddNode network n r), c', w')))"

definition admin_ListNodes :: "string \<Rightarrow> incoming \<Rightarrow> registry \<Rightarrow> response" where
  "admin_ListNodes adminKey rq r =
     (if \<not> auth adminKey rq then unauthorized
      else if length (admin_path rq) < 2 then http_error ''bad path'' 400
      else case reg_All r (hd (admin_path rq)) of
             None \<Rightarrow> http_error ''unknown network'' 404
           | Some st \<Rightarrow> writeJSON 200 (JArr (map node_json (st_All st))))"

definition d_url :: "string decoder" where
  "d_url = d_object (field ''url'' d_string)"

text \<open>The two filters of \<open>DeleteNode\<close>; the discovered nodes stay.\<close>

definition delete_url :: "string \<Rightarrow> string \<Rightarrow> NetworkState \<Rightarrow> registry \<Rightarrow> registry" where
  "delete_url network url st r =
     modify network (\<lambda>s. s\<lparr>st_All := filter (\<lambda>n. URL n \<noteq> url) (st_All st)\<rparr>)
       (SetBest network (filter (\<lambda>n. URL n \<noteq> url) (st_Best st)) r)"

definition admin_DeleteNode :: "env \<Rightarrow> string \<Rightarrow> incoming \<Rightarrow> registry \<Rightarrow> response \<times> registry" where
  "admin_DeleteNode E adminKey rq r =
     (if \<not> auth adminKey rq then (unauthorized, r)
      else if length (admin_path rq) < 2 then (http_error ''bad path'' 400, r)
      else let network = hd (admin_path rq)
      in case unmarshal_into d_url [] (admin_body E rq) of
        None \<Rightarrow> (http_error ''bad json'' 400, r)
      | Some url \<Rightarrow>
          if url = [] then (http_error ''bad json'' 400, r)
          else (case reg_All r network of
            None \<Rightarrow> (http_error ''unknown network'' 404, r)
          | Some st \<Rightarrow>
              (writeJSON 200 (JMap [(''status'', JStr ''removed''), (''url'', JStr url)]),
               delete_url network url st r)))"

definition bulk_skip :: "string \<Rightarrow> string \<Rightarrow> string \<Rightarrow> json" where
  "bulk_skip route status reason =
     JMap [(''route'', JStr route), (''status'', JStr status), (''reason'', JStr reason)]"

definition bulk_route :: "NetworkConfig \<Rightarrow> string" where
  "bulk_route nc = ToLower (Trim (Trim (nc_Route nc) ''/'') ''/'')"

fun bulk_loop ::
  "env \<Rightarrow> NetworkConfig list \<Rightarrow> json list \<Rightarrow> registry \<Rightarrow> checker \<Rightarrow> world
     \<Rightarrow> (panic + json list) \<times> registry \<times> checker \<times> world" where
  "bulk_loop E [] res r c w = (Inr res, r, c, w)"
| "bulk_loop E (nc # ncs) res r c w =
     (let route = bulk_route nc
      in if route = [] \<or> nc_Protocol nc = [] \<or> nc_Nodes nc = []
         then bulk_loop E ncs (res @ [bulk_skip route ''skipped'' ''missing required fields'']) r c w
         else if reg_Exists r route
         then bulk_loop E ncs (res @ [bulk_skip route ''skipped'' ''already exists'']) r c w
         else case update_in_handler E r (nc_Protocol nc) (nc_Nodes nc) c w of
           (Inl p, c', w') \<Rightarrow> (Inl p, r, c', w')
         | (Inr best, c', w') \<Rightarrow>
             if best = []
             then bulk_loop E ncs (res @ [bulk_skip route ''failed'' ''no healthy nodes'']) r c' w'
             else bulk_loop E ncs
                    (res @ [JMap [(''route'', JStr route), (''status'', JStr ''added''),
                                  (''healthyNodes'', JInt (int (length best)))]])
                    (AddNetwork (nc\<lparr>nc_Route := route\<rparr>) best r) c' w')"

definition admin_AddNetworksBulk ::
  "env \<Rightarrow> string \<Rightarrow> incoming \<Rightarrow> registry \<Rightarrow> checker \<Rightarrow> world \<Rightarrow> admin_handled" where
  "admin_AddNetworksBulk E adminKey rq r c w =
     (if \<not> auth adminKey rq then (Inr unauthorized, r, c, w)
      else case unmarshal_into (d_list d_config zero_config) [] (admin_body E rq) of
        None \<Rightarrow> (Inr (http_error ''bad json'' 400), r, c, w)
      | Some configs \<Rightarrow>
          if configs = [] then (Inr (http_error ''empty list'' 400), r, c, w)
          else (case bulk_loop E configs [] r c w of
            (Inl p, r', c', w') \<Rightarrow> (Inl p, r', c', w')
          | (Inr res, r', c', w') \<Rightarrow> (Inr (writeJSON 200 (JArr res)), r', c', w')))"

section \<open>The registry after an admin request\<close>

lemma update_in_handler_Inr:
  "update_in_handler E r protocol nodes c w = (Inr best, c', w') \<Longrightarrow>
     UpdateNetwork E r protocol nodes c w = Inr (best, c', w')"
  by (auto simp: update_in_handler_def split: sum.splits prod.splits)

lemma update_known:
  "update_in_handler E r protocol nodes c w = (Inr best, c', w') \<Longrightarrow> b \<in> set best \<Longrightarrow>
     URL b \<in> URL ` set nodes"
  by (drule update_in_handler_Inr) (rule UpdateNetwork_known)

lemma update_hd_known:
  "update_in_handler E r protocol [n] c w = (Inr best, c', w') \<Longrightarrow> best \<noteq> [] \<Longrightarrow> URL (hd best) = URL n"
  using update_known [of E r protocol "[n]" c w best c' w' "hd best"] by simp

lemma update_result:
  obtains u c' w' where "update_in_handler E r p ns c w = (u, c', w')"
  by (metis prod_cases3)

text \<open>How a handler can change the registry.\<close>

lemma admin_AddNetwork_effect:
  assumes "admin_AddNetwork E key rq r c w = (res, r', c', w')"
  obtains "r' = r" | nc best c1 w1 where "auth key rq"
    "update_in_handler E r (nc_Protocol nc) (nc_Nodes nc) c w = (Inr best, c1, w1)"
    "r' = AddNetwork nc best r"
proof (cases "auth key rq \<and> (\<exists>nc. unmarshal_into d_config zero_config (admin_body E rq) = Some nc
    \<and> \<not> (nc_Route nc = [] \<or> nc_Protocol nc = [] \<or> nc_Nodes nc = []))")
  case False
  with assms have "r' = r"
    by (cases "auth key rq"; cases "unmarshal_into d_config zero_config (admin_body E rq)")
      (simp_all add: admin_AddNetwork_def)
  then show thesis by (rule that(1))
next
  case True
  then obtain nc0 where d: "auth key rq"
      "unmarshal_into d_config zero_config (admin_body E rq) = Some nc0"
      "\<not> (nc_Route nc0 = [] \<or> nc_Protocol nc0 = [] \<or> nc_Nodes nc0 = [])" by blast
  define nc where "nc = nc0\<lparr>nc_Route := Trim (nc_Route nc0) ''/''\<rparr>"
  obtain u c1 w1 where u: "update_in_handler E r (nc_Protocol nc) (nc_Nodes nc) c w = (u, c1, w1)"
    by (rule update_result)
  show thesis
  proof (cases u)
    case (Inl p)
    with assms d u have "r' = r" by (simp add: admin_AddNetwork_def nc_def)
    then show thesis by (rule that(1))
  next
    case (Inr best)
    with assms d u have "r' = (if best = [] then r else AddNetwork nc best r)"
      by (simp add: admin_AddNetwork_def nc_def split: if_splits)
    with that u Inr d(1) show thesis by (cases "best = []") simp_all
  qed
qed

lemma admin_AddNode_effect:
  assumes "admin_AddNode E key rq r c w = (res, r', c', w')"
  obtains "r' = r" | n network best c1 w1 where "auth key rq"
    "update_in_handler E r (ProtocolOf r network) [n] c w = (Inr best, c1, w1)" "best \<noteq> []"
    "r' = AppendBest network (hd best) (AddNode network n r)"
proof (cases "auth key rq \<and> \<not> length (admin_path rq) < 2
    \<and> unmarshal_into d_node zero_node (admin_body E rq) \<noteq> None")
  case False
  with assms have "r' = r"
    by (cases "auth key rq"; cases "length (admin_path rq) < 2";
        cases "unmarshal_into d_node zero_node (admin_body E rq)") (simp_all add: admin_AddNode_def)
  then show thesis by (rule that(1))
next
  case True
  then obtain n where d: "auth key rq" "\<not> length (admin_path rq) < 2"
    "unmarshal_into d_node zero_node (admin_body E rq) = Some n" by blast
  define network where "network = hd (admin_path rq)"
  obtain u c1 w1 where u: "update_in_handler E r (ProtocolOf r network) [n] c w = (u, c1, w1)"
    by (rule update_result)
  show thesis
  proof (cases u)
    case (Inl p)
    with assms d u have "r' = r" by (simp add: admin_AddNode_def network_def)
    then show thesis by (rule that(1))
  next
    case (Inr best)
    with assms d u have "r' = (if best = [] then r else AppendBest network (hd best) (AddNode network n r))"
      by (simp add: admin_AddNode_def network_def Let_def split: if_splits)
    with that u Inr d(1) show thesis by (cases "best = []") simp_all
  qed
qed

lemma admin_DeleteNode_effect:
  assumes "admin_DeleteNode E key rq r = (res, r')"
  obtains "r' = r" | network url st where "auth key rq" "r network = Some st"
    "r' = delete_url network url st r"
proof (cases "auth key rq \<and> \<not> length (admin_path rq) < 2
    \<and> (\<exists>url. unmarshal_into d_url [] (admin_body E rq) = Some url \<and> url \<noteq> [])
    \<and> r (hd (admin_path rq)) \<noteq> None")
  case False
  with assms have "r' = r"
    by (cases "auth key rq"; cases "length (admin_path rq) < 2";
        cases "unmarshal_into d_url [] (admin_body E rq)"; cases "r (hd (admin_path rq))")
      (simp_all add: admin_DeleteNode_def reg_All_def Let_def split: if_splits)
  then show thesis by (rule that(1))
next
  case True
  then obtain url st where d: "auth key rq" "\<not> length (admin_path rq) < 2"
    "unmarshal_into d_url [] (admin_body E rq) = Some url" "url \<noteq> []"
    "r (hd (admin_path rq)) = Some st" by blast
  with assms have "r' = delete_url (hd (admin_path rq)) url st r"
    by (simp add: admin_DeleteNode_def reg_All_def)
  with that d show thesis by blast
qed

lemma admin_AddNetwork_wf:
  assumes "admin_AddNetwork E key rq r c w = (res, r', c', w')" "reg_wf r"
  shows "reg_wf r'"
  using assms(1)
proof (cases rule: admin_AddNetwork_effect)
  case (2 nc best c1 w1)
  then show ?thesis using assms(2) by (auto intro: AddNetwork_wf update_known)
qed (use assms(2) in simp)

lemma AddNode_AppendBest_wf:
  assumes "reg_wf r" "URL b = URL n"
  shows "reg_wf (AppendBest network b (AddNode network n r))"
proof (rule AppendBest_wf)
  show "reg_wf (AddNode network n r)" by (rule add_node_wf.keeps [OF assms(1)])
  show "URL b \<in> URL ` set (st_All st)" if "AddNode network n r network = Some st" for st
    using that assms(2) by (auto simp: AddNode_def)
qed

lemma admin_AddNode_wf:
  assumes "admin_AddNode E key rq r c w = (res, r', c', w')" "reg_wf r"
  shows "reg_wf r'"
  using assms(1)
proof (cases rule: admin_AddNode_effect)
  case (2 n network best c1 w1)
  then show ?thesis using assms(2) by (auto intro: AddNode_AppendBest_wf update_hd_known)
qed (use assms(2) in simp)

lemma delete_url_apply:
  assumes "r network = Some st"
  shows "delete_url network url st r =
    r(network \<mapsto> st\<lparr>st_All := filter (\<lambda>n. URL n \<noteq> url) (st_All st),
                    st_Best := filter (\<lambda>n. URL n \<noteq> url) (st_Best st)\<rparr>)"
  using assms by (cases st) (simp add: delete_url_def SetBest_def modify_def)

lemma best_known_delete:
  "best_known st \<Longrightarrow> best_known (st\<lparr>st_All := filter (\<lambda>n. URL n \<noteq> url) (st_All st),
     st_Best := filter (\<lambda>n. URL n \<noteq> url) (st_Best st)\<rparr>)"
  by (fastforce simp: best_known_def image_iff)

lemma admin_DeleteNode_wf:
  assumes "admin_DeleteNode E key rq r = (res, r')" "reg_wf r"
  shows "reg_wf r'"
  using assms(1)
proof (cases rule: admin_DeleteNode_effect)
  case (2 network url st)
  then have "best_known st" using assms(2) by (simp add: reg_wf_def)
  with 2 assms(2) show ?thesis
    by (auto simp: delete_url_apply reg_wf_def best_known_delete split: if_splits)
qed (use assms(2) in simp)

section \<open>Bulk requests\<close>

text \<open>
  A bulk request adds networks under new keys: the key it looks up is the key it writes, because a
  route has no slash at either end once it was trimmed.
\<close>

definition no_edge :: "string \<Rightarrow> bool" where
  "no_edge s \<longleftrightarrow> s = [] \<or> hd s \<noteq> CHR ''/'' \<and> last s \<noteq> CHR ''/''"

lemma no_edge_TrimPrefix: "no_edge s \<Longrightarrow> TrimPrefix s ''/'' = s"
  by (cases s) (auto simp: no_edge_def TrimPrefix_def)

lemma no_edge_Trim:
  assumes "no_edge s"
  shows "Trim s ''/'' = s"
proof -
  have "dropWhile (\<lambda>c. c \<in> set ''/'') s = s" "dropWhile (\<lambda>c. c \<in> set ''/'') (rev s) = rev s"
    using assms by (auto simp: dropWhile_eq_self_iff no_edge_def hd_rev)
  then show ?thesis by (simp add: Trim_def TrimLeft_def TrimRight_def)
qed

lemma no_edge_of_Trim: "no_edge (Trim s ''/'')"
proof -
  let ?P = "\<lambda>c. c \<in> set ''/''"
  define d where "d = dropWhile ?P s"
  define e where "e = dropWhile ?P (rev d)"
  have t: "Trim s ''/'' = rev e"
    by (simp add: Trim_def TrimLeft_def TrimRight_def d_def e_def)
  show ?thesis
  proof (cases "e = []")
    case False
    then have "\<not> ?P (hd e)" unfolding e_def by (rule hd_dropWhile)
    have "rev d = takeWhile ?P (rev d) @ e" unfolding e_def by (rule takeWhile_dropWhile_id [symmetric])
    then have "last (rev d) = last e" "rev d \<noteq> []"
      using False by (metis last_appendR, metis Nil_is_append_conv)
    then have "hd d = last e" "d \<noteq> []" by (simp_all add: last_rev)
    moreover from \<open>d \<noteq> []\<close> have "\<not> ?P (hd d)" unfolding d_def by (rule hd_dropWhile)
    ultimately show ?thesis
      using \<open>\<not> ?P (hd e)\<close> unfolding t no_edge_def by (simp add: hd_rev last_rev)
  qed (simp add: t no_edge_def)
qed

lemma no_edge_ToLower: "no_edge s \<Longrightarrow> no_edge (ToLower s)"
  by (auto simp: no_edge_def ToLower_def hd_map last_map lower_char_slash)

lemma bulk_route_key:
  "TrimPrefix (bulk_route nc) ''/'' = bulk_route nc"
  "ToLower (Trim (bulk_route nc) ''/'') = bulk_route nc"
proof -
  have "no_edge (bulk_route nc)"
    unfolding bulk_route_def by (rule no_edge_ToLower [OF no_edge_of_Trim])
  then show "TrimPrefix (bulk_route nc) ''/'' = bulk_route nc"
    "ToLower (Trim (bulk_route nc) ''/'') = bulk_route nc"
    by (simp_all add: no_edge_TrimPrefix no_edge_Trim) (simp add: bulk_route_def)
qed

lemma bulk_loop_keeps:
  assumes "\<And>r nc best. P r \<Longrightarrow> r (bulk_route nc) = None \<Longrightarrow>
      (\<And>b. b \<in> set best \<Longrightarrow> URL b \<in> URL ` set (nc_Nodes nc)) \<Longrightarrow>
      P (AddNetwork (nc\<lparr>nc_Route := bulk_route nc\<rparr>) best r)"
    "bulk_loop E ncs js r c w = (res, r', c', w')" "P r"
  shows "P r'"
  using assms(2,3)
proof (induction ncs arbitrary: js r c w)
  case (Cons nc ncs)
  let ?route = "bulk_route nc"
  show ?case
  proof (cases "?route = [] \<or> nc_Protocol nc = [] \<or> nc_Nodes nc = [] \<or> reg_Exists r ?route")
    case True
    then obtain js' where "bulk_loop E ncs js' r c w = (res, r', c', w')"
      using Cons.prems by (auto simp: Let_def split: if_splits)
    then show ?thesis using Cons.prems(2) by (rule Cons.IH)
  next
    case False
    obtain u c1 w1 where u: "update_in_handler E r (nc_Protocol nc) (nc_Nodes nc) c w = (u, c1, w1)"
      by (rule update_result)
    show ?thesis
    proof (cases u)
      case (Inl p)
      with Cons.prems False u show ?thesis by (simp add: Let_def)
    next
      case (Inr best)
      let ?r = "if best = [] then r else AddNetwork (nc\<lparr>nc_Route := ?route\<rparr>) best r"
      from Cons.prems False u Inr obtain js' where b: "bulk_loop E ncs js' ?r c1 w1 = (res, r', c', w')"
        by (simp add: Let_def split: if_splits)
      have "r ?route = None"
        using False bulk_route_key(2) by (simp add: reg_Exists_def)
      then have "P ?r"
        using assms(1) Cons.prems(2) update_known [of E r "nc_Protocol nc" "nc_Nodes nc" c w best c1 w1] u Inr
        by simp
      with b show ?thesis by (rule Cons.IH)
    qed
  qed
qed simp

lemma admin_AddNetworksBulk_keeps:
  assumes "admin_AddNetworksBulk E key rq r c w = (res, r', c', w')"
    "\<And>r nc best. P r \<Longrightarrow> r (bulk_route nc) = None \<Longrightarrow>
      (\<And>b. b \<in> set best \<Longrightarrow> URL b \<in> URL ` set (nc_Nodes nc)) \<Longrightarrow>
      P (AddNetwork (nc\<lparr>nc_Route := bulk_route nc\<rparr>) best r)"
    "P r"
  shows "P r'"
proof (cases "auth key rq \<and> (\<exists>cfgs. unmarshal_into (d_list d_config zero_config) [] (admin_body E rq) = Some cfgs \<and> cfgs \<noteq> [])")
  case False
  with assms(1) have "r' = r"
    by (cases "auth key rq"; cases "unmarshal_into (d_list d_config zero_config) [] (admin_body E rq)")
      (simp_all add: admin_AddNetworksBulk_def)
  with assms(3) show ?thesis by simp
next
  case True
  then obtain cfgs where d: "auth key rq"
    "unmarshal_into (d_list d_config zero_config) [] (admin_body E rq) = Some cfgs" "cfgs \<noteq> []"
    by blast
  obtain u r1 c1 w1 where b: "bulk_loop E cfgs [] r c w = (u, r1, c1, w1)"
    by (metis prod_cases4)
  with assms(1) d have "r' = r1"
    by (cases u) (simp_all add: admin_AddNetworksBulk_def)
  moreover have "P r1"
    using assms(2) b assms(3) by (rule bulk_loop_keeps)
  ultimately show ?thesis by simp
qed

lemma admin_AddNetworksBulk_wf:
  "admin_AddNetworksBulk E key rq r c w = (res, r', c', w') \<Longrightarrow> reg_wf r \<Longrightarrow> reg_wf r'"
  by (erule admin_AddNetworksBulk_keeps [where P = reg_wf]) (auto intro!: AddNetwork_wf)

lemma map_le_AddNetwork:
  "r \<subseteq>\<^sub>m r' \<Longrightarrow> r' (bulk_route nc) = None \<Longrightarrow> r \<subseteq>\<^sub>m AddNetwork (nc\<lparr>nc_Route := bulk_route nc\<rparr>) best r'"
  by (force simp: AddNetwork_def bulk_route_key map_le_def)

lemma admin_AddNetworksBulk_adds:
  "admin_AddNetworksBulk E key rq r c w = (res, r', c', w') \<Longrightarrow> r \<subseteq>\<^sub>m r'"
  by (erule admin_AddNetworksBulk_keeps [where P = "\<lambda>r'. r \<subseteq>\<^sub>m r'"]) (auto intro: map_le_AddNetwork)

section \<open>Properties\<close>

text \<open>
  Without the key in the header x-admin-key every admin endpoint answers 401, sends nothing and
  leaves the registry, the checker and the world as they are.
\<close>
theorem admin_needs_key:
  assumes "hget (in_hdr rq) ''x-admin-key'' \<noteq> key"
  shows "admin_AddNetwork E key rq r c w = (Inr unauthorized, r, c, w)
    \<and> admin_AddNode E key rq r c w = (Inr unauthorized, r, c, w)
    \<and> admin_AddNetworksBulk E key rq r c w = (Inr unauthorized, r, c, w)
    \<and> admin_DeleteNode E key rq r = (unauthorized, r)
    \<and> admin_ListNodes key rq r = unauthorized \<and> rs_status unauthorized = 401"
  using assms
  by (simp add: auth_def admin_AddNetwork_def admin_AddNode_def admin_AddNetworksBulk_def
      admin_DeleteNode_def admin_ListNodes_def unauthorized_def)

text \<open>
  Every admin endpoint keeps the registry consistent: if each best node of each network is one of
  its nodes before the request, it is so afterwards, whatever the request, the network and the
  probes do. (So does every other operation of the registry.)
\<close>
theorem admin_keeps_consistent:
  assumes "reg_wf r"
    and "(\<exists>res c' w'. admin_AddNetwork E key rq r c w = (res, r', c', w'))
      \<or> (\<exists>res c' w'. admin_AddNode E key rq r c w = (res, r', c', w'))
      \<or> (\<exists>res c' w'. admin_AddNetworksBulk E key rq r c w = (res, r', c', w'))
      \<or> (\<exists>rs. admin_DeleteNode E key rq r = (rs, r'))"
    and "r' k = Some st" "b \<in> set (st_Best st)"
  shows "URL b \<in> URL ` set (st_All st)"
proof -
  have "reg_wf r'"
    using assms(2)
    by (elim disjE exE)
      (erule admin_AddNetwork_wf admin_AddNode_wf admin_AddNetworksBulk_wf admin_DeleteNode_wf, rule assms(1))+
  with assms(3,4) show ?thesis by (auto simp: reg_wf_def best_known_def)
qed

text \<open>
  A bulk request only adds networks: every network that is there keeps its state.
\<close>
theorem bulk_only_adds:
  assumes "admin_AddNetworksBulk E key rq r c w = (res, r', c', w')" "r k = Some st"
  shows "r' k = Some st"
  using admin_AddNetworksBulk_adds [OF assms(1)] assms(2) by (auto simp: map_le_def dom_def)

text \<open>
  Deleting a node that was learnt by gossip does not last. The deletion leaves the learnt copy, so
  the next pruning before its expiry puts the node back.
\<close>
theorem deleted_node_returns:
  assumes "auth key rq" "admin_path rq = [network, x]"
    and "unmarshal_into d_url [] (admin_body E rq) = Some url" "url \<noteq> []"
    and "r network = Some st" "d \<in> set (st_Discovered st)" "URL (dn_Node d) = url" "now < dn_ExpiresAt d"
  shows "\<exists>st1 st2. snd (admin_DeleteNode E key rq r) network = Some st1 \<and> url \<notin> URL ` set (st_All st1)
    \<and> PruneAndMerge now (snd (admin_DeleteNode E key rq r)) network = Some st2 \<and> url \<in> URL ` set (st_All st2)"
proof -
  let ?st1 = "st\<lparr>st_All := filter (\<lambda>n. URL n \<noteq> url) (st_All st),
    st_Best := filter (\<lambda>n. URL n \<noteq> url) (st_Best st)\<rparr>"
  have "snd (admin_DeleteNode E key rq r) = delete_url network url st r"
    using assms(1-5) by (simp add: admin_DeleteNode_def reg_All_def)
  then have 1: "snd (admin_DeleteNode E key rq r) network = Some ?st1"
    by (simp add: delete_url_apply assms(5))
  then have 2: "PruneAndMerge now (snd (admin_DeleteNode E key rq r)) network = Some (prune_merge now ?st1)"
    by (simp add: PruneAndMerge_def)
  have "url \<in> URL ` set (st_All (prune_merge now ?st1))"
    using assms(6-8) by (force simp: prune_merge_def Let_def merge_discovered_urls)
  with 1 2 show ?thesis by (intro exI [of _ ?st1] exI [of _ "prune_merge now ?st1"]) auto
qed

subsection \<open>Instances\<close>

definition admin_env :: env where
  "admin_env = answering (\<lambda>_. reply_with 200 [])"

definition url_text :: "string \<Rightarrow> string" where
  "url_text u = Marshal (JObj [(''url'', JStr u)])"

lemma unmarshal_url: "valid_utf8 u \<Longrightarrow> unmarshal_into d_url [] (url_text u) = Some u"
  using unmarshal_into_Marshal [of "JObj [(''url'', JStr u)]" d_url "[]"]
  by (simp add: url_text_def d_url_def d_object_def EqualFold_def maxNestingDepth_def del: Marshal.simps)

lemma length_url_text: "length (url_text ''b'') \<le> 100" "length (url_text ''a'') \<le> 100"
  by (simp_all add: url_text_def quote_def quote_body.simps quote_rune_def quote_char_def rune_size_ascii)

definition admin_request :: incoming where
  "admin_request =
     \<lparr>in_method = ''DELETE'', in_escaped = ''/admin/n/nodes'', in_path = ''/admin/n/nodes'', in_query = [], in_param = (\<lambda>_. []),
      in_hdr = hset hempty ''x-admin-key'' ''k'', in_body = url_text ''b''\<rparr>"

lemma admin_request_simps:
  "auth ''k'' admin_request" "admin_path admin_request = [''n'', ''nodes'']"
  "unmarshal_into d_url [] (admin_body admin_env admin_request) = Some ''b''"
proof -
  show "auth ''k'' admin_request" by (simp add: auth_def admin_request_def EqualFold_def)
  show "admin_path admin_request = [''n'', ''nodes'']"
    unfolding admin_path_def admin_request_def incoming.simps by code_simp
  show "unmarshal_into d_url [] (admin_body admin_env admin_request) = Some ''b''"
    using length_url_text unmarshal_url [of "''b''"] by (simp add: admin_body_def admin_request_def)
qed

theorem admin_needs_key_witness:
  "snd (admin_DeleteNode admin_env ''other'' admin_request [''n'' \<mapsto> sample_network]) = [''n'' \<mapsto> sample_network]"
proof -
  have "hget (in_hdr admin_request) ''x-admin-key'' \<noteq> ''other''"
    by (simp add: admin_request_def EqualFold_def)
  from admin_needs_key [OF this] show ?thesis by simp
qed

theorem admin_keeps_consistent_witness:
  "\<exists>st b. snd (admin_DeleteNode admin_env ''k'' admin_request [''n'' \<mapsto> sample_network\<lparr>st_Best := [mk_ping (plain_node ''a'' 1) True 1]\<rparr>]) ''n'' = Some st
     \<and> b \<in> set (st_Best st) \<and> URL b \<in> URL ` set (st_All st)"
proof -
  let ?st = "sample_network\<lparr>st_Best := [mk_ping (plain_node ''a'' 1) True 1]\<rparr>"
  let ?r = "[''n'' \<mapsto> ?st]" and ?b = "mk_ping (plain_node ''a'' 1) True 1"
  have wf: "reg_wf ?r" by (simp add: reg_wf_def best_known_def sample_network_def)
  have "snd (admin_DeleteNode admin_env ''k'' admin_request ?r) = delete_url ''n'' ''b'' ?st ?r"
    by (simp add: admin_DeleteNode_def admin_request_simps reg_All_def Let_def)
  then obtain st where st: "snd (admin_DeleteNode admin_env ''k'' admin_request ?r) ''n'' = Some st" "?b \<in> set (st_Best st)"
    by (simp add: delete_url_apply)
  have "\<exists>rs. admin_DeleteNode admin_env ''k'' admin_request ?r = (rs, snd (admin_DeleteNode admin_env ''k'' admin_request ?r))"
    by (metis prod.collapse)
  with admin_keeps_consistent [where r = ?r and r' = "snd (admin_DeleteNode admin_env ''k'' admin_request ?r)"
      and k = "''n''" and st = st and b = ?b, OF wf _ st] st
  show ?thesis by blast
qed

theorem bulk_only_adds_witness:
  "fst (snd (admin_AddNetworksBulk admin_env ''k'' admin_request [''n'' \<mapsto> sample_network] (health_New []) new_world)) ''n''
     = Some sample_network"
  using bulk_only_adds [of admin_env "''k''" admin_request "[''n'' \<mapsto> sample_network]" "health_New []" new_world]
  by (cases "admin_AddNetworksBulk admin_env ''k'' admin_request [''n'' \<mapsto> sample_network] (health_New []) new_world") simp

theorem deleted_node_returns_witness:
  "\<exists>st. PruneAndMerge 5 (snd (admin_DeleteNode admin_env ''k'' admin_request [''n'' \<mapsto> sample_network])) ''n'' = Some st
     \<and> ''b'' \<in> URL ` set (st_All st)"
proof -
  let ?d = "\<lparr>dn_Node = plain_node ''b'' 1, dn_ExpiresAt = 7\<rparr>"
  have "[''n'' \<mapsto> sample_network] ''n'' = Some sample_network" "?d \<in> set (st_Discovered sample_network)"
    "URL (dn_Node ?d) = ''b''" "5 < dn_ExpiresAt ?d"
    by (simp_all add: sample_network_def)
  from deleted_node_returns [where r = "[''n'' \<mapsto> sample_network]" and network = "''n''", OF admin_request_simps(1,2,3) _ this] show ?thesis by auto
qed

end
