(* ===== verification/Handlers.thy ===== *)
theory Handlers
  imports Gossip Admin
begin

text \<open>
  The five handlers that change the registry, in the steps in which they touch it. net/http runs every
  handler in a goroutine of its own. \<open>StateHandler\<close> and \<open>DeleteNode\<close> take no lock: they read and write
  the fields of a network state through the pointers that \<open>Reg.All()\<close> gave them, so each of their reads
  and each of their writes is a step. The other three take the lock for each operation of the registry,
  so each operation is a step, and so are the probes between two of them. A handler that runs alone
  does what the functions of \<open>Gossip\<close> and \<open>Admin\<close> say.
\<close>

section \<open>The steps\<close>

text \<open>
  Where a handler is. \<open>StateHandler\<close>: before the next advert; offering the nodes that are left of an
  advert to a network; having found room for a node (line 87); having read the slice it appends to
  (line 90). \<open>names\<close> are the networks whose states it has from \<open>All\<close> and which no other request has
  replaced meanwhile. \<open>DeleteNode\<close>: before it reads the best nodes, before it stores them, before it
  reads all nodes, before it stores them; the state in it is the one it has a pointer to, if the network
  has another one by now. \<open>AddNetwork\<close>, \<open>AddNode\<close> and \<open>AddNetworksBulk\<close>: before the probes and before
  each operation of the registry.
\<close>

datatype handler =
    Adverts "string set" "NetworkAdvert list"
  | Offers "string set" "NetworkAdvert list" string "NodeAdvert list"
  | Room "string set" "NetworkAdvert list" string NodeAdvert "NodeAdvert list"
  | Appending "string set" "NetworkAdvert list" string NodeAdvert "NodeAdvert list" "DiscoveredNode list"
  | Read_best string string "NetworkState option"
  | Put_best string string "NetworkState option" "NodeWithPing list"
  | Read_all string string "NetworkState option"
  | Put_all string "Node list"
  | Probe_network NetworkConfig
  | Put_network NetworkConfig "NodeWithPing list"
  | Probe_node string Node
  | Put_node string Node NodeWithPing
  | Put_node_best string NodeWithPing
  | Bulk "NetworkConfig list"
  | Bulk_probe NetworkConfig "NetworkConfig list"
  | Bulk_put NetworkConfig "NodeWithPing list" "NetworkConfig list"

text \<open>
  The nodes of an advert that the two nested loops offer to the network, in their order: for each node
  that is not known, all those that are not.
\<close>

definition offered :: "string set \<Rightarrow> NodeAdvert list \<Rightarrow> NodeAdvert list" where
  "offered known ns =
     (let new = filter (\<lambda>a. na_URL a \<notin> known) ns in concat (map (\<lambda>_. new) new))"

definition put_discovered :: "string \<Rightarrow> DiscoveredNode list \<Rightarrow> registry \<Rightarrow> registry" where
  "put_discovered k ds r = modify k (\<lambda>st. st\<lparr>st_Discovered := ds\<rparr>) r"

definition put_all :: "string \<Rightarrow> Node list \<Rightarrow> registry \<Rightarrow> registry" where
  "put_all k ns r = modify k (\<lambda>st. st\<lparr>st_All := ns\<rparr>) r"

text \<open>The state behind a pointer from \<open>All\<close>: what is written to a replaced state, nobody sees.\<close>

definition pointed :: "string set \<Rightarrow> string \<Rightarrow> registry \<Rightarrow> NetworkState option" where
  "pointed names k r = (if k \<in> names then r k else None)"

definition held :: "NetworkState option \<Rightarrow> string \<Rightarrow> registry \<Rightarrow> NetworkState option" where
  "held old k r = (case old of Some st \<Rightarrow> Some st | None \<Rightarrow> r k)"

text \<open>
  One step of a handler; \<open>None\<close> when it is over. The first six equations are lines 72 to 98 of
  pkg/gossip/state.go, the next four lines 156 to 171 of pkg/api/admin.go (\<open>DeleteNode\<close>), the others its
  lines 57 to 62, 90 to 96 and 200 to 243. A panic of a probe ends the handler.
\<close>

fun handler_step ::
  "env \<Rightarrow> handler \<Rightarrow> registry \<Rightarrow> checker \<Rightarrow> world \<Rightarrow> handler option \<times> registry \<times> checker \<times> world"
where
  "handler_step E (Adverts names []) r c w = (None, r, c, w)"
| "handler_step E (Adverts names (adv # advs)) r c w =
     (Some (case pointed names (ad_Name adv) r of
              None \<Rightarrow> Adverts names advs
            | Some st \<Rightarrow> Offers names advs (ad_Name adv) (offered (URL ` set (st_All st)) (ad_Nodes adv))), r, c, w)"
| "handler_step E (Offers names advs k []) r c w = (Some (Adverts names advs), r, c, w)"
| "handler_step E (Offers names advs k (a # as)) r c w =
     (Some (case pointed names k r of
              None \<Rightarrow> Adverts names advs
            | Some st \<Rightarrow> if maxDiscovered \<le> length (st_Discovered st) then Offers names advs k as
                         else Room names advs k a as), r, c, w)"
| "handler_step E (Room names advs k a as) r c w =
     (Some (case pointed names k r of
              None \<Rightarrow> Adverts names advs
            | Some st \<Rightarrow> Appending names advs k a as (st_Discovered st)), r, c, w)"
| "handler_step E (Appending names advs k a as ds) r c w =
     (Some (Offers names advs k as),
      if k \<in> names then put_discovered k (ds @ [discover (clock w) a]) r else r, c, w)"
| "handler_step E (Read_best k url old) r c w =
     (map_option (\<lambda>st. Put_best k url old (filter (\<lambda>n. URL n \<noteq> url) (st_Best st))) (held old k r), r, c, w)"
| "handler_step E (Put_best k url old best) r c w = (Some (Read_all k url old), SetBest k best r, c, w)"
| "handler_step E (Read_all k url old) r c w =
     (map_option (\<lambda>st. Put_all k (filter (\<lambda>n. URL n \<noteq> url) (st_All st))) (held old k r), r, c, w)"
| "handler_step E (Put_all k ns) r c w = (None, put_all k ns r, c, w)"
| "handler_step E (Probe_network nc) r c w =
     (case update_in_handler E r (nc_Protocol nc) (nc_Nodes nc) c w of
        (Inl p, c', w') \<Rightarrow> (None, r, c', w')
      | (Inr best, c', w') \<Rightarrow> (if best = [] then None else Some (Put_network nc best), r, c', w'))"
| "handler_step E (Put_network nc best) r c w = (None, AddNetwork nc best r, c, w)"
| "handler_step E (Probe_node k n) r c w =
     (case update_in_handler E r (ProtocolOf r k) [n] c w of
        (Inl p, c', w') \<Rightarrow> (None, r, c', w')
      | (Inr best, c', w') \<Rightarrow> (if best = [] then None else Some (Put_node k n (hd best)), r, c', w'))"
| "handler_step E (Put_node k n b) r c w = (Some (Put_node_best k b), AddNode k n r, c, w)"
| "handler_step E (Put_node_best k b) r c w = (None, AppendBest k b r, c, w)"
| "handler_step E (Bulk []) r c w = (None, r, c, w)"
| "handler_step E (Bulk (nc # ncs)) r c w =
     (Some (if bulk_route nc = [] \<or> nc_Protocol nc = [] \<or> nc_Nodes nc = [] \<or> reg_Exists r (bulk_route nc)
            then Bulk ncs else Bulk_probe nc ncs), r, c, w)"
| "handler_step E (Bulk_probe nc ncs) r c w =
     (case update_in_handler E r (nc_Protocol nc) (nc_Nodes nc) c w of
        (Inl p, c', w') \<Rightarrow> (None, r, c', w')
      | (Inr best, c', w') \<Rightarrow> (Some (if best = [] then Bulk ncs else Bulk_put nc best ncs), r, c', w'))"
| "handler_step E (Bulk_put nc best ncs) r c w =
     (Some (Bulk ncs), AddNetwork (nc\<lparr>nc_Route := bulk_route nc\<rparr>) best r, c, w)"

text \<open>What a request starts; a request that is refused at once changes nothing and starts nothing.\<close>

definition StateHandler_starts :: "incoming \<Rightarrow> registry \<Rightarrow> handler option" where
  "StateHandler_starts rq r =
     (if in_method rq \<noteq> ''POST'' then None
      else map_option (\<lambda>m. Adverts (dom r) (sm_Networks m)) (decode_into d_state zero_state (in_body rq)))"

definition DeleteNode_starts :: "env \<Rightarrow> string \<Rightarrow> incoming \<Rightarrow> registry \<Rightarrow> handler option" where
  "DeleteNode_starts E key rq r =
     (if \<not> auth key rq \<or> length (admin_path rq) < 2 then None
      else case unmarshal_into d_url [] (admin_body E rq) of
        None \<Rightarrow> None
      | Some url \<Rightarrow>
          if url = [] \<or> reg_All r (hd (admin_path rq)) = None then None
          else Some (Read_best (hd (admin_path rq)) url None))"

definition AddNetwork_starts :: "env \<Rightarrow> string \<Rightarrow> incoming \<Rightarrow> handler option" where
  "AddNetwork_starts E key rq =
     (if \<not> auth key rq then None
      else case unmarshal_into d_config zero_config (admin_body E rq) of
        None \<Rightarrow> None
      | Some nc \<Rightarrow>
          if nc_Route nc = [] \<or> nc_Protocol nc = [] \<or> nc_Nodes nc = [] then None
          else Some (Probe_network (nc\<lparr>nc_Route := Trim (nc_Route nc) ''/''\<rparr>)))"

definition AddNode_starts :: "env \<Rightarrow> string \<Rightarrow> incoming \<Rightarrow> handler option" where
  "AddNode_starts E key rq =
     (if \<not> auth key rq \<or> length (admin_path rq) < 2 then None
      else map_option (Probe_node (hd (admin_path rq))) (unmarshal_into d_node zero_node (admin_body E rq)))"

definition AddNetworksBulk_starts :: "env \<Rightarrow> string \<Rightarrow> incoming \<Rightarrow> handler option" where
  "AddNetworksBulk_starts E key rq =
     (if \<not> auth key rq then None
      else map_option Bulk (unmarshal_into (d_list d_config zero_config) [] (admin_body E rq)))"

lemmas handlers_start = StateHandler_starts_def DeleteNode_starts_def AddNetwork_starts_def
  AddNode_starts_def AddNetworksBulk_starts_def

definition starts :: "env \<Rightarrow> string \<Rightarrow> incoming \<Rightarrow> registry \<Rightarrow> handler \<Rightarrow> bool" where
  "starts E key rq r h \<longleftrightarrow> Some h \<in> {StateHandler_starts rq r, DeleteNode_starts E key rq r,
     AddNetwork_starts E key rq, AddNode_starts E key rq, AddNetworksBulk_starts E key rq}"

text \<open>
  The networks whose state a step replaces by a new one, and what the pointers of another handler are
  worth afterwards, which got them from the registry \<open>r\<close>.
\<close>

fun replaces :: "handler \<Rightarrow> string set" where
  "replaces (Put_network nc best) = {TrimPrefix (nc_Route nc) ''/''}"
| "replaces (Bulk_put nc best ncs) = {bulk_route nc}"
| "replaces _ = {}"

definition keep_old :: "string set \<Rightarrow> registry \<Rightarrow> string \<Rightarrow> NetworkState option \<Rightarrow> NetworkState option" where
  "keep_old R r k old = (if old = None \<and> k \<in> R then r k else old)"

fun lose :: "string set \<Rightarrow> registry \<Rightarrow> handler \<Rightarrow> handler" where
  "lose R r (Adverts names advs) = Adverts (names - R) advs"
| "lose R r (Offers names advs k as) = Offers (names - R) advs k as"
| "lose R r (Room names advs k a as) = Room (names - R) advs k a as"
| "lose R r (Appending names advs k a as ds) = Appending (names - R) advs k a as ds"
| "lose R r (Read_best k url old) = Read_best k url (keep_old R r k old)"
| "lose R r (Put_best k url old best) = Put_best k url (keep_old R r k old) best"
| "lose R r (Read_all k url old) = Read_all k url (keep_old R r k old)"
| "lose R r h = h"

lemma lose_nothing [simp]: "lose {} r h = h"
  by (cases h) (simp_all add: keep_old_def)

section \<open>A handler alone\<close>

text \<open>A handler runs from start to end with nobody in between.\<close>

inductive runs_alone ::
  "env \<Rightarrow> handler \<Rightarrow> registry \<Rightarrow> checker \<Rightarrow> world \<Rightarrow> registry \<Rightarrow> checker \<Rightarrow> world \<Rightarrow> bool" for E where
  ends: "handler_step E h r c w = (None, r', c', w') \<Longrightarrow> runs_alone E h r c w r' c' w'"
| goes: "handler_step E h r c w = (Some h', r1, c1, w1) \<Longrightarrow> runs_alone E h' r1 c1 w1 r' c' w' \<Longrightarrow>
    runs_alone E h r c w r' c' w'"

text \<open>The offers of an advert come to what the nested loops do.\<close>

definition offer :: "int \<Rightarrow> NodeAdvert \<Rightarrow> DiscoveredNode list \<Rightarrow> DiscoveredNode list" where
  "offer now a ds = (if maxDiscovered \<le> length ds then ds else ds @ [discover now a])"

lemma append_new_offers:
  "append_new now known as ds = fold (offer now) (filter (\<lambda>a. na_URL a \<notin> known) as) ds"
  by (induction now known as ds rule: append_new.induct) (simp_all add: offer_def)

lemma merge_advert_offers:
  "merge_advert now known whole as ds =
     fold (offer now) (concat (map (\<lambda>_. filter (\<lambda>a. na_URL a \<notin> known) whole)
       (filter (\<lambda>a. na_URL a \<notin> known) as))) ds"
  by (induction now known whole as ds rule: merge_advert.induct) (simp_all add: append_new_offers)

lemma merge_network_offers:
  "merge_network now adv r = modify (ad_Name adv) (\<lambda>st. st\<lparr>st_Discovered :=
     fold (offer now) (offered (URL ` set (st_All st)) (ad_Nodes adv)) (st_Discovered st)\<rparr>) r"
  by (simp add: merge_network_def merge_advert_offers offered_def)

lemma offer_full: "maxDiscovered \<le> length ds \<Longrightarrow> offer now a ds = ds"
  and offer_room: "\<not> maxDiscovered \<le> length ds \<Longrightarrow> offer now a ds = ds @ [discover now a]"
  by (simp_all add: offer_def)

lemma runs_append:
  assumes "r k = Some st" "k \<in> names" "\<not> maxDiscovered \<le> length (st_Discovered st)"
    and "runs_alone E (Offers names advs k as)
      (put_discovered k (st_Discovered st @ [discover (clock w) a]) r) c w r' c' w'"
  shows "runs_alone E (Offers names advs k (a # as)) r c w r' c' w'"
proof -
  from assms(2,4) have "runs_alone E (Appending names advs k a as (st_Discovered st)) r c w r' c' w'"
    by (intro runs_alone.goes [of E "Appending names advs k a as (st_Discovered st)"]) simp_all
  with assms(1,2) have "runs_alone E (Room names advs k a as) r c w r' c' w'"
    by (intro runs_alone.goes [of E "Room names advs k a as"]) (simp_all add: pointed_def)
  with assms(1-3) show ?thesis
    by (intro runs_alone.goes [of E "Offers names advs k (a # as)"]) (simp_all add: pointed_def)
qed

lemma runs_offers:
  assumes "r k = Some st" "k \<in> names"
    and "runs_alone E (Adverts names advs)
      (put_discovered k (fold (offer (clock w)) as (st_Discovered st)) r) c w r' c' w'"
  shows "runs_alone E (Offers names advs k as) r c w r' c' w'"
  using assms
proof (induction as arbitrary: r st)
  case Nil
  have "put_discovered k (st_Discovered st) r = r"
    using Nil.prems(1) by (simp add: put_discovered_def modify_def map_upd_triv)
  with Nil.prems(3) have "runs_alone E (Adverts names advs) r c w r' c' w'" by simp
  then show ?case by (intro runs_alone.goes [of E "Offers names advs k []"]) simp_all
next
  case (Cons a as)
  show ?case
  proof (cases "maxDiscovered \<le> length (st_Discovered st)")
    case True
    have "runs_alone E (Offers names advs k as) r c w r' c' w'"
      using Cons.prems True by (intro Cons.IH) (simp_all add: offer_full)
    with Cons.prems(1,2) True show ?thesis
      by (intro runs_alone.goes [of E "Offers names advs k (a # as)"]) (simp_all add: pointed_def)
  next
    case False
    let ?ds = "st_Discovered st @ [discover (clock w) a]"
    let ?r = "put_discovered k ?ds r"
    have "put_discovered k (fold (offer (clock w)) as ?ds) ?r
        = put_discovered k (fold (offer (clock w)) (a # as) (st_Discovered st)) r"
      using Cons.prems(1) False by (simp add: put_discovered_def modify_def offer_room)
    with Cons.prems(3) have "runs_alone E (Adverts names advs)
        (put_discovered k (fold (offer (clock w)) as (st_Discovered (st\<lparr>st_Discovered := ?ds\<rparr>))) ?r) c w r' c' w'"
      by simp
    moreover have "?r k = Some (st\<lparr>st_Discovered := ?ds\<rparr>)"
      using Cons.prems(1) by (simp add: put_discovered_def)
    ultimately have "runs_alone E (Offers names advs k as) ?r c w r' c' w'"
      using Cons.IH Cons.prems(2) by blast
    with Cons.prems(1,2) False show ?thesis by (rule runs_append)
  qed
qed

lemma runs_adverts: "names = dom r \<Longrightarrow> runs_alone E (Adverts names advs) r c w (fold (merge_network (clock w)) advs r) c w"
proof (induction advs arbitrary: r)
  case Nil
  show ?case by (rule runs_alone.ends) simp
next
  case (Cons adv advs)
  let ?r = "merge_network (clock w) adv r"
  have IH: "runs_alone E (Adverts names advs) ?r c w (fold (merge_network (clock w)) advs ?r) c w"
    using Cons.prems by (intro Cons.IH) (simp add: merge_network_def)
  show ?case
  proof (cases "r (ad_Name adv)")
    case None
    then have "?r = r" by (simp add: merge_network_def modify_def)
    with None IH show ?thesis
      by (intro runs_alone.goes [of E "Adverts names (adv # advs)"]) (simp_all add: pointed_def)
  next
    case (Some st)
    let ?as = "offered (URL ` set (st_All st)) (ad_Nodes adv)"
    have r: "?r = put_discovered (ad_Name adv) (fold (offer (clock w)) ?as (st_Discovered st)) r"
      using Some by (simp add: merge_network_offers put_discovered_def modify_def)
    have n: "ad_Name adv \<in> names" using Some Cons.prems by blast
    have "runs_alone E (Offers names advs (ad_Name adv) ?as) r c w (fold (merge_network (clock w)) advs ?r) c w"
      using Some n IH unfolding r by (rule runs_offers)
    with Some n show ?thesis
      by (intro runs_alone.goes [of E "Adverts names (adv # advs)"]) (simp_all add: pointed_def)
  qed
qed

text \<open>
  Each of the five handlers: refused at once, or started with a handler whose run, alone, does what the
  handler does as a whole.
\<close>

lemma StateHandler_alone:
  assumes "StateHandler (clock w) rq r = (rs, r')"
  shows "case StateHandler_starts rq r of None \<Rightarrow> r' = r | Some h \<Rightarrow> runs_alone E h r c w r' c w"
  using assms runs_adverts [of "dom r" r E _ c w]
  by (auto simp: StateHandler_def StateHandler_starts_def split: option.split if_splits)

lemma DeleteNode_refused:
  assumes "admin_DeleteNode E key rq r = (rs, r')" "DeleteNode_starts E key rq r = None"
  shows "r' = r"
proof (cases "auth key rq \<and> \<not> length (admin_path rq) < 2")
  case False
  with assms(1) show ?thesis by (cases "auth key rq") (simp_all add: admin_DeleteNode_def)
next
  case True
  with assms show ?thesis
    by (cases "unmarshal_into d_url [] (admin_body E rq)"; cases "r (hd (admin_path rq))")
      (simp_all add: admin_DeleteNode_def DeleteNode_starts_def reg_All_def Let_def split: if_splits)
qed

lemma DeleteNode_started:
  assumes "DeleteNode_starts E key rq r = Some h"
  obtains k url st where "h = Read_best k url None" "r k = Some st"
    "snd (admin_DeleteNode E key rq r) = delete_url k url st r"
proof -
  from assms have a: "auth key rq" "\<not> length (admin_path rq) < 2"
    by (simp_all add: DeleteNode_starts_def split: if_splits)
  with assms obtain url where u: "unmarshal_into d_url [] (admin_body E rq) = Some url"
    by (cases "unmarshal_into d_url [] (admin_body E rq)") (simp_all add: DeleteNode_starts_def)
  with a assms obtain st where "url \<noteq> []" "r (hd (admin_path rq)) = Some st" "h = Read_best (hd (admin_path rq)) url None"
    by (cases "r (hd (admin_path rq))") (simp_all add: DeleteNode_starts_def reg_All_def split: if_splits)
  with a u that show thesis by (simp add: admin_DeleteNode_def reg_All_def)
qed

lemma DeleteNode_alone:
  assumes "admin_DeleteNode E key rq r = (rs, r')"
  shows "case DeleteNode_starts E key rq r of None \<Rightarrow> r' = r | Some h \<Rightarrow> runs_alone E h r c w r' c w"
proof (cases "DeleteNode_starts E key rq r")
  case None
  with DeleteNode_refused [OF assms] show ?thesis by simp
next
  case (Some h)
  then obtain k url st where h: "h = Read_best k url None" "r k = Some st" "r' = delete_url k url st r"
    by (rule DeleteNode_started) (simp add: assms)
  let ?r = "SetBest k (filter (\<lambda>n. URL n \<noteq> url) (st_Best st)) r"
  have "runs_alone E (Put_all k (filter (\<lambda>n. URL n \<noteq> url) (st_All st))) ?r c w r' c w"
    by (rule runs_alone.ends) (simp add: h(3) delete_url_def put_all_def)
  then have "runs_alone E (Read_all k url None) ?r c w r' c w"
    by (intro runs_alone.goes [of E "Read_all k url None"]) (simp_all add: held_def SetBest_def h(2))
  then have "runs_alone E (Put_best k url None (filter (\<lambda>n. URL n \<noteq> url) (st_Best st))) r c w r' c w"
    by (intro runs_alone.goes [of E "Put_best k url None (filter (\<lambda>n. URL n \<noteq> url) (st_Best st))"]) simp_all
  then have "runs_alone E h r c w r' c w"
    unfolding h(1) by (intro runs_alone.goes [of E "Read_best k url None"]) (simp_all add: held_def h(2))
  with Some show ?thesis by simp
qed

lemma runs_Probe_network:
  assumes "update_in_handler E r (nc_Protocol nc) (nc_Nodes nc) c w = (u, c', w')"
  shows "runs_alone E (Probe_network nc) r c w
    (case u of Inl p \<Rightarrow> r | Inr best \<Rightarrow> if best = [] then r else AddNetwork nc best r) c' w'"
proof (cases "\<exists>best. u = Inr best \<and> best \<noteq> []")
  case True
  then obtain best where b: "u = Inr best" "best \<noteq> []" by blast
  have "runs_alone E (Put_network nc best) r c' w' (AddNetwork nc best r) c' w'" by (rule runs_alone.ends) simp
  with assms b show ?thesis by (intro runs_alone.goes [of E "Probe_network nc"]) simp_all
next
  case False
  with assms show ?thesis by (intro runs_alone.ends) (auto split: sum.splits)
qed

lemma AddNetwork_alone:
  assumes "admin_AddNetwork E key rq r c w = (res, r', c', w')"
  shows "case AddNetwork_starts E key rq of None \<Rightarrow> (r', c', w') = (r, c, w) | Some h \<Rightarrow> runs_alone E h r c w r' c' w'"
proof (cases "AddNetwork_starts E key rq")
  case None
  with assms show ?thesis
    by (cases "auth key rq"; cases "unmarshal_into d_config zero_config (admin_body E rq)")
      (simp_all add: admin_AddNetwork_def AddNetwork_starts_def split: if_splits)
next
  case (Some h)
  then have a: "auth key rq" by (simp add: AddNetwork_starts_def split: if_splits)
  with Some obtain nc where nc: "unmarshal_into d_config zero_config (admin_body E rq) = Some nc"
    by (cases "unmarshal_into d_config zero_config (admin_body E rq)") (simp_all add: AddNetwork_starts_def)
  with a Some have f: "\<not> (nc_Route nc = [] \<or> nc_Protocol nc = [] \<or> nc_Nodes nc = [])"
    and h: "h = Probe_network (nc\<lparr>nc_Route := Trim (nc_Route nc) ''/''\<rparr>)"
    by (simp_all add: AddNetwork_starts_def split: if_splits)
  define nc' where "nc' = nc\<lparr>nc_Route := Trim (nc_Route nc) ''/''\<rparr>"
  obtain u c1 w1 where u: "update_in_handler E r (nc_Protocol nc') (nc_Nodes nc') c w = (u, c1, w1)"
    by (rule update_result)
  from assms a nc f u have "r' = (case u of Inl p \<Rightarrow> r | Inr best \<Rightarrow> if best = [] then r else AddNetwork nc' best r)"
    "c' = c1" "w' = w1"
    by (cases u; simp add: admin_AddNetwork_def nc'_def split: if_splits)+
  with runs_Probe_network [OF u] Some h show ?thesis by (simp add: nc'_def)
qed

lemma runs_Probe_node:
  assumes "update_in_handler E r (ProtocolOf r k) [n] c w = (u, c', w')"
  shows "runs_alone E (Probe_node k n) r c w
    (case u of Inl p \<Rightarrow> r | Inr best \<Rightarrow> if best = [] then r else AppendBest k (hd best) (AddNode k n r)) c' w'"
proof (cases "\<exists>best. u = Inr best \<and> best \<noteq> []")
  case True
  then obtain best where b: "u = Inr best" "best \<noteq> []" by blast
  have "runs_alone E (Put_node_best k (hd best)) (AddNode k n r) c' w' (AppendBest k (hd best) (AddNode k n r)) c' w'"
    by (rule runs_alone.ends) simp
  then have "runs_alone E (Put_node k n (hd best)) r c' w' (AppendBest k (hd best) (AddNode k n r)) c' w'"
    by (intro runs_alone.goes [of E "Put_node k n (hd best)"]) simp_all
  with assms b show ?thesis by (intro runs_alone.goes [of E "Probe_node k n"]) simp_all
next
  case False
  with assms show ?thesis by (intro runs_alone.ends) (auto split: sum.splits)
qed

lemma AddNode_alone:
  assumes "admin_AddNode E key rq r c w = (res, r', c', w')"
  shows "case AddNode_starts E key rq of None \<Rightarrow> (r', c', w') = (r, c, w) | Some h \<Rightarrow> runs_alone E h r c w r' c' w'"
proof (cases "auth key rq \<and> \<not> length (admin_path rq) < 2
    \<and> unmarshal_into d_node zero_node (admin_body E rq) \<noteq> None")
  case False
  with assms show ?thesis
    by (cases "auth key rq"; cases "length (admin_path rq) < 2"; cases "unmarshal_into d_node zero_node (admin_body E rq)")
      (simp_all add: admin_AddNode_def AddNode_starts_def)
next
  case True
  then obtain n where d: "auth key rq" "\<not> length (admin_path rq) < 2"
    "unmarshal_into d_node zero_node (admin_body E rq) = Some n" by blast
  define k where "k = hd (admin_path rq)"
  obtain u c1 w1 where u: "update_in_handler E r (ProtocolOf r k) [n] c w = (u, c1, w1)"
    by (rule update_result)
  from assms d u have "r' = (case u of Inl p \<Rightarrow> r | Inr best \<Rightarrow> if best = [] then r else AppendBest k (hd best) (AddNode k n r))"
    "c' = c1" "w' = w1"
    by (cases u; simp add: admin_AddNode_def k_def Let_def split: if_splits)+
  with runs_Probe_node [OF u] d show ?thesis by (simp add: AddNode_starts_def k_def)
qed

lemma runs_Bulk: "bulk_loop E ncs js r c w = (res, r', c', w') \<Longrightarrow> runs_alone E (Bulk ncs) r c w r' c' w'"
proof (induction ncs arbitrary: js r c w)
  case Nil
  then show ?case by (intro runs_alone.ends) simp
next
  case (Cons nc ncs)
  show ?case
  proof (cases "bulk_route nc = [] \<or> nc_Protocol nc = [] \<or> nc_Nodes nc = [] \<or> reg_Exists r (bulk_route nc)")
    case True
    then obtain js' where "bulk_loop E ncs js' r c w = (res, r', c', w')"
      using Cons.prems by (auto simp: Let_def split: if_splits)
    with True show ?thesis by (intro runs_alone.goes [OF _ Cons.IH]) auto
  next
    case False
    obtain u c1 w1 where u: "update_in_handler E r (nc_Protocol nc) (nc_Nodes nc) c w = (u, c1, w1)"
      by (rule update_result)
    have "runs_alone E (Bulk_probe nc ncs) r c w r' c' w'"
    proof (cases u)
      case (Inl p)
      with Cons.prems False u show ?thesis by (intro runs_alone.ends) (simp add: Let_def)
    next
      case (Inr best)
      let ?r = "if best = [] then r else AddNetwork (nc\<lparr>nc_Route := bulk_route nc\<rparr>) best r"
      from Cons.prems False u Inr obtain js' where "bulk_loop E ncs js' ?r c1 w1 = (res, r', c', w')"
        by (simp add: Let_def split: if_splits)
      then have b: "runs_alone E (Bulk ncs) ?r c1 w1 r' c' w'" by (rule Cons.IH)
      show ?thesis
      proof (cases "best = []")
        case True
        with b u Inr show ?thesis by (intro runs_alone.goes [of E "Bulk_probe nc ncs"]) simp_all
      next
        case False
        with b have "runs_alone E (Bulk_put nc best ncs) r c1 w1 r' c' w'"
          by (intro runs_alone.goes [of E "Bulk_put nc best ncs"]) simp_all
        with u Inr False show ?thesis by (intro runs_alone.goes [of E "Bulk_probe nc ncs"]) simp_all
      qed
    qed
    with False show ?thesis by (intro runs_alone.goes [of E "Bulk (nc # ncs)"]) simp_all
  qed
qed

lemma AddNetworksBulk_alone:
  assumes "admin_AddNetworksBulk E key rq r c w = (res, r', c', w')"
  shows "case AddNetworksBulk_starts E key rq of None \<Rightarrow> (r', c', w') = (r, c, w)
    | Some h \<Rightarrow> runs_alone E h r c w r' c' w'"
proof (cases "auth key rq \<and> (\<exists>cfgs. unmarshal_into (d_list d_config zero_config) [] (admin_body E rq) = Some cfgs)")
  case False
  with assms show ?thesis
    by (cases "auth key rq"; cases "unmarshal_into (d_list d_config zero_config) [] (admin_body E rq)")
      (simp_all add: admin_AddNetworksBulk_def AddNetworksBulk_starts_def)
next
  case True
  then obtain cfgs where d: "auth key rq"
    "unmarshal_into (d_list d_config zero_config) [] (admin_body E rq) = Some cfgs" by blast
  obtain u r1 c1 w1 where b: "bulk_loop E cfgs [] r c w = (u, r1, c1, w1)" by (metis prod_cases4)
  have "(r', c', w') = (r1, c1, w1)"
    using assms d b by (cases "cfgs = []"; cases u) (simp_all add: admin_AddNetworksBulk_def)
  with runs_Bulk [OF b] d show ?thesis by (simp add: AddNetworksBulk_starts_def)
qed

end
