(* ===== verification/Bootstrap.thy ===== *)
theory Bootstrap
  imports Gossip
begin

text \<open>
  pkg/bootstrap and cmd/app/bootstrap.go: a node announces itself with a request signed by
  HMAC-SHA256 over the concatenation of its fields; the handler checks the signature, adds the
  peer and answers with its peer list. \<open>mac key msg\<close> stands for \<open>crypto/hmac\<close> with SHA-256; it is
  an argument, and no theorem uses a law of it.
\<close>

record AnnounceRequest =
  ar_ID :: string
  ar_Name :: string
  ar_InternalAddr :: string
  ar_Timestamp :: int
  ar_Signature :: string

record AnnounceHandler =
  h_myID :: string
  h_myAddr :: string
  h_secret :: string

definition announce_payload :: "string \<Rightarrow> string \<Rightarrow> string \<Rightarrow> int \<Rightarrow> string" where
  "announce_payload i name addr ts = i @ name @ addr @ FormatInt ts"

definition sign :: "(string \<Rightarrow> string \<Rightarrow> string) \<Rightarrow> string \<Rightarrow> string \<Rightarrow> string" where
  "sign mac secret payload = hex_encode (mac secret payload)"

definition announce_json :: "AnnounceRequest \<Rightarrow> json" where
  "announce_json a =
     JObj [(''id'', JStr (ar_ID a)), (''name'', JStr (ar_Name a)),
           (''internal_addr'', JStr (ar_InternalAddr a)), (''timestamp'', JInt (ar_Timestamp a)),
           (''signature'', JStr (ar_Signature a))]"

definition d_announce :: "AnnounceRequest decoder" where
  "d_announce = d_object (\<lambda>kvs a.
     Option.bind (field ''id'' d_string kvs (ar_ID a)) (\<lambda>i.
     Option.bind (field ''name'' d_string kvs (ar_Name a)) (\<lambda>nm.
     Option.bind (field ''internal_addr'' d_string kvs (ar_InternalAddr a)) (\<lambda>ad.
     Option.bind (field ''timestamp'' d_int kvs (ar_Timestamp a)) (\<lambda>ts.
     Option.bind (field ''signature'' d_string kvs (ar_Signature a)) (\<lambda>sg.
       Some \<lparr>ar_ID = i, ar_Name = nm, ar_InternalAddr = ad, ar_Timestamp = ts,
             ar_Signature = sg\<rparr>))))))"

definition zero_announce :: AnnounceRequest where
  "zero_announce =
     \<lparr>ar_ID = [], ar_Name = [], ar_InternalAddr = [], ar_Timestamp = 0, ar_Signature = []\<rparr>"

definition peers_json :: "Peer list \<Rightarrow> json" where
  "peers_json ps = JObj [(''peers'', JArr (map peer_json ps))]"

definition d_announce_response :: "Peer list decoder" where
  "d_announce_response = d_object (\<lambda>kvs ps. field ''peers'' (d_list d_peer zero_peer) kvs ps)"

section \<open>The handler\<close>

definition NewHandler :: "string \<Rightarrow> string \<Rightarrow> string \<Rightarrow> AnnounceHandler" where
  "NewHandler myID myAddr secret = \<lparr>h_myID = myID, h_myAddr = myAddr, h_secret = secret\<rparr>"

definition signature_ok :: "(string \<Rightarrow> string \<Rightarrow> string) \<Rightarrow> string \<Rightarrow> AnnounceRequest \<Rightarrow> bool" where
  "signature_ok mac secret a \<longleftrightarrow>
     sign mac secret (announce_payload (ar_ID a) (ar_Name a) (ar_InternalAddr a) (ar_Timestamp a))
       = ar_Signature a"

definition announce_ServeHTTP ::
  "(string \<Rightarrow> string \<Rightarrow> string) \<Rightarrow> AnnounceHandler \<Rightarrow> string list \<Rightarrow> incoming \<Rightarrow> peer_map
     \<Rightarrow> response \<times> peer_map" where
  "announce_ServeHTTP mac h ord r s =
     (if in_method r \<noteq> ''POST'' then (http_error ''method not allowed'' 405, s)
      else case decode_into d_announce zero_announce (in_body r) of
             None \<Rightarrow> (http_error ''invalid JSON'' 400, s)
           | Some a \<Rightarrow>
               (if \<not> signature_ok mac (h_secret h) a then (http_error ''invalid signature'' 403, s)
                else let s' = peers_Add \<lparr>ID = ar_ID a, Addr = ar_InternalAddr a, Failures = 0\<rparr> s;
                         ps = peers_List ord s'
                                @ [\<lparr>ID = h_myID h, Addr = h_myAddr h, Failures = 0\<rparr>]
                     in (writeJSON 200 (peers_json ps), s')))"

section \<open>The client\<close>

datatype announce_error = AnnounceFailed net_error | AnnounceStatus int | AnnounceDecode

definition announce_request ::
  "(string \<Rightarrow> string \<Rightarrow> string) \<Rightarrow> string \<Rightarrow> string \<Rightarrow> string \<Rightarrow> string \<Rightarrow> int \<Rightarrow> AnnounceRequest" where
  "announce_request mac i name addr secret ts =
     \<lparr>ar_ID = i, ar_Name = name, ar_InternalAddr = addr, ar_Timestamp = ts,
      ar_Signature = sign mac secret (announce_payload i name addr ts)\<rparr>"

definition Announce ::
  "env \<Rightarrow> (string \<Rightarrow> string \<Rightarrow> string) \<Rightarrow> string \<Rightarrow> string \<Rightarrow> string \<Rightarrow> string \<Rightarrow> string \<Rightarrow> world
     \<Rightarrow> (announce_error + Peer list) \<times> world" where
  "Announce E mac serverURL i name addr secret w =
     (let a = announce_request mac i name addr secret (clock w div sec 1)
      in case http_Post E (serverURL @ ''/announce'') (Marshal (announce_json a)) w of
           (Failed e, w') \<Rightarrow> (Inl (AnnounceFailed e), w')
         | (Got rs, w') \<Rightarrow>
             (if rs_status rs \<noteq> 200 then (Inl (AnnounceStatus (rs_status rs)), w')
              else case decode_into d_announce_response [] (rs_body rs) of
                     None \<Rightarrow> (Inl AnnounceDecode, w')
                   | Some ps \<Rightarrow> (Inr ps, w')))"

text \<open>\<open>initBootstrap\<close> of cmd/app/bootstrap.go; the fresh node ID is an argument.\<close>

definition initBootstrap ::
  "env \<Rightarrow> (string \<Rightarrow> string \<Rightarrow> string) \<Rightarrow> string \<Rightarrow> string \<Rightarrow> string \<Rightarrow> string \<Rightarrow> string \<Rightarrow> string
     \<Rightarrow> world \<Rightarrow> peer_map \<times> string \<times> string \<times> world" where
  "initBootstrap E mac nodeID podIP port podName bootstrapURL secret w =
     (let internalAddr = podIP @ '':'' @ port;
          s = peers_Add \<lparr>ID = nodeID, Addr = internalAddr, Failures = 0\<rparr> NewStore
      in if bootstrapURL = [] then (s, nodeID, internalAddr, w)
         else case Announce E mac bootstrapURL nodeID podName internalAddr secret w of
                (Inl e, w') \<Rightarrow> (s, nodeID, internalAddr, w')
              | (Inr list, w') \<Rightarrow>
                  (fold peers_Add (filter (\<lambda>p. ID p \<noteq> nodeID) list) s, nodeID, internalAddr, w'))"

section \<open>Facts\<close>

definition announce_ok :: "AnnounceRequest \<Rightarrow> bool" where
  "announce_ok a \<longleftrightarrow> valid_utf8 (ar_ID a) \<and> valid_utf8 (ar_Name a) \<and> valid_utf8 (ar_InternalAddr a)
     \<and> in_i64 (ar_Timestamp a) \<and> valid_utf8 (ar_Signature a)"

interpretation announce: typed_decoder d_announce announce_ok
  by unfold_locales (auto simp: d_announce_def announce_ok_def bind_eq_Some_conv elim!: d_object_typed;
      (erule (2) strings.field_typed ints.field_typed)+)

interpretation announce_response: typed_decoder d_announce_response "list_all peer_ok"
  by unfold_locales (auto simp: d_announce_response_def elim!: d_object_typed;
      (erule (2) peer.elements.field_typed)+)

lemma announce_typed:
  assumes "announce_ServeHTTP mac h ord rq s = (rs, s')" "peers_typed s"
  shows "peers_typed s'"
proof -
  have z: "announce_ok zero_announce" by (simp add: announce_ok_def zero_announce_def in_i64_def)
  have "peers_typed (peers_Add \<lparr>ID = ar_ID a, Addr = ar_InternalAddr a, Failures = 0\<rparr> s)"
    if "decode_into d_announce zero_announce (in_body rq) = Some a" for a
    using announce.decode_typed [OF that z] assms(2)
    by (intro peers_typed_simps) (auto simp: announce_ok_def peer_ok_def in_i64_def)
  with assms show ?thesis
    by (auto simp: announce_ServeHTTP_def Let_def split: if_splits option.splits)
qed

text \<open>At the start, the store holds the process itself and what the server it announced itself to sent.\<close>

lemma initBootstrap_typed:
  assumes "initBootstrap E mac nodeID podIP port podName url secret w = (s, i, addr, w')"
    "valid_utf8 nodeID" "valid_utf8 podIP" "valid_utf8 port"
  shows "peers_typed s"
proof -
  have self: "peers_typed (peers_Add \<lparr>ID = nodeID, Addr = podIP @ '':'' @ port, Failures = 0\<rparr> NewStore)"
    using assms(2-4) by (intro peers_typed_simps) (simp_all add: peer_ok_def in_i64_def valid_utf8_append)
  have "list_all peer_ok ps" if "Announce E mac u n nm a sec' w = (Inr ps, w'')" for u n nm a sec' ps w''
    using that by (auto simp: Announce_def Let_def split: prod.splits reply.splits if_splits option.splits
        dest!: announce_response.decode_typed)
  with self assms(1) show ?thesis
    by (fastforce simp: initBootstrap_def Let_def list_all_iff intro!: peers_typed_fold
        split: if_splits prod.splits sum.splits)
qed

lemma signature_ok_request [simp]:
  "signature_ok mac secret (announce_request mac i name addr secret ts)"
  by (simp add: signature_ok_def announce_request_def)

lemma d_announce_json [simp]:
  "in_i64 (ar_Timestamp a) \<Longrightarrow> d_announce (announce_json a) z = Some a"
  by (cases z) (simp add: d_announce_def announce_json_def d_object_def)

lemma d_announce_response_json [simp]:
  "\<forall>p \<in> set ps. in_i64 (Failures p) \<Longrightarrow> d_announce_response (peers_json ps) z = Some ps"
  by (simp add: d_announce_response_def peers_json_def d_object_def d_list_def d_elems_peers)

lemma self_stays:
  assumes "s i = Some p" "\<forall>q \<in> set ps. ID q \<noteq> i"
  shows "fold peers_Add ps s i = Some p"
  using assms by (induction ps arbitrary: s) (auto simp: pm.lookup_add)

lemma decode_heartbeat:
  assumes "valid_utf8 i" "in_i64 ts"
  shows "decode_into d_heartbeat ([], 0) (Marshal (heartbeat_json i ts)) = Some (i, ts)"
  using assms decode_into_Marshal [of "heartbeat_json i ts" "[]" d_heartbeat "([], 0)"]
  by (simp add: heartbeat_json_def d_heartbeat_def d_object_def maxNestingDepth_def del: Marshal.simps)

lemma decode_announce:
  assumes "valid_utf8 (ar_ID a)" "valid_utf8 (ar_Name a)" "valid_utf8 (ar_InternalAddr a)"
    "valid_utf8 (ar_Signature a)" "in_i64 (ar_Timestamp a)"
  shows "decode_into d_announce zero_announce (Marshal (announce_json a)) = Some a"
proof -
  have "wf_json (announce_json a)" "depth (announce_json a) = 1"
    using assms by (simp_all add: announce_json_def)
  with assms(5) decode_into_Marshal [of "announce_json a" "[]" d_announce zero_announce] show ?thesis
    by (simp add: maxNestingDepth_def)
qed

lemma decode_peers:
  assumes "list_all peer_ok ps"
  shows "decode_into d_announce_response [] (Marshal (peers_json ps) @ [CHR 0x0A]) = Some ps"
proof -
  have "wf_json (peers_json ps)" "depth (peers_json ps) \<le> 3"
    using assms peers_json_wf [of ps] by (simp_all add: peers_json_def)
  with assms decode_into_Marshal [of "peers_json ps" "[CHR 0x0A]" d_announce_response "[]"] show ?thesis
    by (simp add: maxNestingDepth_def list_all_iff peer_ok_def)
qed

section \<open>Properties\<close>

text \<open>
  (C31) The messages between the processes survive the wire: a heartbeat, a list of peers, an advert of
  the networks, an announcement and its answer are read back as they were written, as long as the
  names are UTF-8 and the numbers fit into 64 bits.
\<close>
theorem messages_roundtrip:
  assumes "valid_utf8 i" "in_i64 ts"
    and "valid_utf8 (gm_From g)" "list_all peer_ok (gm_Peers g)"
    and "valid_utf8 (sm_From m)" "list_all network_ok (sm_Networks m)"
    and "valid_utf8 (ar_ID a)" "valid_utf8 (ar_Name a)" "valid_utf8 (ar_InternalAddr a)"
      "valid_utf8 (ar_Signature a)" "in_i64 (ar_Timestamp a)"
    and "list_all peer_ok ps"
  shows "decode_into d_heartbeat ([], 0) (Marshal (heartbeat_json i ts)) = Some (i, ts)
    \<and> decode_into d_gossip zero_gossip (Marshal (gossip_json g)) = Some g
    \<and> decode_into d_state zero_state (Marshal (state_json m)) = Some m
    \<and> decode_into d_announce zero_announce (Marshal (announce_json a)) = Some a
    \<and> decode_into d_announce_response [] (rs_body (writeJSON 200 (peers_json ps))) = Some ps"
  using assms decode_peers
  by (simp add: decode_heartbeat decode_gossip decode_state decode_announce writeJSON_def json_reply_def)

text \<open>
  (C29) The announcement protocol end to end. When the server holds the client's secret and the names
  are UTF-8, the client ends with the server's peers, itself and the server, and the server has the
  client in its store.
\<close>
theorem announce_handshake:
  assumes ps: "ps = peers_List ord (peers_Add \<lparr>ID = i, Addr = addr, Failures = 0\<rparr> s)
               @ [\<lparr>ID = h_myID h, Addr = h_myAddr h, Failures = 0\<rparr>]"
    and server: "\<And>v rq. transport E v rq
      = (Got (fst (announce_ServeHTTP mac h ord (post ''/announce'' (rq_body rq)) s)), d)"
    and utf8: "valid_utf8 i" "valid_utf8 name" "valid_utf8 addr" "valid_utf8 (h_myID h)" "valid_utf8 (h_myAddr h)"
    and "url_ok E (url @ ''/announce'')" "is_order ord (peers_Add \<lparr>ID = i, Addr = addr, Failures = 0\<rparr> s)"
      "in_i64 (clock w div sec 1)" "\<forall>p \<in> ran s. peer_ok p"
  shows "fst (Announce E mac url i name addr (h_secret h) w) = Inr ps
    \<and> snd (announce_ServeHTTP mac h ord (post ''/announce''
          (Marshal (announce_json (announce_request mac i name addr (h_secret h) (clock w div sec 1))))) s)
        = s(i \<mapsto> \<lparr>ID = i, Addr = addr, Failures = 0\<rparr>)
    \<and> (\<forall>j p. j \<noteq> i \<longrightarrow> s j = Some p \<longrightarrow> p \<in> set ps)"
proof -
  let ?s = "peers_Add \<lparr>ID = i, Addr = addr, Failures = 0\<rparr> s"
  define a where "a = announce_request mac i name addr (h_secret h) (clock w div sec 1)"
  then have q: "signature_ok mac (h_secret h) a" "ar_ID a = i" "ar_InternalAddr a = addr" by simp_all
      (simp_all add: announce_request_def)
  have "decode_into d_announce zero_announce (Marshal (announce_json a)) = Some a"
    using utf8 assms(10) by (intro decode_announce) (simp_all add: a_def announce_request_def sign_def)
  then have R: "announce_ServeHTTP mac h ord (post ''/announce'' (Marshal (announce_json a))) s
      = (writeJSON 200 (peers_json ps), ?s)"
    by (simp add: announce_ServeHTTP_def post_def q ps Let_def)
  have "set ps = insert \<lparr>ID = h_myID h, Addr = h_myAddr h, Failures = 0\<rparr> (ran ?s)"
    using assms(9) by (simp add: ps peers_List_set)
  moreover have "ran ?s \<subseteq> insert \<lparr>ID = i, Addr = addr, Failures = 0\<rparr> (ran s)"
    "\<forall>j p. j \<noteq> i \<longrightarrow> s j = Some p \<longrightarrow> p \<in> ran ?s"
    by (auto simp: ran_def peers_Add_def)
  ultimately have ok: "list_all peer_ok ps" "\<forall>j p. j \<noteq> i \<longrightarrow> s j = Some p \<longrightarrow> p \<in> set ps"
    using assms(11) utf8 by (auto simp: list_all_iff peer_ok_def in_i64_def)
  have "fst (Announce E mac url i name addr (h_secret h) w) = Inr ps"
    using assms(8) decode_peers [OF ok(1)]
    by (simp add: Announce_def Let_def http_Post_def client_do_def server R flip: a_def)
      (simp add: writeJSON_def json_reply_def)
  with R ok(2) show ?thesis by (simp add: peers_Add_def a_def)
qed

text \<open>
  (C30) Only a signed announcement changes the peer store: every other request is refused with 405,
  400 or 403 and leaves it as it is.
\<close>
theorem announce_guard:
  assumes "announce_ServeHTTP mac h ord r s = (rs, s')"
  shows "(s' = s \<and> rs_status rs \<in> {400, 403, 405})
    \<or> (\<exists>a. decode_into d_announce zero_announce (in_body r) = Some a
        \<and> ar_Signature a = hex_encode (mac (h_secret h)
            (ar_ID a @ ar_Name a @ ar_InternalAddr a @ FormatInt (ar_Timestamp a)))
        \<and> s' = s(ar_ID a \<mapsto> \<lparr>ID = ar_ID a, Addr = ar_InternalAddr a, Failures = 0\<rparr>)
        \<and> rs_status rs = 200)"
  using assms
  by (cases "decode_into d_announce zero_announce (in_body r)")
    (auto simp: announce_ServeHTTP_def signature_ok_def sign_def announce_payload_def peers_Add_def Let_def
      split: if_splits)

text \<open>
  The signed payload does not separate its fields and the handler does not look at the time:
  whoever sees one announcement for the ID \<open>i @ x\<close> can register the ID \<open>i\<close> with its signature, at
  any time later, without the secret.
\<close>
theorem announce_ambiguous:
  assumes "b = (announce_request mac (i @ x) name addr (h_secret h) ts)\<lparr>ar_ID := i, ar_Name := x @ name\<rparr>"
    and "decode_into d_announce zero_announce body = Some b"
  shows "rs_status (fst (announce_ServeHTTP mac h ord (post path body) s)) = 200
    \<and> snd (announce_ServeHTTP mac h ord (post path body) s) i
        = Some \<lparr>ID = i, Addr = addr, Failures = 0\<rparr>"
proof -
  have "signature_ok mac (h_secret h) b" "ar_ID b = i" "ar_InternalAddr b = addr"
    by (simp_all add: assms(1) announce_request_def signature_ok_def announce_payload_def)
  with assms(2) show ?thesis by (simp add: announce_ServeHTTP_def post_def Let_def peers_Add_def)
qed

subsection \<open>Instances\<close>

definition demo_mac :: "string \<Rightarrow> string \<Rightarrow> string" where
  "demo_mac key msg = key @ msg"

definition demo_handler :: AnnounceHandler where
  "demo_handler = NewHandler ''srv'' ''h:1'' ''k''"

definition demo_peers :: "Peer list" where
  "demo_peers = [\<lparr>ID = ''c'', Addr = ''h:2'', Failures = 0\<rparr>, \<lparr>ID = ''srv'', Addr = ''h:1'', Failures = 0\<rparr>]"

text \<open>A network on which every request reaches the handler.\<close>

definition demo_net :: env where
  "demo_net = (answering (\<lambda>rq. Got (fst (announce_ServeHTTP demo_mac demo_handler [''c'']
        (post ''/announce'' (rq_body rq)) NewStore))))"

theorem announce_handshake_witness:
  "fst (Announce demo_net demo_mac ''u'' ''c'' ''n'' ''h:2'' (h_secret demo_handler) new_world)
     = Inr demo_peers"
  by (rule conjunct1 [OF announce_handshake [where ord = "[''c'']" and s = NewStore and h = demo_handler and mac = demo_mac and d = 0]])
    (simp_all add: demo_net_def demo_handler_def NewHandler_def demo_peers_def
      NewStore_def peers_List_def peers_Add_def is_order_def in_i64_def)

theorem messages_roundtrip_witness:
  "decode_into d_heartbeat ([], 0) (Marshal (heartbeat_json ''n1'' 7)) = Some (''n1'', 7)
    \<and> decode_into d_state zero_state (Marshal (state_json (demo_state ''s'' ''u''))) = Some (demo_state ''s'' ''u'')"
proof -
  have "list_all peer_ok demo_peers" "valid_utf8 (gm_From \<lparr>gm_From = ''p'', gm_Peers = demo_peers\<rparr>)"
    "list_all peer_ok (gm_Peers \<lparr>gm_From = ''p'', gm_Peers = demo_peers\<rparr>)"
    by (simp_all add: demo_peers_def peer_ok_def in_i64_def)
  moreover have "valid_utf8 (sm_From (demo_state ''s'' ''u''))" "list_all network_ok (sm_Networks (demo_state ''s'' ''u''))"
    using demo_state_ok [of "''s''" "''u''"] by simp_all
  moreover have "valid_utf8 ''n1''" "in_i64 7" by (simp_all add: in_i64_def)
  moreover have "valid_utf8 (ar_ID zero_announce)" "valid_utf8 (ar_Name zero_announce)"
    "valid_utf8 (ar_InternalAddr zero_announce)" "valid_utf8 (ar_Signature zero_announce)"
    "in_i64 (ar_Timestamp zero_announce)" by (simp_all add: zero_announce_def in_i64_def)
  ultimately show ?thesis using messages_roundtrip by blast
qed

theorem announce_guard_witness:
  "snd (announce_ServeHTTP demo_mac demo_handler [] (post ''/announce'' ''x'') NewStore) = NewStore"
proof -
  have "Decode ''x'' = None" by code_simp
  then show ?thesis
    using announce_guard [of demo_mac demo_handler "[]" "post ''/announce'' ''x''" NewStore
      "http_error ''invalid JSON'' 400" NewStore]
    by (simp add: announce_ServeHTTP_def post_def decode_into_def)
qed

theorem announce_ambiguous_witness:
  "snd (announce_ServeHTTP demo_mac demo_handler [] (post ''/announce'' (Marshal (announce_json
       ((announce_request demo_mac (''c'' @ ''n'') [] ''h:2'' ''k'' 0)\<lparr>ar_ID := ''c'', ar_Name := ''n''\<rparr>)))) NewStore) ''c''
     = Some \<lparr>ID = ''c'', Addr = ''h:2'', Failures = 0\<rparr>"
proof -
  let ?b = "(announce_request demo_mac (''c'' @ ''n'') [] ''h:2'' ''k'' 0)\<lparr>ar_ID := ''c'', ar_Name := ''n''\<rparr>"
  have "decode_into d_announce zero_announce (Marshal (announce_json ?b)) = Some ?b"
    by (rule decode_announce) (simp_all add: announce_request_def sign_def in_i64_def)
  then show ?thesis
    using announce_ambiguous [where b = ?b and mac = demo_mac and i = "''c''" and x = "''n''" and name = "[]"
        and addr = "''h:2''" and h = demo_handler and ts = 0]
    by (simp add: demo_handler_def NewHandler_def)
qed

end
