(* ===== verification/Throttle.thy ===== *)
theory Throttle
  imports Registry
begin

text \<open>
  pkg/api/throttle.go and ratelimit.go: the recognition of rate-limited answers, and the throttler
  that keeps a node out of use for an exponentially growing time after each of them. Times are
  nanoseconds. The interface the callers see (\<open>IsThrottled\<close>, \<open>Mark429\<close>, \<open>Reset\<close>) is the locale
  \<open>throttler\<close>.
\<close>

section \<open>ratelimit.go\<close>

definition looksLikeRL :: "string \<Rightarrow> bool" where
  "looksLikeRL s =
     (let l = ToLower s
      in Contains l ''rate limit'' \<or> Contains l ''too many request''
           \<or> Contains l ''too many requests'')"

definition message_of :: "(string \<times> json) list \<Rightarrow> string option" where
  "message_of kvs = (case obj_get kvs ''message'' of Some (JStr s) \<Rightarrow> Some s | _ \<Rightarrow> None)"

definition says_limited :: "(string \<times> json) list \<Rightarrow> bool" where
  "says_limited kvs = (case message_of kvs of Some s \<Rightarrow> looksLikeRL s | None \<Rightarrow> False)"

definition isRateLimited :: "response \<Rightarrow> bool" where
  "isRateLimited rs =
     (if rs_status rs = 429 then True
      else if TrimSpace (hget (rs_hdr rs) ''Retry-After'') \<noteq> [] then True
      else if EqualFold (hget (rs_hdr rs) ''X-RateLimit-Remaining'') ''0'' then True
      else if rs_body rs = [] then False
      else case Unmarshal_any (rs_body rs) of
             Some (JObj j) \<Rightarrow>
               (case obj_get j ''error'' of Some (JObj e) \<Rightarrow> says_limited e | _ \<Rightarrow> False)
                 \<or> says_limited j
           | _ \<Rightarrow> False)"

section \<open>throttle.go\<close>

record throttle_state =
  until :: "string \<rightharpoonup> int"
  backoffs :: "string \<rightharpoonup> int"
  base :: int
  maxBackoff :: int

definition NewThrottler :: throttle_state where
  "NewThrottler = \<lparr>until = Map.empty, backoffs = Map.empty, base = sec 30, maxBackoff = sec 600\<rparr>"

definition IsThrottled :: "throttle_state \<Rightarrow> string \<Rightarrow> int \<Rightarrow> bool" where
  "IsThrottled t url now = (case until t url of Some u \<Rightarrow> now < u | None \<Rightarrow> False)"

text \<open>The loop \<open>for i := 1; i < n; i++\<close> of \<open>Mark429\<close>.\<close>

function backoff_loop :: "int \<Rightarrow> int \<Rightarrow> int \<Rightarrow> int \<Rightarrow> int" where
  "backoff_loop i n b mx =
     (if i < n
      then let b' = i64 (b * 2) in if mx \<le> b' then mx else backoff_loop (i + 1) n b' mx
      else b)"
  by pat_completeness auto
termination
  by (relation "measure (\<lambda>(i, n, b, mx). nat (n - i))") auto

declare backoff_loop.simps [simp del]

definition Mark429 :: "string \<Rightarrow> int \<Rightarrow> throttle_state \<Rightarrow> throttle_state" where
  "Mark429 url now t =
     (let n = i64 ((case backoffs t url of None \<Rightarrow> 0 | Some c \<Rightarrow> c) + 1);
          backoff = backoff_loop 1 n (base t) (maxBackoff t)
      in t\<lparr>backoffs := (backoffs t)(url \<mapsto> n), until := (until t)(url \<mapsto> now + backoff)\<rparr>)"

definition Reset :: "string \<Rightarrow> throttle_state \<Rightarrow> throttle_state" where
  "Reset url t = t\<lparr>until := (until t)(url := None), backoffs := (backoffs t)(url := None)\<rparr>"

section \<open>The backoff\<close>

lemma backoff_loop_min:
  assumes "0 < b" "b \<le> mx" "mx < 2 ^ 62" "i \<le> n"
  shows "backoff_loop i n b mx = min (b * 2 ^ nat (n - i)) mx"
  using assms
proof (induction i n b mx rule: backoff_loop.induct)
  case (1 i n b mx)
  show ?case
  proof (cases "i < n")
    case False
    with 1 show ?thesis by (subst backoff_loop.simps) simp
  next
    case True
    have b2: "i64 (b * 2) = b * 2" using 1(2-4) by (intro i64_id) (simp add: in_i64_def)
    have e: "nat (n - i) = Suc (nat (n - (i + 1)))" using True by simp
    show ?thesis
    proof (cases "mx \<le> b * 2")
      case True
      have "mx \<le> b * 2 ^ nat (n - i)"
      proof -
        have "b * 2 * 1 \<le> b * 2 * 2 ^ nat (n - (i + 1))"
          using 1(2) by (intro mult_left_mono) simp_all
        with True e show ?thesis by simp
      qed
      with True \<open>i < n\<close> show ?thesis by (subst backoff_loop.simps) (simp add: b2 Let_def)
    next
      case False
      have "backoff_loop (i + 1) n (b * 2) mx = min (b * 2 * 2 ^ nat (n - (i + 1))) mx"
        using 1(1) [OF True refl] 1(2-4) False True b2 by simp
      with False True e show ?thesis by (subst backoff_loop.simps) (simp add: b2 Let_def)
    qed
  qed
qed

text \<open>
  A throttler in use: the limits of \<open>NewThrottler\<close>, non-negative counters. The counter itself is
  a Go \<open>int\<close>; below its limit it does not wrap.
\<close>

definition throttle_wf :: "throttle_state \<Rightarrow> bool" where
  "throttle_wf t \<longleftrightarrow>
     base t = sec 30 \<and> maxBackoff t = sec 600 \<and>
     (\<forall>url n. backoffs t url = Some n \<longrightarrow> 1 \<le> n \<and> n < 2 ^ 63)"

definition strikes :: "throttle_state \<Rightarrow> string \<Rightarrow> int" where
  "strikes t url = (case backoffs t url of None \<Rightarrow> 0 | Some c \<Rightarrow> c)"

lemma strikes_nonneg: "throttle_wf t \<Longrightarrow> 0 \<le> strikes t url"
  by (fastforce simp: throttle_wf_def strikes_def split: option.split)

lemma Mark429_until:
  assumes "throttle_wf t" "strikes t url < 2 ^ 63 - 1"
  shows "until (Mark429 url now t) url = Some (now + min (sec 30 * 2 ^ nat (strikes t url)) (sec 600))"
proof -
  have n: "i64 (strikes t url + 1) = strikes t url + 1"
    using assms strikes_nonneg [OF assms(1)] by (intro i64_id) (simp add: in_i64_def)
  have "backoff_loop 1 (strikes t url + 1) (sec 30) (sec 600)
      = min (sec 30 * 2 ^ nat (strikes t url)) (sec 600)"
    using strikes_nonneg [OF assms(1), of url]
    by (subst backoff_loop_min) (simp_all add: sec_def)
  with n assms(1) show ?thesis
    by (simp add: Mark429_def Let_def throttle_wf_def flip: strikes_def)
qed

lemma Mark429_wf:
  assumes "throttle_wf t" "strikes t url < 2 ^ 63 - 1"
  shows "throttle_wf (Mark429 url now t)" "strikes (Mark429 url now t) url = strikes t url + 1"
proof -
  have "i64 (strikes t url + 1) = strikes t url + 1"
    using assms strikes_nonneg [OF assms(1)] by (intro i64_id) (simp add: in_i64_def)
  with assms strikes_nonneg [OF assms(1), of url]
  show "throttle_wf (Mark429 url now t)" "strikes (Mark429 url now t) url = strikes t url + 1"
    by (auto simp: throttle_wf_def Mark429_def Let_def strikes_def)
qed

lemma Reset_wf: "throttle_wf t \<Longrightarrow> throttle_wf (Reset url t)"
  by (simp add: throttle_wf_def Reset_def)

lemma NewThrottler_wf [simp]: "throttle_wf NewThrottler"
  by (simp add: throttle_wf_def NewThrottler_def)

section \<open>The interface\<close>

text \<open>
  What \<open>Proxy.EvmThrottler\<close> and the forwarding loops of public.go ask of a throttler. \<open>sound\<close> is
  the invariant the instance keeps, \<open>window\<close> the least time a mark lasts.
\<close>

locale throttler =
  fixes throttled :: "'t \<Rightarrow> string \<Rightarrow> int \<Rightarrow> bool"
    and mark :: "string \<Rightarrow> int \<Rightarrow> 't \<Rightarrow> 't"
    and reset :: "string \<Rightarrow> 't \<Rightarrow> 't"
    and sound :: "'t \<Rightarrow> string \<Rightarrow> bool"
    and window :: int
  assumes reset_clears: "\<not> throttled (reset u t) u now"
    and reset_other: "u \<noteq> v \<Longrightarrow> throttled (reset u t) v now = throttled t v now"
    and mark_blocks: "sound t u \<Longrightarrow> now' < now + window \<Longrightarrow> throttled (mark u now t) u now'"
    and mark_other: "u \<noteq> v \<Longrightarrow> throttled (mark u now t) v now' = throttled t v now'"
    and expires: "\<exists>d. \<forall>now' \<ge> now + d. \<not> throttled (mark u now t) u now'"
begin

lemma mark_reset: "\<not> throttled (reset u (mark u now t)) u now'"
  by (rule reset_clears)

text \<open>A mark set on one node outlives marks and resets of others.\<close>

lemma mark_kept:
  assumes "sound t u" "u \<noteq> v" "now' < now + window"
  shows "throttled (mark v now'' (mark u now t)) u now'"
    and "throttled (reset v (mark u now t)) u now'"
  using assms by (simp_all add: mark_other reset_other mark_blocks)

end

interpretation evm: throttler IsThrottled Mark429 Reset
  "\<lambda>t u. throttle_wf t \<and> strikes t u < 2 ^ 63 - 1" "sec 30"
proof
  fix t u and now now' :: int
  assume a: "throttle_wf t \<and> strikes t u < 2 ^ 63 - 1" "now' < now + sec 30"
  have "(1 :: int) \<le> 2 ^ nat (strikes t u)" by simp
  then have "sec 30 \<le> min (sec 30 * 2 ^ nat (strikes t u)) (sec 600)"
    by (simp add: sec_def)
  with a have "now' < now + min (sec 30 * 2 ^ nat (strikes t u)) (sec 600)" by linarith
  with a show "IsThrottled (Mark429 u now t) u now'"
    by (simp add: IsThrottled_def Mark429_until del: min_less_iff_conj)
next
  fix u now t
  let ?b = "backoff_loop 1 (i64 (strikes t u + 1)) (base t) (maxBackoff t)"
  have "until (Mark429 u now t) u = Some (now + ?b)"
    by (simp add: Mark429_def Let_def strikes_def)
  then show "\<exists>d. \<forall>now' \<ge> now + d. \<not> IsThrottled (Mark429 u now t) u now'"
    by (intro exI [of _ ?b]) (simp add: IsThrottled_def)
qed (simp_all add: IsThrottled_def Mark429_def Reset_def Let_def)

section \<open>Properties\<close>

text \<open>
  (C21) The backoff schedule: the mark for the (n+1)-th rate limit in a row keeps a node out of use
  for min(30 s * 2^n, 10 min), no shorter and no longer; the next success clears it; other nodes are
  not affected.
\<close>
theorem backoff_schedule:
  assumes "throttle_wf t" "strikes t u < 2 ^ 63 - 1"
  shows "IsThrottled (Mark429 u now t) u now' = (now' < now + min (sec 30 * 2 ^ nat (strikes t u)) (sec 600))
    \<and> strikes (Mark429 u now t) u = strikes t u + 1
    \<and> \<not> IsThrottled (Reset u (Mark429 u now t)) u now' \<and> strikes (Reset u (Mark429 u now t)) u = 0
    \<and> (\<forall>v. v \<noteq> u \<longrightarrow> IsThrottled (Mark429 u now t) v now' = IsThrottled t v now')"
proof (intro conjI allI impI)
  show "IsThrottled (Mark429 u now t) u now' = (now' < now + min (sec 30 * 2 ^ nat (strikes t u)) (sec 600))"
    by (simp only: IsThrottled_def Mark429_until [OF assms] option.simps)
  show "strikes (Mark429 u now t) u = strikes t u + 1"
    by (rule Mark429_wf [OF assms])
  show "strikes (Reset u (Mark429 u now t)) u = 0"
    by (simp add: strikes_def Reset_def)
qed (simp_all add: evm.mark_reset evm.mark_other)

theorem backoff_schedule_witness:
  "IsThrottled (Mark429 ''u'' 0 NewThrottler) ''u'' (sec 29)
     \<and> \<not> IsThrottled (Mark429 ''u'' 0 NewThrottler) ''u'' (sec 30)"
  using backoff_schedule [of NewThrottler "''u''" 0 "sec 29"] backoff_schedule [of NewThrottler "''u''" 0 "sec 30"]
  by (simp add: strikes_def NewThrottler_def sec_def throttle_wf_def)

end
