(* ===== verification/Forward.thy ===== *)
theory Forward
  imports Throttle "HOL-Library.Multiset"
begin

text \<open>
  The forwarding loop of public.go, which \<open>EthMaxPriorityFee\<close>, \<open>tryForwardJSONRPCToNodes\<close>,
  \<open>forwardFirst2xx\<close> and \<open>callFirst2xx\<close> all contain: group the best nodes that are not throttled by
  priority, try them in that order, mark a node that limits the rate, stop at the first 2xx. The
  state is the global \<open>evmThrottler\<close> and the world; a panic (a URL that does not parse) ends the
  handler but leaves both as they are at that point.
\<close>

section \<open>The order of the attempts\<close>

text \<open>The two variables \<open>groups\<close> and \<open>priorities\<close>, filled in one pass.\<close>

fun group_ready ::
  "throttle_state \<Rightarrow> int \<Rightarrow> NodeWithPing list \<Rightarrow> (int \<Rightarrow> NodeWithPing list) \<Rightarrow> int list
     \<Rightarrow> (int \<Rightarrow> NodeWithPing list) \<times> int list" where
  "group_ready t now [] groups ps = (groups, ps)"
| "group_ready t now (n # ns) groups ps =
     (if IsThrottled t (URL n) now then group_ready t now ns groups ps
      else group_ready t now ns
             (groups(Priority n := groups (Priority n) @ [n]))
             (if Priority n \<in> set ps then ps else ps @ [Priority n]))"

definition attempt_order :: "throttle_state \<Rightarrow> int \<Rightarrow> NodeWithPing list \<Rightarrow> NodeWithPing list" where
  "attempt_order t now nodes =
     (let (groups, priorities) = group_ready t now nodes (\<lambda>_. []) []
      in concat (map groups (sort priorities)))"

definition ready :: "throttle_state \<Rightarrow> int \<Rightarrow> NodeWithPing list \<Rightarrow> NodeWithPing list" where
  "ready t now nodes = filter (\<lambda>n. \<not> IsThrottled t (URL n) now) nodes"

lemma group_ready_groups:
  "fst (group_ready t now ns g ps) p = g p @ filter (\<lambda>n. Priority n = p) (ready t now ns)"
  by (induction t now ns g ps rule: group_ready.induct) (auto simp: ready_def fun_upd_def)

lemma group_ready_priorities:
  "set (snd (group_ready t now ns g ps)) = set ps \<union> Priority ` set (ready t now ns)"
  "distinct ps \<Longrightarrow> distinct (snd (group_ready t now ns g ps))"
  by (induction t now ns g ps rule: group_ready.induct) (auto simp: ready_def)

lemma concat_groups_sorted:
  fixes f :: "'a \<Rightarrow> 'b :: linorder"
  assumes "sorted ps"
  shows "sorted (map f (concat (map (\<lambda>p. filter (\<lambda>x. f x = p) xs) ps)))"
proof -
  have "sorted (map f (filter (\<lambda>x. f x = p) xs))" for p
    by (induction xs) auto
  with assms show ?thesis by (induction ps) (auto simp: sorted_append)
qed

lemma concat_groups_filter:
  fixes f :: "'a \<Rightarrow> 'b"
  assumes "distinct ps" "p \<in> set ps"
  shows "filter (\<lambda>x. f x = p) (concat (map (\<lambda>p. filter (\<lambda>x. f x = p) xs) ps))
       = filter (\<lambda>x. f x = p) xs"
  using assms
proof (induction ps)
  case (Cons q ps)
  have off: "filter (\<lambda>x. f x = p) (filter (\<lambda>x. f x = r) xs) = []" if "r \<noteq> p" for r
    using that by (auto simp: filter_empty_conv)
  have none: "filter (\<lambda>x. f x = p) (concat (map (\<lambda>p. filter (\<lambda>x. f x = p) xs) rs)) = []"
    if "p \<notin> set rs" for rs
    using that by (auto simp: filter_empty_conv)
  show ?case
  proof (cases "q = p")
    case True
    with Cons.prems have "p \<notin> set ps" by simp
    with True none show ?thesis by simp
  next
    case False
    with Cons off show ?thesis by simp
  qed
qed simp

text \<open>Grouping, sorting the keys and concatenating is a stable sort by priority.\<close>

lemma attempt_order_sort: "attempt_order t now nodes = sort_key Priority (ready t now nodes)"
proof -
  let ?r = "ready t now nodes" and ?ps = "sort (snd (group_ready t now nodes (\<lambda>_. []) []))"
  have e: "attempt_order t now nodes = concat (map (\<lambda>p. filter (\<lambda>n. Priority n = p) ?r) ?ps)"
    by (simp add: attempt_order_def case_prod_beta group_ready_groups cong: map_cong)
  have d: "distinct ?ps" and s: "set ?ps = Priority ` set ?r"
    by (simp_all add: group_ready_priorities)
  have f: "filter (\<lambda>n. Priority n = p) (concat (map (\<lambda>p. filter (\<lambda>n. Priority n = p) ?r) ?ps))
         = filter (\<lambda>n. Priority n = p) ?r" for p
  proof (cases "p \<in> set ?ps")
    case True
    then show ?thesis by (rule concat_groups_filter [OF d])
  next
    case False
    then have "\<forall>n \<in> set ?r. Priority n \<noteq> p" using s by auto
    then show ?thesis by (auto simp: filter_empty_conv)
  qed
  let ?c = "concat (map (\<lambda>p. filter (\<lambda>n. Priority n = p) ?r) ?ps)"
  have "mset ?c = mset ?r"
  proof (rule multiset_eqI)
    fix x
    have c: "count (mset (filter (\<lambda>n. Priority n = Priority x) l)) x = count (mset l) x"
      for l :: "NodeWithPing list"
      by simp
    show "count (mset ?c) x = count (mset ?r) x"
      using c [of ?c] c [of ?r] by (simp only: f)
  qed
  moreover have "filter (\<lambda>n. Priority k = Priority n) ?c = filter (\<lambda>n. Priority k = Priority n) ?r" for k
    using f [of "Priority k"] by (metis (mono_tags, lifting) filter_cong)
  moreover have "sorted (map Priority ?c)"
    by (rule concat_groups_sorted) simp
  ultimately show ?thesis
    unfolding e by (intro properties_for_sort_key [symmetric]) simp_all
qed

section \<open>The loop\<close>

type_synonym attempt = "(panic + (NodeWithPing \<times> response) option) \<times> throttle_state \<times> world"

fun forward_loop ::
  "env \<Rightarrow> (NodeWithPing \<Rightarrow> request) \<Rightarrow> NodeWithPing list \<Rightarrow> throttle_state \<Rightarrow> world \<Rightarrow> attempt" where
  "forward_loop E mk [] t w = (Inr None, t, w)"
| "forward_loop E mk (n # ns) t w =
     (case send E (mk n) w of
        Inl p \<Rightarrow> (Inl p, t, w)
      | Inr (Failed e, w') \<Rightarrow> forward_loop E mk ns t w'
      | Inr (Got rs, w') \<Rightarrow>
          (if isRateLimited rs then forward_loop E mk ns (Mark429 (URL n) (clock w') t) w'
           else if \<not> is_2xx (rs_status rs) then forward_loop E mk ns t w'
           else (Inr (Some (n, rs)), Reset (URL n) t, w')))"

text \<open>The request of \<open>tryForwardJSONRPCToNodes\<close> and its siblings: node headers last.\<close>

definition rpc_request :: "string \<Rightarrow> NodeWithPing \<Rightarrow> request" where
  "rpc_request raw n =
     \<lparr>rq_method = ''POST'', rq_url = URL n,
      rq_hdr = hset_all (hset hempty ''content-type'' ''application/json'') (pairs (Headers n)),
      rq_body = raw, rq_timeout = sec 8, rq_tor = None\<rparr>"

definition first_2xx ::
  "env \<Rightarrow> (NodeWithPing \<Rightarrow> request) \<Rightarrow> NodeWithPing list \<Rightarrow> throttle_state \<Rightarrow> world \<Rightarrow> attempt" where
  "first_2xx E mk nodes t w = forward_loop E mk (attempt_order t (clock w) nodes) t w"

section \<open>What the loop does\<close>

text \<open>
  \<open>answered rs\<close>: the answer ends the loop. \<open>calls\<close> are the requests a run adds to the log.
\<close>

definition answered :: "response \<Rightarrow> bool" where
  "answered rs \<longleftrightarrow> \<not> isRateLimited rs \<and> is_2xx (rs_status rs)"

definition unanswered :: "reply \<Rightarrow> bool" where
  "unanswered rp \<longleftrightarrow> (case rp of Failed e \<Rightarrow> True | Got rs \<Rightarrow> \<not> answered rs)"

lemma forward_loop_Some:
  assumes "forward_loop E mk ns t w = (Inr (Some (n, rs)), t', w')"
  obtains pre post v where "ns = pre @ n # post" "sent w' = sent w @ map mk (pre @ [n])"
    "all_bad E unanswered mk w pre" "sent v = sent w @ map mk pre" "fst (client_do E (mk n) v) = Got rs"
    "answered rs" "\<And>now. \<not> IsThrottled t' (URL n) now"
  using assms
proof (induction ns arbitrary: t w thesis)
  case (Cons m ns)
  from Cons.prems(2) have ok: "url_ok E (rq_url (mk m))"
    by (simp add: send_def split: if_splits)
  obtain rp v where cd: "client_do E (mk m) w = (rp, v)" by fastforce
  then have v: "sent v = sent w @ [mk m]"
    using client_do_sent by (metis snd_conv)
  have rec: thesis if u: "forward_loop E mk ns u v = (Inr (Some (n, rs)), t', w')" "unanswered rp" for u
  proof (rule Cons.IH [OF _ u(1)])
    fix pre post x
    assume x: "ns = pre @ n # post" "sent w' = sent v @ map mk (pre @ [n])" "all_bad E unanswered mk v pre"
      "sent x = sent v @ map mk pre" "fst (client_do E (mk n) x) = Got rs" "answered rs"
      "\<And>now. \<not> IsThrottled t' (URL n) now"
    moreover have "all_bad E unanswered mk w (m # pre)"
      by (rule all_bad_Cons [where v = v]) (simp_all add: cd u(2) v x(3))
    ultimately show thesis using v by (intro Cons.prems(1) [of "m # pre" post x]) simp_all
  qed
  show ?case
  proof (cases rp)
    case (Failed e)
    then have "unanswered rp" by (simp add: unanswered_def)
    with Failed Cons.prems(2) ok cd rec show ?thesis by (simp add: send_def)
  next
    case (Got r)
    consider "isRateLimited r" | "\<not> isRateLimited r" "\<not> is_2xx (rs_status r)"
      | "answered r" by (auto simp: answered_def)
    then show ?thesis
    proof cases
      case 3
      with Got Cons.prems(2) ok cd have "m = n" "r = rs" "t' = Reset (URL n) t" "w' = v"
        by (auto simp: send_def answered_def)
      with 3 v cd Got show ?thesis
        by (intro Cons.prems(1) [of "[]" ns w]) (simp_all add: evm.reset_clears)
    qed (use Got Cons.prems(2) ok cd rec in \<open>simp_all add: send_def unanswered_def answered_def\<close>)
  qed
qed simp

lemma forward_loop_step:
  assumes "url_ok E (rq_url (mk n))" "client_do E (mk n) w = (rp, v)"
  shows "forward_loop E mk (n # ns) t w =
     (case rp of
        Failed e \<Rightarrow> forward_loop E mk ns t v
      | Got rs \<Rightarrow>
          (if isRateLimited rs then forward_loop E mk ns (Mark429 (URL n) (clock v) t) v
           else if \<not> is_2xx (rs_status rs) then forward_loop E mk ns t v
           else (Inr (Some (n, rs)), Reset (URL n) t, v)))"
  using assms by (simp add: send_def split: reply.split)

lemma forward_loop_panic [simp]:
  "\<not> url_ok E (rq_url (mk n)) \<Longrightarrow> forward_loop E mk (n # ns) t w = (Inl NilDeref, t, w)"
  by (simp add: send_def)

declare forward_loop.simps(2) [simp del]

text \<open>
  Whatever happens, the requests sent are those of an initial part of the list, and all of them
  when the loop ends without an answer.
\<close>

lemma forward_loop_calls:
  "forward_loop E mk ns t w = (res, t', w') \<Longrightarrow>
     \<exists>tried. prefix tried ns \<and> sent w' = sent w @ map mk tried \<and> (res = Inr None \<longrightarrow> tried = ns)"
proof (induction ns arbitrary: t w)
  case (Cons n ns)
  show ?case
  proof (cases "url_ok E (rq_url (mk n))")
    case False
    with Cons.prems show ?thesis by (intro exI [of _ "[]"]) auto
  next
    case True
    obtain rp v where cd: "client_do E (mk n) w = (rp, v)" by fastforce
    then have v: "sent v = sent w @ [mk n]" using client_do_sent by (metis snd_conv)
    have rec: ?thesis if "forward_loop E mk ns u v = (res, t', w')" for u
    proof -
      from Cons.IH [OF that] obtain tried where "prefix tried ns" "sent w' = sent v @ map mk tried"
        "res = Inr None \<longrightarrow> tried = ns" by blast
      with v show ?thesis by (intro exI [of _ "n # tried"]) simp
    qed
    from Cons.prems rec v show ?thesis
      by (fastforce simp: forward_loop_step [of E mk n, OF True cd] intro: exI [of _ "[n]"]
          split: reply.splits if_splits)
  qed
qed (auto intro: exI [of _ "[]"])

lemma forward_loop_frame:
  "forward_loop E mk ns t w = (res, t', w') \<Longrightarrow> u \<notin> URL ` set ns \<Longrightarrow>
     IsThrottled t' u now = IsThrottled t u now"
proof (induction ns arbitrary: t w)
  case (Cons n ns)
  then have "URL n \<noteq> u" by auto
  show ?case
  proof (cases "url_ok E (rq_url (mk n))")
    case True
    obtain rp v where cd: "client_do E (mk n) w = (rp, v)" by fastforce
    from Cons \<open>URL n \<noteq> u\<close> show ?thesis
      by (auto simp: forward_loop_step [of E mk n, OF True cd] evm.mark_other evm.reset_other
          split: reply.splits if_splits)
  qed (use Cons.prems in simp)
qed simp

text \<open>A node that limits the rate stays out of use, whatever the rest of the loop does.\<close>

lemma forward_loop_limited:
  assumes "url_ok E (rq_url (mk n))" "client_do E (mk n) w = (Got rs, v)" "isRateLimited rs"
    "URL n \<notin> URL ` set ns" "throttle_wf t" "strikes t (URL n) < 2 ^ 63 - 1"
    "forward_loop E mk (n # ns) t w = (res, t', w')" "now < clock v + sec 30"
  shows "IsThrottled t' (URL n) now"
proof -
  have "forward_loop E mk ns (Mark429 (URL n) (clock v) t) v = (res, t', w')"
    using assms(3,7) by (simp add: forward_loop_step [of E mk n, OF assms(1,2)])
  then have "IsThrottled t' (URL n) now = IsThrottled (Mark429 (URL n) (clock v) t) (URL n) now"
    using assms(4) by (rule forward_loop_frame)
  with assms show ?thesis by (simp add: evm.mark_blocks)
qed

text \<open>The counters have room for the marks of a run; below that, the throttler stays sound.\<close>

definition room :: "throttle_state \<Rightarrow> nat \<Rightarrow> bool" where
  "room t k \<longleftrightarrow> (\<forall>u. strikes t u + int k < 2 ^ 63 - 1)"

lemma strikes_other: "u \<noteq> v \<Longrightarrow> strikes (Mark429 v now t) u = strikes t u"
  by (simp add: strikes_def Mark429_def Let_def)

lemma room_Mark429:
  assumes "throttle_wf t" "room t (Suc k)"
  shows "room (Mark429 u now t) k"
proof -
  have "strikes t v + int (Suc k) < 2 ^ 63 - 1" for v
    using assms(2) by (simp only: room_def)
  then have "strikes t v + int k + 1 < 2 ^ 63 - 1" for v by (simp add: algebra_simps)
  note r = this
  have "strikes (Mark429 u now t) u = strikes t u + 1"
    using r [of u] by (intro Mark429_wf assms(1)) linarith
  with r have "strikes (Mark429 u now t) v + int k < 2 ^ 63 - 1" for v
    by (cases "v = u") (smt (verit) strikes_other)+
  then show ?thesis by (simp add: room_def)
qed

lemma room_less:
  assumes "room t (Suc k)"
  shows "strikes t u < 2 ^ 63 - 1" "room t k"
proof -
  have "strikes t v + int k + 1 < 2 ^ 63 - 1" for v
    using assms by (simp add: room_def algebra_simps)
  then have r: "strikes t v + int k < 2 ^ 63 - 1" for v by (smt (verit))
  from r [of u] show "strikes t u < 2 ^ 63 - 1" by linarith
  from r show "room t k" unfolding room_def by blast
qed

lemma forward_loop_wf:
  "forward_loop E mk ns t w = (res, t', w') \<Longrightarrow> throttle_wf t \<Longrightarrow> room t (length ns) \<Longrightarrow>
     throttle_wf t'"
proof (induction ns arbitrary: t w)
  case (Cons n ns)
  show ?case
  proof (cases "url_ok E (rq_url (mk n))")
    case True
    obtain rp v where cd: "client_do E (mk n) w = (rp, v)" by fastforce
    have r: "room t (Suc (length ns))" using Cons.prems(3) by simp
    with Cons.prems(2) have "throttle_wf (Mark429 (URL n) now t)" "room (Mark429 (URL n) now t) (length ns)"
      "room t (length ns)" for now
      by (auto intro: Mark429_wf room_Mark429 room_less)
    with Cons.prems(1,2) Cons.IH show ?thesis
      by (auto simp: forward_loop_step [of E mk n, OF True cd] Reset_wf split: reply.splits if_splits)
  qed (use Cons.prems in simp)
qed simp

text \<open>The loop over the whole list: who is called, and in which order.\<close>

lemma set_attempt_order: "set (attempt_order t now nodes) = set (ready t now nodes)"
  by (simp add: attempt_order_sort)

lemma sorted_attempt_order: "sorted (map Priority (attempt_order t now nodes))"
  by (simp add: attempt_order_sort)

lemma first_2xx_Some:
  assumes "first_2xx E mk nodes t w = (Inr (Some (n, rs)), t', w')"
  obtains pre v where "sent w' = sent w @ map mk (pre @ [n])" "answered rs" "n \<in> set nodes"
    "\<And>now. \<not> IsThrottled t' (URL n) now" "\<And>m. m \<in> set pre \<Longrightarrow> Priority m \<le> Priority n"
    "\<And>m. m \<in> set nodes \<Longrightarrow> Priority m < Priority n \<Longrightarrow>
       IsThrottled t (URL m) (clock w) \<or> m \<in> set pre"
    "all_bad E unanswered mk w pre" "sent v = sent w @ map mk pre" "fst (client_do E (mk n) v) = Got rs"
proof -
  from assms obtain pre post v where o: "attempt_order t (clock w) nodes = pre @ n # post"
    and s: "sent w' = sent w @ map mk (pre @ [n])" "answered rs"
      "\<And>now. \<not> IsThrottled t' (URL n) now"
    and v: "all_bad E unanswered mk w pre" "sent v = sent w @ map mk pre" "fst (client_do E (mk n) v) = Got rs"
    unfolding first_2xx_def by (metis forward_loop_Some)
  have "set (pre @ n # post) = set (ready t (clock w) nodes)"
    using set_attempt_order [of t "clock w" nodes] unfolding o .
  then have mem: "m \<in> set pre \<or> m = n \<or> m \<in> set post \<longleftrightarrow> m \<in> set nodes \<and> \<not> IsThrottled t (URL m) (clock w)" for m
    by (auto simp: ready_def)
  have ord: "m \<in> set pre \<Longrightarrow> Priority m \<le> Priority n" "m \<in> set post \<Longrightarrow> Priority n \<le> Priority m" for m
    using sorted_attempt_order [of t "clock w" nodes] unfolding o by (auto simp: sorted_append)
  show thesis
  proof (rule that [OF s(1,2) _ s(3) ord(1) _ v])
    show "n \<in> set nodes" using mem [of n] by simp
    show "IsThrottled t (URL m) (clock w) \<or> m \<in> set pre"
      if "m \<in> set nodes" "Priority m < Priority n" for m
      using mem [of m] that ord(2) [of m] by force
  qed
qed

lemma first_2xx_calls:
  "first_2xx E mk nodes t w = (res, t', w') \<Longrightarrow> rq \<in> set (sent w') \<Longrightarrow>
     rq \<in> set (sent w) \<or> (\<exists>n \<in> set (ready t (clock w) nodes). rq = mk n)"
  using forward_loop_calls [of E mk "attempt_order t (clock w) nodes" t w res t' w']
  by (fastforce simp: first_2xx_def set_attempt_order dest!: set_mono_prefix)

section \<open>Properties\<close>

text \<open>
  (C19) The order in which a request tries the nodes: grouping the nodes by priority in one pass and
  then visiting the groups by increasing priority is the stable sort by priority of the nodes that
  are not throttled.
\<close>
theorem attempt_order_stable_sort:
  "attempt_order t now nodes = sort_key Priority (filter (\<lambda>n. \<not> IsThrottled t (URL n) now) nodes)"
  by (simp add: attempt_order_sort ready_def)

text \<open>
  (C20) An answer that is passed on is a 2xx that does not limit the rate, and is what one of the nodes
  replied to the request. The nodes that were asked before it gave no such answer, and every node of a
  better priority was throttled or is among them; the node that answered is cleared in the throttler.
\<close>
theorem first_2xx_answer:
  assumes "first_2xx E mk nodes t w = (Inr (Some (n, rs)), t', w')"
  shows "n \<in> set nodes \<and> 200 \<le> rs_status rs \<and> rs_status rs \<le> 299 \<and> \<not> isRateLimited rs
    \<and> (\<forall>now. \<not> IsThrottled t' (URL n) now)
    \<and> (\<exists>tried v. sent w' = sent w @ map mk (tried @ [n])
        \<and> sent v = sent w @ map mk tried \<and> fst (client_do E (mk n) v) = Got rs
        \<and> (\<forall>i < length tried. \<exists>u. sent u = sent w @ map mk (take i tried)
             \<and> (case fst (client_do E (mk (tried ! i)) u) of
                  Failed e \<Rightarrow> True
                | Got a \<Rightarrow> isRateLimited a \<or> rs_status a < 200 \<or> 299 < rs_status a))
        \<and> (\<forall>m \<in> set tried. Priority m \<le> Priority n)
        \<and> (\<forall>m \<in> set nodes. Priority m < Priority n \<longrightarrow> IsThrottled t (URL m) (clock w) \<or> m \<in> set tried))"
proof (rule first_2xx_Some [OF assms])
  fix pre v
  assume a: "sent w' = sent w @ map mk (pre @ [n])" "answered rs" "n \<in> set nodes"
    "\<And>now. \<not> IsThrottled t' (URL n) now" "\<And>m. m \<in> set pre \<Longrightarrow> Priority m \<le> Priority n"
    "\<And>m. m \<in> set nodes \<Longrightarrow> Priority m < Priority n \<Longrightarrow> IsThrottled t (URL m) (clock w) \<or> m \<in> set pre"
    "all_bad E unanswered mk w pre" "sent v = sent w @ map mk pre" "fst (client_do E (mk n) v) = Got rs"
  have u: "unanswered = (\<lambda>rp. case rp of Failed e \<Rightarrow> True
      | Got a \<Rightarrow> isRateLimited a \<or> rs_status a < 200 \<or> 299 < rs_status a)"
    by (auto simp: fun_eq_iff unanswered_def answered_def is_2xx_iff split: reply.split)
  from a(7) have "\<forall>i < length pre. \<exists>u. sent u = sent w @ map mk (take i pre)
      \<and> (case fst (client_do E (mk (pre ! i)) u) of Failed e \<Rightarrow> True
         | Got a \<Rightarrow> isRateLimited a \<or> rs_status a < 200 \<or> 299 < rs_status a)"
    unfolding all_bad_def u .
  moreover have "200 \<le> rs_status rs" "rs_status rs \<le> 299" "\<not> isRateLimited rs"
    using a(2) by (simp_all add: answered_def is_2xx_iff)
  ultimately show ?thesis using a(1,3-6,8,9) by blast
qed

text \<open>
  A node that is throttled when the request arrives is not contacted, and when no node answers,
  every node that was not throttled has been.
\<close>
theorem first_2xx_none:
  assumes "first_2xx E mk nodes t w = (Inr None, t', w')"
  shows "sent w' = sent w @ map mk (sort_key Priority (filter (\<lambda>n. \<not> IsThrottled t (URL n) (clock w)) nodes))
    \<and> (\<forall>u now. u \<notin> URL ` {n \<in> set nodes. \<not> IsThrottled t (URL n) (clock w)} \<longrightarrow>
         IsThrottled t' u now = IsThrottled t u now)"
proof (intro conjI allI impI)
  show "sent w' = sent w @ map mk (sort_key Priority (filter (\<lambda>n. \<not> IsThrottled t (URL n) (clock w)) nodes))"
    using forward_loop_calls [of E mk _ t w "Inr None" t' w'] assms
    by (auto simp: first_2xx_def attempt_order_sort ready_def)
  fix u now
  assume "u \<notin> URL ` {n \<in> set nodes. \<not> IsThrottled t (URL n) (clock w)}"
  then show "IsThrottled t' u now = IsThrottled t u now"
    using assms forward_loop_frame [of E mk "attempt_order t (clock w) nodes" t w "Inr None" t' w' u now]
    by (auto simp: first_2xx_def set_attempt_order ready_def)
qed

text \<open>
  A node that limits the rate on a call is out of use for the following 30 seconds, whatever the
  rest of the loop does.
\<close>
theorem limited_node_rests:
  assumes "sort_key Priority (ready t (clock w) nodes) = n # ns" "distinct (map URL nodes)"
    and "url_ok E (rq_url (mk n))" "client_do E (mk n) w = (Got rs, v)" "isRateLimited rs"
    and "throttle_wf t" "strikes t (URL n) < 2 ^ 63 - 1"
    and "first_2xx E mk nodes t w = (res, t', w')" "now < clock v + sec 30"
  shows "IsThrottled t' (URL n) now"
proof -
  have "distinct (map URL (ready t (clock w) nodes))"
    using assms(2) by (simp add: ready_def distinct_map_filter)
  then have "distinct (map URL (sort_key Priority (ready t (clock w) nodes)))"
    by (simp only: distinct_map distinct_sort set_sort)
  then have "URL n \<notin> URL ` set ns" by (simp add: assms(1))
  with assms show ?thesis
    by (auto simp: first_2xx_def attempt_order_sort intro: forward_loop_limited)
qed

subsection \<open>Instances\<close>

lemma isRateLimited_429: "isRateLimited \<lparr>rs_status = 429, rs_hdr = h, rs_body = b\<rparr>"
  by (simp add: isRateLimited_def)

lemma isRateLimited_plain:
  "Unmarshal b = None \<Longrightarrow> isRateLimited \<lparr>rs_status = c, rs_hdr = hempty, rs_body = b\<rparr> \<longleftrightarrow> c = 429"
  by (simp add: isRateLimited_def TrimSpace_def Trim_def TrimLeft_def TrimRight_def EqualFold_def)

text \<open>Two nodes; the better one limits the rate, the other answers.\<close>

definition two_nodes :: "NodeWithPing list" where
  "two_nodes = [mk_ping (plain_node ''b'' 2) True 1, mk_ping (plain_node ''a'' 1) True 1]"

lemma Unmarshal_x: "Unmarshal ''x'' = None"
  by code_simp

definition limiting :: env where
  "limiting = answering (\<lambda>rq. reply_with (if rq_url rq = ''a'' then 429 else 200) ''x'')"

lemma limited_run:
  "first_2xx limiting (rpc_request ''r'') two_nodes NewThrottler new_world
     = (Inr (Some (two_nodes ! 0, \<lparr>rs_status = 200, rs_hdr = hempty, rs_body = ''x''\<rparr>)),
        Reset ''b'' (Mark429 ''a'' 0 NewThrottler),
        new_world\<lparr>sent := [rpc_request ''r'' (two_nodes ! 1), rpc_request ''r'' (two_nodes ! 0)]\<rparr>)"
  by (simp add: first_2xx_def attempt_order_sort ready_def two_nodes_def limiting_def forward_loop.simps
      IsThrottled_def NewThrottler_def rpc_request_def reply_with_def isRateLimited_plain Unmarshal_x is_2xx_iff)

theorem first_2xx_answer_witness:
  "\<exists>n rs t' w'. first_2xx limiting (rpc_request ''r'') two_nodes NewThrottler new_world = (Inr (Some (n, rs)), t', w')
     \<and> n = two_nodes ! 0 \<and> rs_status rs \<le> 299 \<and> \<not> IsThrottled t' (URL n) 0
     \<and> (\<exists>v. fst (client_do limiting (rpc_request ''r'' n) v) = Got rs)"
proof -
  from first_2xx_answer [OF limited_run] limited_run show ?thesis by blast
qed

theorem first_2xx_none_witness:
  "sent (snd (snd (first_2xx limiting (rpc_request ''r'') [two_nodes ! 1] NewThrottler new_world)))
     = [rpc_request ''r'' (two_nodes ! 1)]"
proof -
  have "first_2xx limiting (rpc_request ''r'') [two_nodes ! 1] NewThrottler new_world
      = (Inr None, Mark429 ''a'' 0 NewThrottler, new_world\<lparr>sent := [rpc_request ''r'' (two_nodes ! 1)]\<rparr>)"
    by (simp add: first_2xx_def attempt_order_sort ready_def two_nodes_def limiting_def forward_loop.simps
      IsThrottled_def NewThrottler_def rpc_request_def reply_with_def isRateLimited_429)
  from first_2xx_none [OF this] this show ?thesis
    by (simp add: two_nodes_def IsThrottled_def NewThrottler_def)
qed

theorem limited_node_rests_witness:
  "IsThrottled (Reset ''b'' (Mark429 ''a'' 0 NewThrottler)) ''a'' (sec 29)"
proof -
  have "IsThrottled (Reset ''b'' (Mark429 ''a'' 0 NewThrottler)) (URL (two_nodes ! 1)) (sec 29)"
    by (rule limited_node_rests [OF _ _ _ _ _ _ _ limited_run,
          where rs = "\<lparr>rs_status = 429, rs_hdr = hempty, rs_body = ''x''\<rparr>"
            and v = "new_world\<lparr>sent := [rpc_request ''r'' (two_nodes ! 1)]\<rparr>"])
      (simp_all add: ready_def two_nodes_def limiting_def IsThrottled_def NewThrottler_def
        client_do_def reply_with_def isRateLimited_429 strikes_def rpc_request_def throttle_wf_def sec_def)
  then show ?thesis by (simp add: two_nodes_def)
qed

end
