(* ===== verification/AnyValues.thy ===== *)
theory AnyValues
  imports Float64 JsonTyping "HOL-Library.List_Lexorder" "HOL-Library.Char_ord"
begin

text \<open>
  JSON that goes through a \<open>map[string]any\<close>: what \<open>json.Marshal\<close> writes of what \<open>json.Unmarshal\<close> has
  read, and what of a value this keeps.
\<close>

text \<open>
  A JSON value after \<open>json.Unmarshal\<close> into an \<open>any\<close>: numbers are \<open>float64\<close>, an object is a map
  (the last of equal keys wins), written back with its keys sorted.
\<close>

fun last_wins :: "(string \<times> 'a) list \<Rightarrow> (string \<times> 'a) list" where
  "last_wins [] = []"
| "last_wins ((k, v) # kvs) =
     (if k \<in> fst ` set kvs then last_wins kvs else (k, v) # last_wins kvs)"

fun as_any :: "json \<Rightarrow> json" where
  "as_any (JNum lit) = JNum (case refloat lit of Some s \<Rightarrow> s | None \<Rightarrow> lit)"
| "as_any (JArr vs) = JArr (map as_any vs)"
| "as_any (JObj kvs) = JMap (last_wins (map (\<lambda>(k, v). (k, as_any v)) kvs))"
| "as_any JNull = JNull"
| "as_any (JBool b) = JBool b"
| "as_any (JStr s) = JStr s"

section \<open>Members of objects\<close>

lemma obj_get_append:
  "obj_get (xs @ ys) k = (case obj_get ys k of Some v \<Rightarrow> Some v | None \<Rightarrow> obj_get xs k)"
  by (induction xs) (auto split: option.split)

lemma obj_get_map: "obj_get (map (\<lambda>(k, v). (k, f v)) kvs) k = map_option f (obj_get kvs k)"
  by (induction kvs) (auto split: option.split)

lemma obj_get_None: "obj_get kvs k = None \<longleftrightarrow> k \<notin> fst ` set kvs"
  by (induction kvs) (auto split: option.splits)

lemma obj_get_distinct: "distinct (map fst kvs) \<Longrightarrow> obj_get kvs k = map_of kvs k"
proof (induction kvs)
  case (Cons kv kvs)
  then show ?case
    using obj_get_None [of kvs "fst kv"] by (cases kv) (auto split: option.splits)
qed simp

lemma set_last_wins: "set (last_wins kvs) \<subseteq> set kvs"
  by (induction kvs rule: last_wins.induct) auto

lemma keys_last_wins [simp]: "fst ` set (last_wins kvs) = fst ` set kvs"
  by (induction kvs rule: last_wins.induct) auto

lemma distinct_last_wins: "distinct (map fst (last_wins kvs))"
  by (induction kvs rule: last_wins.induct) simp_all

lemma obj_get_last_wins [simp]: "obj_get (last_wins kvs) k = obj_get kvs k"
  by (induction kvs rule: last_wins.induct) (auto simp: obj_get_None split: option.splits)

lemma obj_get_sort_key:
  fixes kvs :: "(string \<times> json) list"
  assumes "distinct (map fst kvs)"
  shows "obj_get (sort_key fst kvs) k = obj_get kvs k"
proof -
  have d: "distinct (map fst (sort_key fst kvs))"
    using assms by (simp add: distinct_map)
  then have "map_of (sort_key fst kvs) = map_of kvs" using assms by (simp add: map_of_inject_set)
  then show ?thesis using obj_get_distinct [OF d] obj_get_distinct [OF assms] by simp
qed

text \<open>The members of an object that went through a map: those of the object, each by its last value.\<close>

definition map_members :: "(string \<times> json) list \<Rightarrow> (string \<times> json) list" where
  "map_members kvs = sort_key fst (last_wins (map (\<lambda>(k, v). (k, as_any v)) kvs))"

lemma as_any_obj: "as_any (JObj kvs) = JObj (map_members kvs)"
  by (simp add: map_members_def JMap_def)

lemma obj_get_map_members [simp]: "obj_get (map_members kvs) k = map_option as_any (obj_get kvs k)"
  by (simp add: map_members_def obj_get_sort_key distinct_last_wins obj_get_map)

lemma map_members_from: "(k, w) \<in> set (map_members kvs) \<Longrightarrow> \<exists>v. (k, v) \<in> set kvs \<and> w = as_any v"
  using set_last_wins [of "map (\<lambda>(k, v). (k, as_any v)) kvs"] by (auto simp: map_members_def)

section \<open>What is kept\<close>

text \<open>
  Two values that a reader of JSON-RPC takes for the same: the same literal, text or constant, arrays
  element by element, and objects with the same keys, each with the same last value.
\<close>

inductive same_value :: "json \<Rightarrow> json \<Rightarrow> bool" where
  null: "same_value JNull JNull"
| bool: "same_value (JBool b) (JBool b)"
| num: "same_value (JNum lit) (JNum lit)"
| str: "same_value (JStr t) (JStr t)"
| arr: "length vs = length ws \<Longrightarrow> (\<And>i. i < length vs \<Longrightarrow> same_value (vs ! i) (ws ! i)) \<Longrightarrow>
      same_value (JArr vs) (JArr ws)"
| obj: "fst ` set kvs = fst ` set kws \<Longrightarrow>
      (\<And>k v w. obj_get kvs k = Some v \<Longrightarrow> obj_get kws k = Some w \<Longrightarrow> same_value v w) \<Longrightarrow>
      same_value (JObj kvs) (JObj kws)"

lemma obj_get_member: "obj_get kvs k = Some v \<Longrightarrow> (k, v) \<in> set kvs"
  by (induction kvs) (auto split: option.splits if_splits)

lemma map_members_keys: "fst ` set (map_members kvs) = fst ` set kvs"
  by (force simp: map_members_def)

lemma as_any_same: "small_ints v \<Longrightarrow> same_value v (as_any v)"
proof (induction v)
  case (JNum lit)
  then have "as_any (JNum lit) = JNum lit" by (auto simp: refloat_FormatInt)
  then show ?case by (simp add: same_value.num)
next
  case (JArr vs)
  then show ?case by (auto simp: list_all_iff intro!: same_value.arr)
next
  case (JObj kvs)
  have "same_value v w" if "obj_get kvs k = Some v" "obj_get (map_members kvs) k = Some w" for k v w
  proof -
    have m: "(k, v) \<in> set kvs" by (rule obj_get_member [OF that(1)])
    with JObj.prems have "small_ints v" by (auto simp: list_all_iff)
    with JObj.IH [OF m, of v] that show ?thesis by simp
  qed
  then show ?case unfolding as_any_obj by (intro same_value.obj) (simp_all only: map_members_keys)
qed (auto intro: same_value.intros)

section \<open>The text that is written\<close>

lemma as_any_wf: "wf_json v \<Longrightarrow> small_ints v \<Longrightarrow> wf_json (as_any v) \<and> small_ints (as_any v)"
proof (induction v)
  case (JObj kvs)
  then show ?case
    unfolding as_any_obj by (fastforce simp: list_all_iff dest!: map_members_from)
qed (auto simp: list_all_iff refloat_FormatInt)

lemma as_any_depth: "depth (as_any v) \<le> depth v"
proof (induction v)
  case (JArr vs)
  have "depth (as_any v) \<le> foldr max (map depth vs) 0" if "v \<in> set vs" for v
    using JArr [OF that] depth_element [OF that] by simp
  then show ?case by (simp add: foldr_max_le list_all_iff)
next
  case (JObj kvs)
  have "depth (as_any v) \<le> foldr max (map (\<lambda>(k, v). depth v) kvs) 0" if "(k, v) \<in> set kvs" for k v
    using JObj [OF that, of v] depth_member [OF that] by simp
  then show ?case
    unfolding as_any_obj by (auto simp: foldr_max_le list_all_iff dest!: map_members_from)
qed simp_all

lemma as_any_read:
  assumes "wf_json v" "small_ints v" "depth v \<le> maxNestingDepth"
  shows "Unmarshal (Marshal (as_any v)) = Some (as_any v)"
  using assms as_any_wf [of v] as_any_depth [of v] by (auto intro: Unmarshal_Marshal)

end
