(* ===== verification/Adapters.thy ===== *)
theory Adapters
  imports Http AnyValues
begin

text \<open>
  pkg/adapters: what the proxy sends upstream for a request. \<open>Adapt\<close> picks the adapter of the
  network; an adapter passes the request through, or replaces it by one the upstream understands
  and may restrict the upstreams that may serve it. The NFT routines build the calldata of an
  \<open>eth_call\<close>: a 4-byte selector and 32-byte words, as the contract ABI wants them. A nil body and
  an empty one are the same list of bytes, so \<open>clone\<close> is the identity. A header map here has at
  most one entry.
\<close>

record adapted =
  ad_Tail :: string
  ad_Method :: string
  ad_Body :: string
  ad_Headers :: "(string \<times> string) list"
  ad_AllowedHostSubstr :: "string list"

section \<open>adapters.go\<close>

definition clone :: "string \<Rightarrow> string" where
  "clone b = (if b = [] then [] else b)"

lemma clone_id [simp]: "clone b = b"
  by (simp add: clone_def)

definition ensureJSON :: "gomap \<Rightarrow> (string \<times> string) list" where
  "ensureJSON h =
     (let m = pairs h
      in if ''Content-Type'' \<in> fst ` set m then m else m @ [(''Content-Type'', ''application/json'')])"

definition readJSON :: "string \<Rightarrow> (string \<times> json) list option" where
  "readJSON body =
     (if body = [] then None
      else case Unmarshal_any body of Some (JObj kvs) \<Rightarrow> Some kvs | _ \<Rightarrow> None)"

text \<open>A JSON-RPC call as \<open>json.Marshal\<close> writes the map the adapters build.\<close>

definition rpc_call :: "string \<Rightarrow> json list \<Rightarrow> string" where
  "rpc_call rpc_method params =
     Marshal (JMap [(''jsonrpc'', JStr ''2.0''), (''id'', JInt 1), (''method'', JStr rpc_method),
                    (''params'', JArr params)])"

definition finalized :: json where
  "finalized = JMap [(''commitment'', JStr ''finalized'')]"

section \<open>nft.go\<close>

definition isHexAddress :: "string \<Rightarrow> bool" where
  "isHexAddress s =
     (let s = ToLower s; s = (if HasPrefix s ''0x'' then drop 2 s else s)
      in if length s \<noteq> 40 then False else snd (hex_decode s))"

definition leftPad32 :: "string \<Rightarrow> panic + string" where
  "leftPad32 b =
     (if length b \<le> 32 then Inr (replicate (32 - length b) (char_of (0 :: nat)) @ b)
      else Inl SliceBounds)"

definition parse_id :: "string \<Rightarrow> int" where
  "parse_id tokenId =
     (if HasPrefix (ToLower tokenId) ''0x'' then SetString (drop 2 tokenId) 16
      else SetString tokenId 10)"

definition BuildOwnerOfData :: "string \<Rightarrow> panic + string" where
  "BuildOwnerOfData tokenId =
     and_then (leftPad32 (big_Bytes (parse_id tokenId)))
       (\<lambda>enc. Inr (''0x6352211e'' @ hex_encode enc))"

definition BuildTokenURIData :: "string \<Rightarrow> panic + string" where
  "BuildTokenURIData tokenId =
     and_then (leftPad32 (big_Bytes (parse_id tokenId)))
       (\<lambda>enc. Inr (''0xc87b56dd'' @ hex_encode enc))"

text \<open>An address argument: lower case, without 0x, decoded up to the first error.\<close>

definition addr_bytes :: "string \<Rightarrow> string" where
  "addr_bytes addr =
     (let a = ToLower addr; a = (if HasPrefix a ''0x'' then drop 2 a else a)
      in fst (hex_decode a))"

definition BuildBalanceOfData :: "string \<Rightarrow> panic + string" where
  "BuildBalanceOfData addr =
     and_then (leftPad32 (addr_bytes addr)) (\<lambda>enc. Inr (''0x70a08231'' @ hex_encode enc))"

definition BuildTokenOfOwnerByIndexData :: "string \<Rightarrow> 64 word \<Rightarrow> panic + string" where
  "BuildTokenOfOwnerByIndexData owner index =
     and_then (leftPad32 (addr_bytes owner))
       (\<lambda>o_enc. and_then (leftPad32 (big_Bytes (uint index)))
         (\<lambda>i_enc. Inr (''0x2f745c59'' @ hex_encode (o_enc @ i_enc))))"

definition BuildSupportsInterfaceData :: "string \<Rightarrow> panic + string" where
  "BuildSupportsInterfaceData ifaceHex4 =
     and_then (leftPad32 (fst (hex_decode (TrimPrefix (ToLower ifaceHex4) ''0x''))))
       (\<lambda>padded. Inr (''0x01ffc9a7'' @ hex_encode padded))"

definition NormalizeHex :: "string \<Rightarrow> string" where
  "NormalizeHex s = (if HasPrefix s ''0x'' then s else ''0x'' @ s)"

definition filterEmpty :: "string list \<Rightarrow> string list" where
  "filterEmpty xs = filter (\<lambda>s. s \<noteq> []) xs"

definition eth_call_params :: "string \<Rightarrow> string \<Rightarrow> json list" where
  "eth_call_params contract data =
     [JMap [(''to'', JStr (NormalizeHex contract)), (''data'', JStr data)], JStr ''latest'']"

definition passed :: "string \<Rightarrow> string \<Rightarrow> string \<Rightarrow> (string \<times> string) list \<Rightarrow> adapted" where
  "passed tail m body hdrs =
     \<lparr>ad_Tail = tail, ad_Method = m, ad_Body = clone body, ad_Headers = hdrs,
      ad_AllowedHostSubstr = []\<rparr>"

definition rpc_post :: "string \<Rightarrow> adapted" where
  "rpc_post body =
     \<lparr>ad_Tail = [], ad_Method = ''POST'', ad_Body = body, ad_Headers = ensureJSON None,
      ad_AllowedHostSubstr = []\<rparr>"

definition get_only :: "string \<Rightarrow> string list \<Rightarrow> adapted" where
  "get_only tail hosts =
     \<lparr>ad_Tail = tail, ad_Method = ''GET'', ad_Body = [], ad_Headers = [],
      ad_AllowedHostSubstr = hosts\<rparr>"

text \<open>\<open>adaptNFT\<close> is not called by \<open>Adapt\<close>.\<close>

definition adaptNFT :: "string \<Rightarrow> string \<Rightarrow> string \<Rightarrow> panic + adapted" where
  "adaptNFT tail m body =
     (if (case readJSON body of
            Some j \<Rightarrow> EqualFold (asString (obj_get j ''method'')) ''eth_call'' | None \<Rightarrow> False)
      then Inr (passed tail m body (ensureJSON None))
      else (let parts = filterEmpty (Split tail (CHR ''/''))
            in if 2 \<le> length parts \<and> isHexAddress (parts ! 0)
               then and_then (BuildOwnerOfData (parts ! 1))
                      (\<lambda>data. Inr (rpc_post
                         (rpc_call ''eth_call'' (eth_call_params (parts ! 0) data))))
               else Inr (passed tail m body (ensureJSON None))))"

section \<open>The adapters of the networks\<close>

definition low_tail :: "string \<Rightarrow> string" where
  "low_tail tail = ToLower (TrimPrefix tail ''/'')"

definition adaptTRX :: "string \<Rightarrow> string \<Rightarrow> string \<Rightarrow> adapted" where
  "adaptTRX tail m body =
     (let ltail = low_tail tail; addr = TrimPrefix ltail ''balance/''
      in if HasPrefix ltail ''balance/'' \<and> addr \<noteq> []
         then \<lparr>ad_Tail = ''v1/accounts/'' @ addr, ad_Method = ''GET'', ad_Body = [],
               ad_Headers = ensureJSON None, ad_AllowedHostSubstr = [''trongrid.io'']\<rparr>
         else if HasPrefix ltail ''wallet/'' \<or> HasPrefix ltail ''walletsolidity/''
                   \<or> HasPrefix ltail ''v1/''
         then passed tail m body (ensureJSON None)
         else passed tail m body (ensureJSON None))"

definition adaptBTC :: "string \<Rightarrow> string \<Rightarrow> string \<Rightarrow> adapted" where
  "adaptBTC tail m body =
     (let ltail = low_tail tail; addr = TrimPrefix ltail ''balance/''
      in if ltail = [] \<or> ltail = ''/''
         then get_only ''blocks/tip/height'' [''blockstream.info'', ''tatum.io'']
         else if HasPrefix ltail ''rest/'' \<or> HasPrefix ltail ''blocks/'' \<or> HasPrefix ltail ''tx/''
                   \<or> HasPrefix ltail ''address/''
         then (passed tail m body [])\<lparr>ad_AllowedHostSubstr := [''blockstream.info'', ''tatum.io'']\<rparr>
         else if ltail = ''fees'' then get_only ''v3/blockchain/fee/BTC'' [''tatum.io'']
         else if HasPrefix ltail ''balance/'' \<and> addr \<noteq> []
         then get_only (''v3/bitcoin/address/balance/'' @ addr) [''tatum.io'']
         else passed tail m body [])"

definition get_slot :: string where
  "get_slot = rpc_call ''getSlot'' [finalized]"

text \<open>The step of \<open>adaptSOL\<close> that completes a \<open>getBalance\<close>, and the text of the result.\<close>

definition with_commitment :: "(string \<times> json) list \<Rightarrow> (string \<times> json) list" where
  "with_commitment j =
     (if EqualFold (asString (obj_get j ''method'')) ''getBalance''
      then case obj_get j ''params'' of
             Some (JArr [p]) \<Rightarrow> j @ [(''params'', JArr [p, finalized])]
           | _ \<Rightarrow> j
      else j)"

definition adaptSOL :: "string \<Rightarrow> string \<Rightarrow> string \<Rightarrow> adapted" where
  "adaptSOL tail m body =
     (let ltail = low_tail tail; addr = TrimPrefix ltail ''balance/''
      in if m = ''GET''
         then if ltail = [] \<or> ltail = ''slot'' then rpc_post get_slot
              else if HasPrefix ltail ''balance/'' \<and> addr \<noteq> []
              then rpc_post (rpc_call ''getBalance'' [JStr addr, finalized])
              else passed tail m [] []
         else (case readJSON body of
                 None \<Rightarrow> rpc_post get_slot
               | Some j \<Rightarrow>
                   if asString (obj_get j ''method'') = [] then rpc_post get_slot
                   else passed tail m (Marshal (as_any (JObj (with_commitment j))))
                          (ensureJSON None)))"

definition get_blockcount :: string where
  "get_blockcount =
     Marshal (JObj [(''jsonrpc'', JStr ''2.0''), (''method'', JStr ''getblockcount''),
                    (''params'', JArr []), (''id'', JInt 1)])"

definition adaptDOGE :: "string \<Rightarrow> string \<Rightarrow> string \<Rightarrow> string \<Rightarrow> adapted" where
  "adaptDOGE tail m body baseURL =
     (let ltail = low_tail tail; lbase = ToLower baseURL
      in if Contains lbase ''tatum.io'' then rpc_post get_blockcount
         else if HasPrefix ltail ''rest/'' \<or> HasPrefix ltail ''api/'' then passed tail m body []
         else if ltail = []
         then if Contains lbase ''dogechain.info'' then get_only ''api/v1/block/count'' []
              else if Contains lbase ''socha.in'' then get_only ''api/v2'' []
              else get_only ''rest/chaininfo.json'' []
         else passed tail m body (ensureJSON None))"

definition adaptLTC :: "string \<Rightarrow> string \<Rightarrow> string \<Rightarrow> string \<Rightarrow> adapted" where
  "adaptLTC tail m body baseURL =
     (let ltail = low_tail tail; lbase = ToLower baseURL
      in if Contains lbase ''tatum.io'' then rpc_post get_blockcount
         else if HasPrefix ltail ''rest/'' \<or> HasPrefix ltail ''api/'' then passed tail m body []
         else if ltail = []
         then if Contains lbase ''sochain.com'' then get_only ''api/v2/get_info/LTC'' []
              else if Contains lbase ''blockbook'' \<or> Contains lbase ''blockchair''
              then get_only ''api/v2'' []
              else get_only ''rest/chaininfo.json'' []
         else passed tail m body (ensureJSON None))"

text \<open>The short GET forms of \<open>adaptEVM\<close>, by lower-cased tail.\<close>

definition evm_get :: "string \<Rightarrow> adapted option" where
  "evm_get ltail =
     (let addr = TrimPrefix ltail ''balance/''
      in if ltail = ''blocknumber'' \<or> ltail = ''block_number''
         then Some (rpc_post (rpc_call ''eth_blockNumber'' []))
         else if ltail = ''gasprice'' \<or> ltail = ''gas_price''
         then Some (rpc_post (rpc_call ''eth_gasPrice'' []))
         else if ltail = ''chainid'' \<or> ltail = ''chain_id''
         then Some (rpc_post (rpc_call ''eth_chainId'' []))
         else if HasPrefix ltail ''balance/'' \<and> addr \<noteq> []
         then Some (rpc_post (rpc_call ''eth_getBalance'' [JStr (NormalizeHex addr), JStr ''latest'']))
         else None)"

definition nft_parts :: "string \<Rightarrow> (string \<times> string) option" where
  "nft_parts ltail =
     (let parts = Split ltail (CHR ''/'')
      in if HasPrefix ltail ''nft/'' \<and> 3 \<le> length parts \<and> isHexAddress (parts ! 1)
         then Some (parts ! 1, parts ! 2) else None)"

definition adaptEVM :: "string \<Rightarrow> string \<Rightarrow> string \<Rightarrow> panic + adapted" where
  "adaptEVM tail m body =
     (let ltail = low_tail tail
      in case nft_parts ltail of
           Some (contract, tokenId) \<Rightarrow>
             and_then (BuildOwnerOfData tokenId)
               (\<lambda>data. Inr (rpc_post (rpc_call ''eth_call'' (eth_call_params contract data))))
         | None \<Rightarrow>
             (case (if m = ''GET'' then evm_get ltail else None) of
                Some r \<Rightarrow> Inr r
              | None \<Rightarrow> Inr (passed tail m body [])))"

definition Adapt ::
  "string \<Rightarrow> string \<Rightarrow> string \<Rightarrow> string \<Rightarrow> string \<Rightarrow> string \<Rightarrow> panic + adapted" where
  "Adapt network protocol baseURL tail m body =
     (let net = ToLower network
      in if net = ''trx'' then Inr (adaptTRX tail m body)
         else if net = ''btc'' then Inr (adaptBTC tail m body)
         else if net = ''sol'' then Inr (adaptSOL tail m body)
         else if net = ''doge'' then Inr (adaptDOGE tail m body baseURL)
         else if net = ''ltc'' then Inr (adaptLTC tail m body baseURL)
         else if EqualFold protocol ''evm'' then adaptEVM tail m body
         else Inr (passed tail m body []))"

section \<open>ABI words\<close>

lemma leftPad32_Inr:
  "leftPad32 b = Inr w \<longleftrightarrow> length b \<le> 32 \<and> w = replicate (32 - length b) (char_of (0 :: nat)) @ b"
  by (auto simp: leftPad32_def)

lemma leftPad32_word: "leftPad32 b = Inr w \<Longrightarrow> length w = 32 \<and> be_val w = be_val b"
  by (auto simp: leftPad32_Inr)

lemma leftPad32_Inl: "leftPad32 b = Inl p \<longleftrightarrow> 32 < length b \<and> p = SliceBounds"
  by (auto simp: leftPad32_def)

lemma length_big_Bytes: "length (big_Bytes z) \<le> 32 \<longleftrightarrow> \<bar>z\<bar> < 2 ^ 256"
proof -
  have e: "(256 :: nat) ^ 32 = 2 ^ 256" by simp
  have "length (be_bytes n) \<le> 32 \<longleftrightarrow> n < 2 ^ 256" for n
    using length_be_bytes [of n 32] length_be_bytes_gt [of 32 n] unfolding e
    by (meson linorder_not_less)
  then have "length (big_Bytes z) \<le> 32 \<longleftrightarrow> nat \<bar>z\<bar> < 2 ^ 256"
    by (simp only: big_Bytes_def)
  then show ?thesis by (simp add: nat_less_iff)
qed

lemma be_val_big_Bytes [simp]: "be_val (big_Bytes z) = nat \<bar>z\<bar>"
  by (simp add: big_Bytes_def)

text \<open>A 256-bit word as the argument of a selector: what \<open>ownerOf\<close> and \<open>tokenURI\<close> are sent.\<close>

definition is_word_arg :: "string \<Rightarrow> int \<Rightarrow> string \<Rightarrow> bool" where
  "is_word_arg selector z data \<longleftrightarrow>
     (\<exists>w. data = selector @ hex_encode w \<and> length w = 32 \<and> int (be_val w) = \<bar>z\<bar>)"

lemma id_word:
  "and_then (leftPad32 (big_Bytes z)) (\<lambda>enc. Inr (sel @ hex_encode enc)) = Inr data \<Longrightarrow>
     is_word_arg sel z data"
  using leftPad32_word by (fastforce simp: is_word_arg_def)

lemma id_word_panic:
  "and_then (leftPad32 (big_Bytes z)) (\<lambda>enc. Inr (sel @ hex_encode enc)) = Inl p
     \<longleftrightarrow> 2 ^ 256 \<le> \<bar>z\<bar> \<and> p = SliceBounds"
proof -
  have "32 < length (big_Bytes z) \<longleftrightarrow> 2 ^ 256 \<le> \<bar>z\<bar>"
    using length_big_Bytes [of z] by linarith
  then show ?thesis by (simp add: and_then_Inl leftPad32_Inl)
qed

lemma pad_panic: "leftPad32 (big_Bytes z) = Inl p \<longleftrightarrow> 2 ^ 256 \<le> \<bar>z\<bar> \<and> p = SliceBounds"
proof -
  have "32 < length (big_Bytes z) \<longleftrightarrow> 2 ^ 256 \<le> \<bar>z\<bar>"
    using length_big_Bytes [of z] by linarith
  then show ?thesis by (simp only: leftPad32_Inl)
qed

lemma length_addr_bytes: "isHexAddress a \<Longrightarrow> length (addr_bytes a) = 20"
  using length_hex_decode_ok by (fastforce simp: isHexAddress_def addr_bytes_def Let_def split: if_splits)

lemma length_index: "length (big_Bytes (uint (i :: 64 word))) \<le> 32"
proof -
  have "uint i < 2 ^ LENGTH(64)" by (rule uint_bounded)
  then show ?thesis by (simp add: length_big_Bytes)
qed

section \<open>Properties\<close>

text \<open>The number that a text is read as.\<close>

lemma takeWhile_digits: "list_all P s \<Longrightarrow> takeWhile P s = s"
  by (simp add: list_all_iff takeWhile_eq_all_conv)

lemma SetString_digits:
  assumes "list_all (is_digit base) ds" "sign \<in> {[], ''-''}"
  shows "\<bar>SetString (sign @ ds) base\<bar> = int (digits_val base ds)"
proof (cases ds)
  case Nil
  with assms(2) show ?thesis by (auto simp: big_digits_def digits_val_def)
next
  case (Cons d r)
  then have "is_digit base d" using assms(1) by simp
  then have "d \<noteq> CHR ''-''" "d \<noteq> CHR ''+''" by (auto simp: is_digit_def digit_val_def)
  with assms show ?thesis by (auto simp: Cons big_digits_def takeWhile_digits)
qed

lemma parse_id_hex:
  assumes "list_all (is_digit 16) ds" "sign \<in> {[], ''-''}" "mark \<in> {''0x'', ''0X''}"
  shows "\<bar>parse_id (mark @ sign @ ds)\<bar> = int (digits_val 16 ds)"
proof -
  have "ToLower ''0x'' = ''0x''" "ToLower ''0X'' = ''0x''" by code_simp+
  then have "ToLower mark = ''0x''" using assms(3) by blast
  then have "HasPrefix (ToLower (mark @ u)) ''0x''" for u
    by (simp only: ToLower_def map_append HasPrefix_append)
  moreover have "drop 2 (mark @ u) = u" for u using assms(3) by auto
  ultimately show ?thesis using SetString_digits [OF assms(1,2)] by (simp only: parse_id_def if_True)
qed

lemma parse_id_decimal:
  assumes "list_all (is_digit 10) ds" "sign \<in> {[], ''-''}"
  shows "\<bar>parse_id (sign @ ds)\<bar> = int (digits_val 10 ds)"
proof -
  have x: "\<not> is_digit 10 (CHR ''x'')" by code_simp
  have low: "lower_char c = c" if "is_digit 10 c" for c
    using that by (auto simp: is_digit_def digit_val_def lower_char_def Let_def split: if_splits)
  have "ToLower ds = ds" using assms(1) low by (auto simp: ToLower_def list_all_iff intro: map_idI)
  moreover have "\<not> HasPrefix ds ''0x''" using assms(1) x by (auto simp: HasPrefix_def prefix_def)
  moreover have "\<not> HasPrefix (ToLower (''-'' @ ds)) ''0x''" by (simp add: HasPrefix_def ToLower_def lower_char_def)
  ultimately have "\<not> HasPrefix (ToLower (sign @ ds)) ''0x''" using assms(2) by auto
  with SetString_digits [OF assms] show ?thesis by (simp add: parse_id_def)
qed

lemma ownerOf_word:
  "case BuildOwnerOfData tokenId of
     Inr data \<Rightarrow> \<bar>parse_id tokenId\<bar> < 2 ^ 256 \<and> is_word_arg ''0x6352211e'' (parse_id tokenId) data
   | Inl p \<Rightarrow> p = SliceBounds \<and> 2 ^ 256 \<le> \<bar>parse_id tokenId\<bar>"
proof (cases "BuildOwnerOfData tokenId")
  case (Inl p)
  then have "p = SliceBounds \<and> 2 ^ 256 \<le> \<bar>parse_id tokenId\<bar>"
    by (auto simp: BuildOwnerOfData_def and_then_Inl pad_panic)
  then show ?thesis unfolding Inl sum.case .
next
  case (Inr data)
  then have "is_word_arg ''0x6352211e'' (parse_id tokenId) data"
    unfolding BuildOwnerOfData_def by (rule id_word)
  moreover have "\<bar>parse_id tokenId\<bar> < 2 ^ 256"
    using Inr id_word_panic [of "parse_id tokenId" "''0x6352211e''" SliceBounds]
    by (fastforce simp: BuildOwnerOfData_def)
  ultimately show ?thesis unfolding Inr sum.case by blast
qed

text \<open>
  (C26) The calldata of \<open>ownerOf\<close>. A token number is given by decimal digits, or by hexadecimal digits
  after \<open>0x\<close> or \<open>0X\<close>, perhaps with a minus sign before the digits. The calldata is the selector and the
  256-bit word of the number's absolute value, so that a negative number asks for another token; from
  \<open>2 ^ 256\<close> on the code panics.
\<close>
theorem ownerOf_calldata:
  assumes "base = 10 \<and> mark = [] \<or> base = 16 \<and> mark \<in> {''0x'', ''0X''}"
    and "sign \<in> {[], ''-''}" "list_all (is_digit base) ds"
  shows "case BuildOwnerOfData (mark @ sign @ ds) of
     Inr data \<Rightarrow> digits_val base ds < 2 ^ 256
       \<and> (\<exists>w. data = ''0x6352211e'' @ hex_encode w \<and> length w = 32 \<and> be_val w = digits_val base ds)
   | Inl p \<Rightarrow> p = SliceBounds \<and> 2 ^ 256 \<le> digits_val base ds"
proof -
  have v: "\<bar>parse_id (mark @ sign @ ds)\<bar> = int (digits_val base ds)"
    using assms parse_id_hex [of ds sign mark] parse_id_decimal [of ds sign] by auto
  have n: "int m < 2 ^ 256 \<longleftrightarrow> m < 2 ^ 256" "2 ^ 256 \<le> int m \<longleftrightarrow> 2 ^ 256 \<le> m" for m
    using of_nat_less_iff [of m "2 ^ 256", where 'a = int] of_nat_le_iff [of "2 ^ 256" m, where 'a = int]
    by (simp_all only: of_nat_power of_nat_numeral)
  show ?thesis
  proof (cases "BuildOwnerOfData (mark @ sign @ ds)")
    case (Inl p)
    with ownerOf_word [of "mark @ sign @ ds"] show ?thesis unfolding v Inl sum.case n by blast
  next
    case (Inr data)
    with ownerOf_word [of "mark @ sign @ ds"] show ?thesis
      unfolding v Inr sum.case n is_word_arg_def of_nat_eq_iff by blast
  qed
qed

text \<open>
  The calldata of \<open>tokenOfOwnerByIndex\<close> for an owner that is an address: the selector, the
  twenty bytes of the address in a 32-byte word behind twelve zero bytes, and the index as a word;
  it never panics.
\<close>
theorem tokenOfOwnerByIndex_calldata:
  assumes "isHexAddress owner"
  shows "\<exists>w v. BuildTokenOfOwnerByIndexData owner index = Inr (''0x2f745c59'' @ hex_encode w @ hex_encode v)
    \<and> length w = 32 \<and> take 12 w = replicate 12 (char_of (0 :: nat)) \<and> drop 12 w = addr_bytes owner
    \<and> length v = 32 \<and> be_val v = unat index"
proof -
  let ?w = "replicate 12 (char_of (0 :: nat)) @ addr_bytes owner"
  let ?v = "replicate (32 - length (big_Bytes (uint index))) (char_of (0 :: nat)) @ big_Bytes (uint index)"
  note l = length_addr_bytes [OF assms] length_index [of index]
  have "BuildTokenOfOwnerByIndexData owner index = Inr (''0x2f745c59'' @ hex_encode ?w @ hex_encode ?v)"
    using l by (simp add: BuildTokenOfOwnerByIndexData_def leftPad32_def)
  moreover have "length ?v = 32" "length ?w = 32" "be_val ?v = unat index"
    using l by simp_all
  moreover have "take 12 ?w = replicate 12 (char_of (0 :: nat))" "drop 12 ?w = addr_bytes owner" by simp_all
  ultimately show ?thesis by blast
qed

text \<open>
  The calldata of \<open>supportsInterface\<close>, for the one interface the program asks about: the four
  bytes of its ID come last in the word. The contract ABI puts a \<open>bytes4\<close> first, so a contract
  reads the ID 0 here.
\<close>
theorem supportsInterface_calldata:
  "\<exists>w. BuildSupportsInterfaceData ''0x780e9d63'' = Inr (''0x01ffc9a7'' @ hex_encode w) \<and> length w = 32
     \<and> take 4 w = replicate 4 (char_of (0 :: nat)) \<and> hex_encode (drop 28 w) = ''780e9d63''"
proof -
  let ?w = "replicate 28 (char_of (0 :: nat)) @ map char_of [0x78 :: nat, 0x0e, 0x9d, 0x63]"
  have "BuildSupportsInterfaceData ''0x780e9d63'' = Inr (''0x01ffc9a7'' @ hex_encode ?w)"
    by (simp add: BuildSupportsInterfaceData_def gostr ToLower_def lower_char_def digit_val_def leftPad32_def)
  moreover have "hex_encode (drop 28 ?w) = ''780e9d63''"
    by (simp add: hex_char_def) code_simp
  moreover have "take 4 ?w = replicate 4 (char_of (0 :: nat))" "length ?w = 32" by simp_all
  ultimately show ?thesis by blast
qed

text \<open>
  The one way in which adapting a request panics: the NFT form of a path on an EVM network, with
  a token number of 2^256 or more.
\<close>
theorem Adapt_panics:
  "Adapt network protocol base tail m body = Inl p \<longleftrightarrow>
     p = SliceBounds \<and> ToLower network \<notin> {''trx'', ''btc'', ''sol'', ''doge'', ''ltc''}
     \<and> EqualFold protocol ''evm''
     \<and> (\<exists>contract tokenId. nft_parts (ToLower (TrimPrefix tail ''/'')) = Some (contract, tokenId)
          \<and> 2 ^ 256 \<le> \<bar>parse_id tokenId\<bar>)"
proof -
  have "adaptEVM tail m body = Inl p \<longleftrightarrow> p = SliceBounds
     \<and> (\<exists>contract tokenId. nft_parts (ToLower (TrimPrefix tail ''/'')) = Some (contract, tokenId)
          \<and> 2 ^ 256 \<le> \<bar>parse_id tokenId\<bar>)"
  proof (cases "nft_parts (ToLower (TrimPrefix tail ''/''))")
    case None
    then show ?thesis by (auto simp: adaptEVM_def low_tail_def split: option.split)
  next
    case (Some a)
    then show ?thesis
      by (cases a) (auto simp: adaptEVM_def low_tail_def BuildOwnerOfData_def and_then_Inl pad_panic)
  qed
  then show ?thesis by (auto simp: Adapt_def Let_def)
qed

text \<open>
  The balance forms of the BTC and TRX adapters and of the SOL adapter send the address in lower
  case, although the addresses of these networks distinguish case.
\<close>
theorem balance_lowers_address:
  assumes "addr \<noteq> []"
  shows "Adapt ''btc'' proto base (''balance/'' @ addr) m body
      = Inr (get_only (''v3/bitcoin/address/balance/'' @ ToLower addr) [''tatum.io''])
    \<and> map_sum id ad_Tail (Adapt ''trx'' proto base (''balance/'' @ addr) m body)
      = Inr (''v1/accounts/'' @ ToLower addr)
    \<and> Adapt ''sol'' proto base (''balance/'' @ addr) ''GET'' body
      = Inr (rpc_post (rpc_call ''getBalance'' [JStr (ToLower addr), finalized]))"
proof -
  have "low_tail (''balance/'' @ addr) = ''balance/'' @ ToLower addr" "ToLower addr \<noteq> []"
    using assms by (simp_all add: low_tail_def gostr ToLower_def lower_char_def)
  moreover have "TrimPrefix (''balance/'' @ t) ''balance/'' = t" "HasPrefix (''balance/'' @ t) ''balance/''"
    "\<not> HasPrefix (''balance/'' @ t) ''rest/''" "\<not> HasPrefix (''balance/'' @ t) ''blocks/''"
    "\<not> HasPrefix (''balance/'' @ t) ''tx/''" "\<not> HasPrefix (''balance/'' @ t) ''address/''" for t
    by (simp_all add: gostr)
  moreover have "ToLower ''btc'' = ''btc''" "ToLower ''trx'' = ''trx''" "ToLower ''sol'' = ''sol''"
    by (simp_all add: ToLower_def lower_char_def)
  ultimately show ?thesis by (simp add: Adapt_def adaptBTC_def adaptTRX_def adaptSOL_def Let_def)
qed

section \<open>What Solana nodes are sent\<close>

definition asks_balance :: "(string \<times> json) list \<Rightarrow> bool" where
  "asks_balance kvs \<longleftrightarrow> EqualFold (asString (obj_get kvs ''method'')) ''getBalance''"

lemma obj_get_with_commitment:
  "obj_get (with_commitment kvs) k =
     (if k = ''params'' \<and> asks_balance kvs
      then case obj_get kvs k of Some (JArr [p]) \<Rightarrow> Some (JArr [p, finalized]) | v \<Rightarrow> v
      else obj_get kvs k)"
  by (auto simp: with_commitment_def asks_balance_def obj_get_append split: option.split json.split list.split)

lemma finalized_any [simp]: "as_any finalized = finalized"
  by (simp add: finalized_def JMap_def)

lemma finalized_ok: "wf_json finalized" "small_ints finalized" "depth finalized = 1"
  by (simp_all add: finalized_def JMap_def valid_utf8_ascii)

lemma with_commitment_cases:
  "with_commitment kvs = kvs
   \<or> (\<exists>p. (''params'', JArr [p]) \<in> set kvs \<and> with_commitment kvs = kvs @ [(''params'', JArr [p, finalized])])"
  using obj_get_member [of kvs "''params''"]
  by (auto simp: with_commitment_def split: option.split json.split list.split)

lemma foldr_max_start: "foldr max xs n = max (foldr max xs 0) (n :: nat)"
  by (induction xs) simp_all

lemma with_commitment_ok:
  assumes "wf_json (JObj kvs)" "small_ints (JObj kvs)" "depth (JObj kvs) \<le> maxNestingDepth"
  shows "wf_json (JObj (with_commitment kvs)) \<and> small_ints (JObj (with_commitment kvs))
    \<and> depth (JObj (with_commitment kvs)) \<le> maxNestingDepth"
proof (cases "with_commitment kvs = kvs")
  case True
  with assms show ?thesis by simp
next
  case False
  then obtain p where p: "(''params'', JArr [p]) \<in> set kvs"
    "with_commitment kvs = kvs @ [(''params'', JArr [p, finalized])]"
    using with_commitment_cases [of kvs] by blast
  have "wf_json p" "small_ints p" using assms(1,2) p(1) by (auto simp: list_all_iff)
  moreover have "depth (JObj (with_commitment kvs)) \<le> max (depth (JObj kvs)) 3"
    using depth_member [OF p(1)] p(2) by (auto simp: finalized_ok foldr_max_start [of _ "Suc n" for n])
  ultimately show ?thesis using assms p(2) by (simp add: finalized_ok maxNestingDepth_def valid_utf8_ascii)
qed


text \<open>
  From \<open>2 ^ 53\<close> on an integer is rounded: a call with the number \<open>2 ^ 53 + 1\<close> reaches the nodes with
  \<open>2 ^ 53\<close>, and so does its answer the client.
\<close>
theorem sol_rounds_id:
  assumes "m \<noteq> ''GET''" "readJSON body = Some kvs" "asString (obj_get kvs ''method'') \<noteq> []"
    "obj_get kvs ''id'' = Some (JInt (2 ^ 53 + 1))"
  shows "\<exists>fields. ad_Body (adaptSOL tail m body) = Marshal (JObj fields)
    \<and> obj_get fields ''id'' = Some (JInt (2 ^ 53))"
proof -
  have "as_any (JInt (2 ^ 53 + 1)) = JInt (2 ^ 53)" using refloat_rounds by (simp add: JInt_def)
  with assms have "obj_get (map_members (with_commitment kvs)) ''id'' = Some (JInt (2 ^ 53))"
    by (simp add: obj_get_with_commitment)
  with assms(1-3) show ?thesis
    by (auto simp: adaptSOL_def passed_def as_any_obj simp del: as_any.simps Marshal.simps)
qed

subsection \<open>Instances\<close>

theorem tokenOfOwnerByIndex_calldata_witness:
  "\<exists>v. BuildTokenOfOwnerByIndexData (''0x'' @ replicate 40 (CHR ''a'')) 7
     = Inr (''0x2f745c59'' @ hex_encode (replicate 12 (char_of (0 :: nat)) @ replicate 20 (char_of (0xaa :: nat))) @ hex_encode v)
   \<and> be_val v = 7"
proof -
  let ?o = "''0x'' @ replicate 40 (CHR ''a'')"
  have low: "ToLower ?o = ?o" by (simp add: ToLower_def lower_char_def)
  have dec: "hex_decode (replicate (2 * n) (CHR ''a'')) = (replicate n (char_of (0xaa :: nat)), True)" for n
    by (induction n) (simp_all add: digit_val_def)
  have low': "ToLower (replicate 40 (CHR ''a'')) = replicate 40 (CHR ''a'')"
    by (simp add: ToLower_def lower_char_def)
  have "isHexAddress ?o" using dec [of 20] by (simp add: isHexAddress_def low low' gostr Let_def)
  moreover have "addr_bytes ?o = replicate 20 (char_of (0xaa :: nat))"
    using dec [of 20] by (simp add: addr_bytes_def low low' gostr Let_def)
  ultimately obtain w v where *: "BuildTokenOfOwnerByIndexData ?o 7 = Inr (''0x2f745c59'' @ hex_encode w @ hex_encode v)"
    "take 12 w = replicate 12 (char_of (0 :: nat))" "drop 12 w = replicate 20 (char_of (0xaa :: nat))" "be_val v = 7"
    using tokenOfOwnerByIndex_calldata [of ?o 7] by auto
  then have "w = replicate 12 (char_of (0 :: nat)) @ replicate 20 (char_of (0xaa :: nat))"
    by (metis append_take_drop_id)
  with * show ?thesis by auto
qed

theorem ownerOf_calldata_witness:
  "(\<exists>w. BuildOwnerOfData ''0x1F'' = Inr (''0x6352211e'' @ hex_encode w) \<and> length w = 32 \<and> be_val w = 31)
   \<and> (\<exists>w. BuildOwnerOfData ''-31'' = Inr (''0x6352211e'' @ hex_encode w) \<and> length w = 32 \<and> be_val w = 31)"
proof -
  have h: "list_all (is_digit 16) ''1F''" "digits_val 16 ''1F'' = 31" by code_simp+
  have d: "list_all (is_digit 10) ''31''" "digits_val 10 ''31'' = 31" by code_simp+
  show ?thesis
    using ownerOf_calldata [of 16 "''0x''" "[]" "''1F''"] ownerOf_calldata [of 10 "[]" "''-''" "''31''"] h d
    by (cases "BuildOwnerOfData ''0x1F''"; cases "BuildOwnerOfData ''-31''") simp_all
qed

theorem balance_lowers_address_witness:
  "Adapt ''btc'' [] [] (''balance/'' @ ''1A'') ''GET'' []
     = Inr (get_only (''v3/bitcoin/address/balance/'' @ ''1a'') [''tatum.io''])"
proof -
  have "ToLower ''1A'' = ''1a''" by code_simp
  with balance_lowers_address [of "''1A''" "[]" "[]" "''GET''" "[]"]
  show ?thesis by (metis list.distinct(1))
qed

definition balance_call :: "int \<Rightarrow> (string \<times> json) list" where
  "balance_call i =
     [(''jsonrpc'', JStr ''2.0''), (''id'', JInt i), (''method'', JStr ''getBalance''), (''params'', JArr [JStr ''k''])]"

lemma balance_call_simps [simp]:
  "asString (obj_get (balance_call i) ''method'') = ''getBalance''"
  "obj_get (balance_call i) ''id'' = Some (JInt i)"
  "obj_get (balance_call i) ''params'' = Some (JArr [JStr ''k''])"
  by (simp_all add: balance_call_def asString_def)

lemma balance_call_read: "Unmarshal (Marshal (JObj (balance_call i))) = Some (JObj (balance_call i))"
  by (rule Unmarshal_Marshal) (simp_all add: balance_call_def valid_utf8_ascii maxNestingDepth_def)

inductive_cases same_strE: "same_value (JStr t) w"
inductive_cases same_numE: "same_value (JNum lit) w"


end
