(* ===== verification/Public.thy ===== *)
theory Public
  imports Forward Adapters
begin

text \<open>
  The handlers of public.go over the forwarding loop. A handler returns what it wrote, or the panic
  that ended it, with the throttler and the world. \<open>EthFee\<close> and \<open>EthMaxPriorityFee\<close> are defined in
  the source but no route leads to them.
\<close>

type_synonym handled = "(panic + response) \<times> throttle_state \<times> world"

section \<open>Helpers of public.go\<close>

definition isJSONRPC :: "string \<Rightarrow> bool" where
  "isJSONRPC b =
     (if b = [] then False
      else case Unmarshal_any b of Some (JObj m) \<Rightarrow> obj_get m ''jsonrpc'' \<noteq> None | _ \<Rightarrow> False)"

definition mustJSONRPC :: "string \<Rightarrow> json list \<Rightarrow> string" where
  "mustJSONRPC rpc_method params =
     Marshal (JMap [(''jsonrpc'', JStr ''2.0''), (''id'', JInt 1), (''method'', JStr rpc_method),
                    (''params'', JArr params)])"

text \<open>The field \<open>result\<close> of an answer, when the answer is an object and the field a string.\<close>

definition result_string :: "string \<Rightarrow> string" where
  "result_string b =
     (case Unmarshal_any b of Some (JObj out) \<Rightarrow> asString (obj_get out ''result'') | _ \<Rightarrow> [])"

definition tryParseHexQuantityFromRPC :: "string \<Rightarrow> 64 word" where
  "tryParseHexQuantityFromRPC b =
     (let r = TrimPrefix (ToLower (result_string b)) ''0x''
      in if r = [] then 0 else big_Uint64 (SetString r 16))"

definition extractResultHexString :: "string \<Rightarrow> string" where
  "extractResultHexString b =
     (let r = result_string b
      in if r = [] then []
         else if \<not> HasPrefix (ToLower r) ''0x'' then ''0x'' @ ToLower r
         else ToLower r)"

definition respHexOnly :: "string \<Rightarrow> string" where
  "respHexOnly b = b"

definition minUint :: "64 word \<Rightarrow> 64 word \<Rightarrow> 64 word" where
  "minUint a b = (if a < b then a else b)"

text \<open>
  \<open>fmt.Sscanf(s, "%d", &v)\<close> into a \<open>uint64\<close>: blanks other than a newline are skipped, then a
  non-empty run of digits is read, whose value must fit; the rest of the text is ignored.
\<close>

definition scan_uint :: "string \<Rightarrow> 64 word option" where
  "scan_uint s =
     (let ds = takeWhile (is_digit 10)
                 (dropWhile (\<lambda>c. c \<in> set (map char_of [9 :: nat, 11, 12, 13, 32])) s)
      in if ds = [] \<or> 2 ^ 64 \<le> digits_val 10 ds then None
         else Some (word_of_nat (digits_val 10 ds)))"

definition parseUintDefault :: "string \<Rightarrow> 64 word \<Rightarrow> 64 word" where
  "parseUintDefault s dflt =
     (if s = [] then dflt else case scan_uint s of None \<Rightarrow> dflt | Some v \<Rightarrow> v)"

definition first :: "string list \<Rightarrow> string" where
  "first arr = (if arr = [] then [] else last arr)"

section \<open>Forwarding a payload\<close>

text \<open>\<open>callFirst2xx\<close> logs the body before it returns it.\<close>

definition tryForwardJSONRPCToNodes ::
  "env \<Rightarrow> NodeWithPing list \<Rightarrow> string \<Rightarrow> throttle_state \<Rightarrow> world \<Rightarrow> handled" where
  "tryForwardJSONRPCToNodes E nodes raw t w =
     (case first_2xx E (rpc_request raw) nodes t w of
        (Inl p, t', w') \<Rightarrow> (Inl p, t', w')
      | (Inr (Some (n, rs)), t', w') \<Rightarrow> (Inr (json_reply (rs_status rs) (rs_body rs)), t', w')
      | (Inr None, t', w') \<Rightarrow> (Inr (http_error ''all upstreams failed'' 502), t', w'))"

definition forwardFirst2xx ::
  "env \<Rightarrow> NodeWithPing list \<Rightarrow> string \<Rightarrow> throttle_state \<Rightarrow> world
     \<Rightarrow> (panic + bool) \<times> throttle_state \<times> world" where
  "forwardFirst2xx E nodes raw t w =
     (case first_2xx E (rpc_request raw) nodes t w of
        (Inl p, t', w') \<Rightarrow> (Inl p, t', w')
      | (Inr r, t', w') \<Rightarrow> (Inr (r \<noteq> None), t', w'))"

definition callFirst2xx ::
  "env \<Rightarrow> NodeWithPing list \<Rightarrow> string \<Rightarrow> throttle_state \<Rightarrow> world
     \<Rightarrow> (panic + string) \<times> throttle_state \<times> world" where
  "callFirst2xx E nodes raw t w =
     (case first_2xx E (rpc_request raw) nodes t w of
        (Inl p, t', w') \<Rightarrow> (Inl p, t', w')
      | (Inr (Some (n, rs)), t', w') \<Rightarrow> (Inr (after_log (read_cap E) (rs_body rs)), t', w')
      | (Inr None, t', w') \<Rightarrow> (Inr [], t', w'))"

section \<open>Handlers\<close>

text \<open>
  \<open>ActiveNodes\<close>: \<open>ks\<close> is the order in which the loop meets the networks, \<open>environ\<close> the process
  environment that the first redaction reads.
\<close>

definition lite_node :: "string list \<Rightarrow> secrets_state \<Rightarrow> NodeWithPing \<Rightarrow> json" where
  "lite_node environ st n =
     JObj [(''url'', JStr (fst (RedactString environ (URL n) st))), (''priority'', JInt (Priority n))]"

definition full_node :: "string list \<Rightarrow> secrets_state \<Rightarrow> NodeWithPing \<Rightarrow> json" where
  "full_node environ st n =
     JMap [(''url'', JStr (fst (RedactString environ (URL n) st))), (''priority'', JInt (Priority n)),
           (''alive'', JBool (Alive n)), (''ping'', JInt (Ping n))]"

definition ActiveNodes ::
  "string list \<Rightarrow> string list \<Rightarrow> registry \<Rightarrow> incoming \<Rightarrow> secrets_state \<Rightarrow> response \<times> secrets_state"
where
  "ActiveNodes environ ks r rq st =
     (let entry = (\<lambda>name s.
            if in_method rq = ''POST'' then (name, JArr (map (lite_node environ st) (st_Best s)))
            else (name, if st_Best s = [] then JNull
                        else JArr (map (full_node environ st) (st_Best s))));
          out = visit ks (\<lambda>name. map_option (entry name) (reg_All r name));
          used = (\<exists>s \<in> set (visit ks (reg_All r)). st_Best s \<noteq> [])
      in (json_reply 200 (Marshal (JMap out)),
          if used then snd (RedactString environ [] st) else st))"

definition max_priority_request :: "NodeWithPing \<Rightarrow> request" where
  "max_priority_request n =
     \<lparr>rq_method = ''POST'', rq_url = URL n,
      rq_hdr = hset (hset_all hempty (pairs (Headers n))) ''content-type'' ''application/json'',
      rq_body = Marshal (JObj [(''jsonrpc'', JStr ''2.0''), (''id'', JInt 1),
                               (''method'', JStr ''eth_maxPriorityFeePerGas''), (''params'', JArr [])]),
      rq_timeout = sec 5, rq_tor = None\<rparr>"

definition EthMaxPriorityFee :: "env \<Rightarrow> registry \<Rightarrow> incoming \<Rightarrow> throttle_state \<Rightarrow> world \<Rightarrow> handled" where
  "EthMaxPriorityFee E r rq t w =
     (if in_method rq \<noteq> ''GET'' then (Inr (bare 405), t, w)
      else let nodes = reg_Best r ''ethereum''
      in if nodes = [] then (Inr (http_error ''no healthy ETH nodes'' 503), t, w)
         else case first_2xx E max_priority_request nodes t w of
                (Inl p, t', w') \<Rightarrow> (Inl p, t', w')
              | (Inr (Some (n, rs)), t', w') \<Rightarrow> (Inr (json_reply (rs_status rs) (rs_body rs)), t', w')
              | (Inr None, t', w') \<Rightarrow> (Inr (http_error ''no healthy ETH nodes available'' 502), t', w'))"

definition NFTGetNFTMetadata :: "env \<Rightarrow> registry \<Rightarrow> incoming \<Rightarrow> throttle_state \<Rightarrow> world \<Rightarrow> handled" where
  "NFTGetNFTMetadata E r rq t w =
     (let pre = ''/ethereum/nft/get-nft-metadata/'';
          parts = Split (TrimPrefix (in_path rq) pre) (CHR ''/'');
          nodes = reg_Best r ''ethereum''
      in if in_method rq \<noteq> ''GET'' \<or> \<not> HasPrefix (in_path rq) pre then (Inr (bare 404), t, w)
         else if length parts < 2
         then (Inr (http_error ''contractAddress and tokenId required'' 400), t, w)
         else if nodes = [] then (Inr (http_error ''no healthy ETH nodes'' 503), t, w)
         else case BuildTokenURIData (parts ! 1) of
                Inl p \<Rightarrow> (Inl p, t, w)
              | Inr data \<Rightarrow>
                  tryForwardJSONRPCToNodes E nodes
                    (mustJSONRPC ''eth_call'' (eth_call_params (parts ! 0) data)) t w)"

definition btc_payload :: "string \<Rightarrow> string" where
  "btc_payload addr =
     ''{'' @ quote ''jsonrpc'' @ '':'' @ quote ''2.0'' @ '','' @ quote ''id'' @ '':1,''
       @ quote ''method'' @ '':'' @ quote ''getbalance'' @ '','' @ quote ''params'' @ '':[''
       @ [CHR 0x22] @ addr @ [CHR 0x22] @ '']}''"

definition BTCBalance :: "env \<Rightarrow> registry \<Rightarrow> incoming \<Rightarrow> throttle_state \<Rightarrow> world \<Rightarrow> handled" where
  "BTCBalance E r rq t w =
     (let addr = TrimPrefix (in_path rq) ''/btc/balance/''; nodes = reg_Best r ''btc''
      in if in_method rq \<noteq> ''GET'' then (Inr (bare 405), t, w)
         else if addr = [] then (Inr (http_error ''address required'' 400), t, w)
         else if nodes = [] then (Inr (http_error ''no healthy BTC nodes'' 503), t, w)
         else tryForwardJSONRPCToNodes E nodes (btc_payload addr) t w)"

section \<open>NFTGetAllNFTs\<close>

text \<open>
  How many tokens a page holds, with the unsigned subtraction of the code. \<open>make([]string, 0, c)\<close>
  panics when \<open>c\<close> strings of 16 bytes exceed the \<open>2 ^ 48\<close> bytes of the address space; below that the
  allocation is taken to succeed.
\<close>

definition page_size :: "64 word \<Rightarrow> 64 word \<Rightarrow> 64 word \<Rightarrow> 64 word" where
  "page_size tot offset limit = minUint limit (tot - offset)"

text \<open>The loop over the page: \<open>k\<close> rounds are left, \<open>idx\<close> is \<open>offset + i\<close>.\<close>

fun token_loop ::
  "env \<Rightarrow> NodeWithPing list \<Rightarrow> string \<Rightarrow> string \<Rightarrow> nat \<Rightarrow> 64 word \<Rightarrow> string list
     \<Rightarrow> throttle_state \<Rightarrow> world \<Rightarrow> (panic + string list) \<times> throttle_state \<times> world" where
  "token_loop E nodes owner contract 0 idx items t w = (Inr items, t, w)"
| "token_loop E nodes owner contract (Suc k) idx items t w =
     (case BuildTokenOfOwnerByIndexData owner idx of
        Inl p \<Rightarrow> (Inl p, t, w)
      | Inr data \<Rightarrow>
          (case callFirst2xx E nodes (mustJSONRPC ''eth_call'' (eth_call_params contract data)) t w of
             (Inl p, t', w') \<Rightarrow> (Inl p, t', w')
           | (Inr resp, t', w') \<Rightarrow>
               (let h = extractResultHexString resp
                in token_loop E nodes owner contract k (idx + 1)
                     (if resp = [] \<or> h = [] then items else items @ [h]) t' w')))"

definition token_page ::
  "env \<Rightarrow> NodeWithPing list \<Rightarrow> string \<Rightarrow> string \<Rightarrow> 64 word \<Rightarrow> 64 word \<Rightarrow> 64 word
     \<Rightarrow> throttle_state \<Rightarrow> world \<Rightarrow> (panic + string list) \<times> throttle_state \<times> world" where
  "token_page E nodes owner contract tot limit offset t w =
     (let c = page_size tot offset limit
      in if 2 ^ 44 < unat c then (Inl MakeSliceCap, t, w)
         else token_loop E nodes owner contract (unat c) offset [] t w)"

definition all_nfts_reply :: "string \<Rightarrow> string \<Rightarrow> 64 word \<Rightarrow> string list \<Rightarrow> response" where
  "all_nfts_reply contract owner tot items =
     writeJSON 200 (JMap [(''contract'', JStr (NormalizeHex contract)),
                          (''owner'', JStr (NormalizeHex owner)),
                          (''total'', JInt (uint tot)), (''items'', JArr (map JStr items))])"

text \<open>From \<open>supportsInterface\<close> on: the parameters are checked, there are nodes.\<close>

definition nfts_of ::
  "env \<Rightarrow> NodeWithPing list \<Rightarrow> string \<Rightarrow> string \<Rightarrow> 64 word \<Rightarrow> 64 word \<Rightarrow> throttle_state \<Rightarrow> world \<Rightarrow> handled"
where
  "nfts_of E nodes owner contract limit offset t w =
     (case BuildSupportsInterfaceData ''0x780e9d63'' of
        Inl p \<Rightarrow> (Inl p, t, w)
      | Inr siData \<Rightarrow>
     (case forwardFirst2xx E nodes (mustJSONRPC ''eth_call'' (eth_call_params contract siData)) t w of
        (Inl p, t1, w1) \<Rightarrow> (Inl p, t1, w1)
      | (Inr ok, t1, w1) \<Rightarrow>
          if \<not> ok then (Inr (http_error ''all upstreams failed'' 502), t1, w1)
          else
     (case BuildBalanceOfData owner of
        Inl p \<Rightarrow> (Inl p, t1, w1)
      | Inr balData \<Rightarrow>
     (case callFirst2xx E nodes (mustJSONRPC ''eth_call'' (eth_call_params contract balData)) t1 w1 of
        (Inl p, t2, w2) \<Rightarrow> (Inl p, t2, w2)
      | (Inr balResp, t2, w2) \<Rightarrow>
          if balResp = [] then (Inr (http_error ''failed to get balance'' 502), t2, w2)
          else
     (let tot = tryParseHexQuantityFromRPC balResp
      in case token_page E nodes owner contract tot limit offset t2 w2 of
        (Inl p, t3, w3) \<Rightarrow> (Inl p, t3, w3)
      | (Inr items, t3, w3) \<Rightarrow> (Inr (all_nfts_reply contract owner tot items), t3, w3))))))"

definition NFTGetAllNFTs :: "env \<Rightarrow> registry \<Rightarrow> incoming \<Rightarrow> throttle_state \<Rightarrow> world \<Rightarrow> handled" where
  "NFTGetAllNFTs E r rq t w =
     (let pre = ''/ethereum/nft/get-all-nfts/'';
          owner = TrimPrefix (in_path rq) pre;
          contract = TrimSpace (in_param rq ''contract'');
          limit = parseUintDefault (in_param rq ''limit'') 50;
          offset = parseUintDefault (in_param rq ''offset'') 0;
          nodes = reg_Best r ''ethereum''
      in if in_method rq \<noteq> ''GET'' \<or> \<not> HasPrefix (in_path rq) pre then (Inr (bare 404), t, w)
         else if owner = [] then (Inr (http_error ''owner required'' 400), t, w)
         else if contract = [] then (Inr (http_error ''contract required'' 400), t, w)
         else if nodes = [] then (Inr (http_error ''no healthy ETH nodes'' 503), t, w)
         else nfts_of E nodes owner contract limit offset t w)"

section \<open>EthFee\<close>

text \<open>
  \<open>EthFee\<close> decodes into variables declared outside its loop, so what one node answered is still
  there when the next node's answer leaves a field out; and \<open>json.Unmarshal\<close> goes on after a value
  of the wrong kind, which it skips. A decoder here returns the new value and whether all kinds
  fitted. The slice is its cells, of which the first \<open>fh_len\<close> are in use: decoding an array writes
  over the cells that are there, and \<open>null\<close> leaves a cell as it was.
\<close>

record feeHistory =
  fh_cells :: "string list"
  fh_len :: nat

definition fh_BaseFeePerGas :: "feeHistory \<Rightarrow> string list" where
  "fh_BaseFeePerGas fh = take (fh_len fh) (fh_cells fh)"

fun fh_elems :: "json list \<Rightarrow> nat \<Rightarrow> string list \<Rightarrow> string list \<times> bool" where
  "fh_elems [] i cells = (cells, True)"
| "fh_elems (v # vs) i cells =
     (let grown = (if i < length cells then cells else cells @ [[]]);
          (cells', ok) = (case v of JStr s \<Rightarrow> (grown[i := s], True)
                          | JNull \<Rightarrow> (grown, True) | _ \<Rightarrow> (grown, False));
          (cells'', ok') = fh_elems vs (Suc i) cells'
      in (cells'', ok \<and> ok'))"

definition fh_slice :: "json \<Rightarrow> feeHistory \<Rightarrow> feeHistory \<times> bool" where
  "fh_slice v fh =
     (case v of
        JArr vs \<Rightarrow>
          if vs = [] then (\<lparr>fh_cells = [], fh_len = 0\<rparr>, True)
          else (let (cells, ok) = fh_elems vs 0 (fh_cells fh)
                in (\<lparr>fh_cells = cells, fh_len = length vs\<rparr>, ok))
      | JNull \<Rightarrow> (\<lparr>fh_cells = [], fh_len = 0\<rparr>, True)
      | _ \<Rightarrow> (fh, False))"

fun fill_field ::
  "string \<Rightarrow> (json \<Rightarrow> 'a \<Rightarrow> 'a \<times> bool) \<Rightarrow> (string \<times> json) list \<Rightarrow> 'a \<Rightarrow> 'a \<times> bool" where
  "fill_field name d [] cur = (cur, True)"
| "fill_field name d ((k, v) # kvs) cur =
     (if EqualFold name k
      then (let (cur', ok) = d v cur; (cur'', ok') = fill_field name d kvs cur'
            in (cur'', ok \<and> ok'))
      else fill_field name d kvs cur)"

definition fill_struct ::
  "((string \<times> json) list \<Rightarrow> 'a \<Rightarrow> 'a \<times> bool) \<Rightarrow> json \<Rightarrow> 'a \<Rightarrow> 'a \<times> bool" where
  "fill_struct d v cur =
     (case v of JObj kvs \<Rightarrow> d kvs cur | JNull \<Rightarrow> (cur, True) | _ \<Rightarrow> (cur, False))"

definition fill_string :: "json \<Rightarrow> string \<Rightarrow> string \<times> bool" where
  "fill_string v cur = (case v of JStr s \<Rightarrow> (s, True) | JNull \<Rightarrow> (cur, True) | _ \<Rightarrow> (cur, False))"

definition unmarshal_fh :: "string \<Rightarrow> feeHistory \<Rightarrow> feeHistory \<times> bool" where
  "unmarshal_fh b fh =
     (case Unmarshal b of
        None \<Rightarrow> (fh, False)
      | Some v \<Rightarrow>
          fill_struct (fill_field ''result''
            (fill_struct (fill_field ''baseFeePerGas'' fh_slice))) v fh)"

definition unmarshal_mp :: "string \<Rightarrow> string \<Rightarrow> string \<times> bool" where
  "unmarshal_mp b mp =
     (case Unmarshal b of
        None \<Rightarrow> (mp, False)
      | Some v \<Rightarrow> fill_struct (fill_field ''result'' fill_string) v mp)"

definition eth_fee_request :: "string \<Rightarrow> NodeWithPing \<Rightarrow> request" where
  "eth_fee_request raw n = (rpc_request raw n)\<lparr>rq_timeout := sec 5\<rparr>"

definition fee_history_body :: string where
  "fee_history_body =
     Marshal (JObj [(''jsonrpc'', JStr ''2.0''), (''method'', JStr ''eth_feeHistory''),
                    (''params'', JArr [JStr ''0x1'', JStr ''latest'', JArr []]), (''id'', JInt 1)])"

definition max_fee_body :: string where
  "max_fee_body =
     Marshal (JObj [(''jsonrpc'', JStr ''2.0''), (''method'', JStr ''eth_maxPriorityFeePerGas''),
                    (''id'', JInt 2)])"

fun fee_loop ::
  "env \<Rightarrow> NodeWithPing list \<Rightarrow> feeHistory \<Rightarrow> string \<Rightarrow> throttle_state \<Rightarrow> world
     \<Rightarrow> (panic + string option) \<times> throttle_state \<times> world" where
  "fee_loop E [] fh mp t w = (Inr None, t, w)"
| "fee_loop E (n # ns) fh mp t w =
     (case send E (eth_fee_request fee_history_body n) w of
        Inl p \<Rightarrow> (Inl p, t, w)
      | Inr (Failed e, w1) \<Rightarrow> fee_loop E ns fh mp t w1
      | Inr (Got r1, w1) \<Rightarrow>
          if isRateLimited r1 then fee_loop E ns fh mp (Mark429 (URL n) (clock w1) t) w1
          else if \<not> is_2xx (rs_status r1) then fee_loop E ns fh mp t w1
          else (case unmarshal_fh (rs_body r1) fh of
            (fh', ok1) \<Rightarrow>
              if \<not> ok1 then fee_loop E ns fh' mp t w1
              else (case send E (eth_fee_request max_fee_body n) w1 of
                Inl p \<Rightarrow> (Inl p, t, w1)
              | Inr (Failed e, w2) \<Rightarrow> fee_loop E ns fh' mp t w2
              | Inr (Got r2, w2) \<Rightarrow>
                  if isRateLimited r2 then fee_loop E ns fh' mp (Mark429 (URL n) (clock w2) t) w2
                  else if \<not> is_2xx (rs_status r2) then fee_loop E ns fh' mp t w2
                  else (case unmarshal_mp (rs_body r2) mp of
                    (mp', ok2) \<Rightarrow>
                      if \<not> ok2 then fee_loop E ns fh' mp' t w2
                      else (Inr (Some (Marshal (JMap
                              [(''baseFee'', JStr (first (fh_BaseFeePerGas fh'))),
                               (''maxPriorityFee'', JStr mp')]))),
                            Reset (URL n) t, w2)))))"

definition EthFee :: "env \<Rightarrow> registry \<Rightarrow> incoming \<Rightarrow> throttle_state \<Rightarrow> world \<Rightarrow> handled" where
  "EthFee E r rq t w =
     (if in_method rq \<noteq> ''GET'' then (Inr (bare 405), t, w)
      else let nodes = reg_Best r ''ethereum''
      in case (if nodes = [] then (Inr None, t, w)
               else fee_loop E (attempt_order t (clock w) nodes) \<lparr>fh_cells = [], fh_len = 0\<rparr> [] t w) of
           (Inl p, t', w') \<Rightarrow> (Inl p, t', w')
         | (Inr (Some b), t', w') \<Rightarrow> (Inr (json_reply 200 b), t', w')
         | (Inr None, t', w') \<Rightarrow> (Inr (http_error ''fee calc failed'' 502), t', w'))"

section \<open>The page of tokens\<close>

lemma unat_minUint: "unat (minUint a b) = min (unat a) (unat b)"
  by (simp add: minUint_def min_def word_less_nat_alt)

lemma page_size_le:
  assumes "offset \<le> tot"
  shows "unat (page_size tot offset limit) = min (unat limit) (unat tot - unat offset)"
  unfolding page_size_def unat_minUint unat_sub [OF assms] ..

text \<open>An offset beyond the balance wraps around: the page is as long as the limit lets it be.\<close>

lemma page_size_wrap:
  assumes "tot < offset"
  shows "unat (page_size tot offset limit) = min (unat limit) (2 ^ 64 - (unat offset - unat tot))"
proof -
  have "unat (tot - offset) = unat tot + 2 ^ 64 - unat offset"
    using assms unat_sub_if' [of tot offset] by (auto simp: word_less_nat_alt)
  also have "\<dots> = 2 ^ 64 - (unat offset - unat tot)"
    using assms by (simp add: word_less_nat_alt)
  finally show ?thesis by (simp only: page_size_def unat_minUint)
qed

text \<open>One run of the forwarding loop sends at most one request per node.\<close>

lemma first_2xx_length:
  assumes "first_2xx E mk nodes t w = (res, t', w')"
  shows "length (sent w') \<le> length (sent w) + length nodes"
proof -
  from assms obtain tried where t: "prefix tried (attempt_order t (clock w) nodes)"
    "sent w' = sent w @ map mk tried"
    unfolding first_2xx_def using forward_loop_calls by blast
  have "length (ready t (clock w) nodes) \<le> length nodes"
    unfolding ready_def by (rule length_filter_le)
  with prefix_length_le [OF t(1)] have "length tried \<le> length nodes"
    by (simp add: attempt_order_sort)
  with t show ?thesis by simp
qed

lemma callFirst2xx_calls:
  "callFirst2xx E nodes raw t w = (res, t', w') \<Longrightarrow>
     length (sent w') \<le> length (sent w) + length nodes"
  using first_2xx_length [of E "rpc_request raw" nodes t w]
  by (auto simp: callFirst2xx_def split: prod.splits sum.splits option.splits)

lemma forwardFirst2xx_calls:
  "forwardFirst2xx E nodes raw t w = (res, t', w') \<Longrightarrow>
     length (sent w') \<le> length (sent w) + length nodes"
  using first_2xx_length [of E "rpc_request raw" nodes t w]
  by (auto simp: forwardFirst2xx_def split: prod.splits sum.splits)

lemma token_loop_bounds:
  "token_loop E nodes owner contract k idx items t w = (res, t', w') \<Longrightarrow>
     length (sent w') \<le> length (sent w) + k * length nodes
     \<and> (\<forall>out. res = Inr out \<longrightarrow> prefix items out \<and> length out \<le> length items + k)"
proof (induction k arbitrary: idx items t w)
  case (Suc k)
  show ?case
  proof (cases "BuildTokenOfOwnerByIndexData owner idx")
    case (Inl p)
    with Suc.prems show ?thesis by auto
  next
    case (Inr data)
    obtain r u v where c: "callFirst2xx E nodes
        (mustJSONRPC ''eth_call'' (eth_call_params contract data)) t w = (r, u, v)"
      by (metis prod_cases3)
    note n = callFirst2xx_calls [OF c]
    show ?thesis
    proof (cases r)
      case (Inl p)
      with Inr c n Suc.prems show ?thesis by auto
    next
      case r: (Inr resp)
      let ?items = "if resp = [] \<or> extractResultHexString resp = [] then items
                    else items @ [extractResultHexString resp]"
      have "token_loop E nodes owner contract k (idx + 1) ?items u v = (res, t', w')"
        using Suc.prems Inr c r by (simp add: Let_def)
      from Suc.IH [OF this] n show ?thesis
        by (fastforce split: if_splits dest: append_prefixD)
    qed
  qed
next
  case 0
  then have "res = Inr items" by simp
  with 0 show ?case by simp
qed

lemma token_page_bounds:
  assumes "token_page E nodes owner contract tot limit offset t w = (res, t', w')"
  shows "length (sent w') \<le> length (sent w) + unat (page_size tot offset limit) * length nodes"
  using assms token_loop_bounds
  by (fastforce simp: token_page_def Let_def split: if_splits)

section \<open>Properties\<close>

text \<open>
  (C28) The work one request for the NFTs of an owner can cause: at most two calls and one per token
  of the limit, each tried at most once on every node.
\<close>
theorem nfts_request_bound:
  assumes "nfts_of E nodes owner contract limit offset t w = (res, t', w')"
  shows "length (sent w') \<le> length (sent w) + (2 + unat limit) * length nodes"
proof -
  have page: "length (sent v') \<le> length (sent v) + unat limit * length nodes"
    if "token_page E nodes owner contract tot limit offset u v = (x, u', v')" for tot u v x u' v'
  proof -
    have "unat (page_size tot offset limit) * length nodes \<le> unat limit * length nodes"
      by (simp add: page_size_def unat_minUint)
    with token_page_bounds [OF that] show ?thesis by linarith
  qed
  have e: "(2 + unat limit) * length nodes = length nodes + length nodes + unat limit * length nodes"
    by (simp add: algebra_simps)
  from assms show ?thesis
    unfolding e nfts_of_def
    by (auto simp: Let_def split: sum.splits prod.splits if_splits
        dest!: forwardFirst2xx_calls callFirst2xx_calls page)
qed

text \<open>
  How many tokens a page asks for. The code subtracts the offset from the balance without
  comparing them, so an offset beyond the balance does not give an empty page but one as long as
  the limit allows.
\<close>
theorem page_size_spec:
  "unat (page_size tot offset limit) =
     (if offset \<le> tot then min (unat limit) (unat tot - unat offset)
      else min (unat limit) (2 ^ 64 - (unat offset - unat tot)))"
  using page_size_le [of offset tot limit] page_size_wrap [of tot offset limit] by auto

text \<open>
  So a client can make the handler panic: for every contract on which the owner has no token, an
  offset of 1 and a limit above 2^44 exceed what \<open>make\<close> can allocate.
\<close>
theorem page_allocation_panics:
  assumes "2 ^ 44 < unat limit"
  shows "token_page E nodes owner contract 0 limit 1 t w = (Inl MakeSliceCap, t, w)"
proof -
  have "2 ^ 44 < unat (page_size 0 1 limit)"
    using assms by (simp add: page_size_wrap)
  then show ?thesis by (simp add: token_page_def Let_def)
qed

text \<open>
  The listing of the active nodes does not depend on the order in which the loop meets the
  networks of the map, neither the text nor what it leaves of the redaction state.
\<close>
theorem ActiveNodes_order:
  assumes "is_order ks r" "is_order ks' r"
  shows "ActiveNodes environ ks r rq st = ActiveNodes environ ks' r rq st"
proof -
  define f where "f = (\<lambda>name. map_option (\<lambda>s.
      if in_method rq = ''POST'' then (name, JArr (map (lite_node environ st) (st_Best s)))
      else (name, if st_Best s = [] then JNull else JArr (map (full_node environ st) (st_Best s))))
      (reg_All r name))"
  have fst_f: "f k = Some v \<Longrightarrow> fst v = k" for k v by (auto simp: f_def split: if_splits)
  have dom: "dom f = dom r" by (auto simp: f_def reg_All_def dom_def)
  have keys: "map fst (visit l f) = l" if "set l \<subseteq> dom f" for l
    using that
  proof (induction l)
    case (Cons k l)
    then obtain v where "f k = Some v" by auto
    with Cons fst_f show ?case by simp
  qed simp
  have o: "is_order ks f" "is_order ks' f"
    using assms dom by (simp_all add: is_order_def)
  have "sort_key fst (visit ks f) = sort_key fst (visit ks' f)"
  proof (rule map_sorted_distinct_set_unique [where f = fst])
    show "inj_on fst (set (sort_key fst (visit ks f)) \<union> set (sort_key fst (visit ks' f)))"
    proof (rule inj_onI)
      have "f (fst x) = Some x" if "x \<in> set (visit ks f) \<union> set (visit ks' f)" for x
      proof -
        from that obtain k where "f k = Some x" by (auto simp: set_visit)
        with fst_f [OF this] show ?thesis by simp
      qed
      then show "x = y" if "x \<in> set (sort_key fst (visit ks f)) \<union> set (sort_key fst (visit ks' f))"
        "y \<in> set (sort_key fst (visit ks f)) \<union> set (sort_key fst (visit ks' f))" "fst x = fst y" for x y
        using that by (metis option.inject set_sort)
    qed
    show "set (sort_key fst (visit ks f)) = set (sort_key fst (visit ks' f))"
      using o by (simp add: set_visit_ran)
    show "distinct (map fst (sort_key fst (visit ks f)))" "distinct (map fst (sort_key fst (visit ks' f)))"
    proof -
      have "distinct (map fst (visit ks f))" "distinct (map fst (visit ks' f))"
        using o by (simp_all add: is_order_def keys)
      then show "distinct (map fst (sort_key fst (visit ks f)))" "distinct (map fst (sort_key fst (visit ks' f)))"
        by (simp_all only: distinct_map distinct_sort set_sort)
    qed
  qed simp_all
  moreover have "set (visit ks (reg_All r)) = set (visit ks' (reg_All r))"
    using assms by (simp add: set_visit_ran reg_All_def)
  ultimately show ?thesis
    by (simp only: ActiveNodes_def Let_def JMap_def flip: f_def)
qed

subsection \<open>Instances\<close>

theorem nfts_request_bound_witness:
  "length (sent (snd (snd (nfts_of limiting two_nodes ''0xa'' ''0xb'' 1 0 NewThrottler new_world)))) \<le> 6"
  using nfts_request_bound [of limiting two_nodes "''0xa''" "''0xb''" 1 0 NewThrottler new_world]
  by (cases "nfts_of limiting two_nodes ''0xa'' ''0xb'' 1 0 NewThrottler new_world") (simp add: two_nodes_def)

theorem page_allocation_panics_witness:
  "token_page limiting two_nodes ''0xa'' ''0xb'' 0 (2 ^ 45) 1 NewThrottler new_world
     = (Inl MakeSliceCap, NewThrottler, new_world)"
  by (rule page_allocation_panics) simp

definition list_request :: incoming where
  "list_request =
     \<lparr>in_method = ''POST'', in_escaped = ''/active-nodes'', in_path = ''/active-nodes'', in_query = [], in_param = (\<lambda>_. []), in_hdr = hempty,
      in_body = []\<rparr>"

theorem ActiveNodes_order_witness:
  "ActiveNodes [] [''a'', ''b''] [''a'' \<mapsto> sample_network, ''b'' \<mapsto> sample_network] list_request ResetSensitiveEnvs
     = ActiveNodes [] [''b'', ''a''] [''a'' \<mapsto> sample_network, ''b'' \<mapsto> sample_network] list_request ResetSensitiveEnvs"
  by (rule ActiveNodes_order) (auto simp: is_order_def)

end
