(* ===== verification/Oracle.thy ===== *)
theory Oracle
  imports Registry Http
begin

text \<open>
  pkg/oracle: fee recommendations for five EVM networks from the answers of one node. The five Go
  types have the same fields and are one record with a \<open>kind\<close>; each has its constructor and its
  methods, which share the bodies the Go files repeat, and differ in constants, in the BSC fallback
  and in the L1 hints of the two rollups. \<open>oracleAdapter\<close> of gas.go chooses among them. Fees are \<open>int64\<close> values in gwei: every sum of the code is \<open>i64\<close> of the
  sum. A Go error is only ever tested, so a fallible routine returns an option.
\<close>

section \<open>Calls that may panic or fail\<close>

type_synonym 'a call = "(panic + 'a option) \<times> world"

fun bind_call :: "'a call \<Rightarrow> ('a option \<Rightarrow> world \<Rightarrow> 'b call) \<Rightarrow> 'b call" where
  "bind_call (Inl p, w) f = (Inl p, w)"
| "bind_call (Inr x, w) f = f x w"

lemma bind_call_Inr:
  assumes "bind_call m f = (Inr y, w')"
  obtains x w where "m = (Inr x, w)" "f x w = (Inr y, w')"
proof (cases m)
  case (Pair a b)
  with assms that show thesis by (cases a) auto
qed

section \<open>Numbers\<close>

definition hex_num :: "string \<Rightarrow> int" where
  "hex_num h = SetString (TrimPrefix (ToLower h) ''0x'') 16"

text \<open>\<open>big.Int.Div\<close> is Euclidean division, which is \<open>div\<close> for a positive divisor.\<close>

definition hexWeiToGwei :: "string \<Rightarrow> int" where
  "hexWeiToGwei h = (if h = [] then 0 else big_Int64 (hex_num h div 1000000000))"

definition hexToInt64 :: "string \<Rightarrow> int" where
  "hexToInt64 h =
     (if h = [] then 0
      else let n = hex_num h
      in if in_i64 n then big_Int64 n else big_Int64 (uint (big_Uint64 n)))"

section \<open>EVMClient\<close>

record EIP1559 =
  BaseFeeGwei :: int
  PriorityFeeGwei :: int
  BlockNumber :: int

definition NewEVMClient :: "int \<Rightarrow> int" where
  "NewEVMClient timeout = (if timeout \<le> 0 then sec 2 else timeout)"

definition rpc_payload :: "int \<Rightarrow> string \<Rightarrow> json list \<Rightarrow> string" where
  "rpc_payload i rpc_method params =
     Marshal (JMap [(''jsonrpc'', JStr ''2.0''), (''id'', JInt i), (''method'', JStr rpc_method),
                    (''params'', JArr params)])"

definition oracle_request :: "int \<Rightarrow> NodeWithPing \<Rightarrow> string \<Rightarrow> request" where
  "oracle_request timeout n payload =
     \<lparr>rq_method = ''POST'', rq_url = URL n,
      rq_hdr = hset (hset_all hempty (pairs (Headers n))) ''content-type'' ''application/json'',
      rq_body = payload, rq_timeout = timeout, rq_tor = None\<rparr>"

text \<open>One call: an error, a status other than 2xx or a body that does not decode is a failure.\<close>

definition oracle_rpc ::
  "env \<Rightarrow> int \<Rightarrow> NodeWithPing \<Rightarrow> string \<Rightarrow> (json \<Rightarrow> 'a option) \<Rightarrow> world \<Rightarrow> 'a call" where
  "oracle_rpc E timeout n payload d w =
     (case send E (oracle_request timeout n payload) w of
        Inl p \<Rightarrow> (Inl p, w)
      | Inr (Failed e, w') \<Rightarrow> (Inr None, w')
      | Inr (Got rs, w') \<Rightarrow>
          if \<not> is_2xx (rs_status rs) then (Inr None, w')
          else (Inr (case Decode (rs_body rs) of None \<Rightarrow> None | Some v \<Rightarrow> d v), w'))"

definition d_result :: "json \<Rightarrow> string option" where
  "d_result v = d_object (field ''result'' d_string) v []"

definition d_history :: "json \<Rightarrow> string list option" where
  "d_history v =
     d_object (field ''result'' (d_object (field ''baseFeePerGas'' (d_list d_string [])))) v []"

definition baseFeeFromHistory :: "env \<Rightarrow> int \<Rightarrow> NodeWithPing \<Rightarrow> world \<Rightarrow> int call" where
  "baseFeeFromHistory E timeout n w =
     bind_call
       (oracle_rpc E timeout n
          (rpc_payload 1 ''eth_feeHistory'' [JStr ''0x10'', JStr ''latest'', JArr []]) d_history w)
       (\<lambda>out w'. case out of
          None \<Rightarrow> (Inr None, w')
        | Some fees \<Rightarrow> (Inr (if fees = [] then None else Some (hexWeiToGwei (last fees))), w'))"

definition priorityFee :: "env \<Rightarrow> int \<Rightarrow> NodeWithPing \<Rightarrow> world \<Rightarrow> int call" where
  "priorityFee E timeout n w =
     bind_call (oracle_rpc E timeout n (rpc_payload 2 ''eth_maxPriorityFeePerGas'' []) d_result w)
       (\<lambda>out w'. case out of
          None \<Rightarrow> (Inr None, w')
        | Some result \<Rightarrow> (Inr (if result = [] then None else Some (hexWeiToGwei result)), w'))"

definition blockNumber :: "env \<Rightarrow> int \<Rightarrow> NodeWithPing \<Rightarrow> world \<Rightarrow> int call" where
  "blockNumber E timeout n w =
     bind_call (oracle_rpc E timeout n (rpc_payload 3 ''eth_blockNumber'' []) d_result w)
       (\<lambda>out w'. (Inr (map_option hexToInt64 out), w'))"

definition evm_Compute :: "env \<Rightarrow> int \<Rightarrow> NodeWithPing \<Rightarrow> world \<Rightarrow> EIP1559 call" where
  "evm_Compute E timeout n w =
     bind_call (baseFeeFromHistory E timeout n w)
       (\<lambda>b w1. case b of None \<Rightarrow> (Inr None, w1)
        | Some baseFeeGwei \<Rightarrow>
     bind_call (priorityFee E timeout n w1)
       (\<lambda>p w2. case p of None \<Rightarrow> (Inr None, w2)
        | Some prioGwei \<Rightarrow>
     bind_call (blockNumber E timeout n w2)
       (\<lambda>blk w3.
          (Inr (Some \<lparr>BaseFeeGwei = baseFeeGwei, PriorityFeeGwei = prioGwei,
                      BlockNumber = (case blk of None \<Rightarrow> 0 | Some i \<Rightarrow> i)\<rparr>), w3))))"

section \<open>Oracles\<close>

datatype oracle_kind = Eth | Polygon | Bsc | Arbitrum | Optimism

record gas_oracle =
  ora_kind :: oracle_kind
  MinPrioGwei :: int
  ora_URL :: string
  TTL :: int

text \<open>The body the five constructors share: the configured values, or the defaults they pass.\<close>

definition configured_oracle :: "oracle_kind \<Rightarrow> int \<Rightarrow> int \<Rightarrow> NetworkState option \<Rightarrow> gas_oracle" where
  "configured_oracle k mn ttl cfg =
     (case (case cfg of None \<Rightarrow> None | Some st \<Rightarrow> st_Gas st) of
        None \<Rightarrow> \<lparr>ora_kind = k, MinPrioGwei = mn, ora_URL = [], TTL = ttl\<rparr>
      | Some g \<Rightarrow>
          \<lparr>ora_kind = k,
           MinPrioGwei = (if 0 < MinPriorityGwei g then MinPriorityGwei g else mn),
           ora_URL = (if ExternalURL g \<noteq> [] then ExternalURL g else []),
           TTL = (if 0 < TTLSeconds g then i64 (sec (TTLSeconds g)) else ttl)\<rparr>)"

definition NewEthGasOracle :: "NetworkState option \<Rightarrow> gas_oracle" where
  "NewEthGasOracle cfg = configured_oracle Eth 2 (sec 10) cfg"

definition NewPolygonGasOracle :: "NetworkState option \<Rightarrow> gas_oracle" where
  "NewPolygonGasOracle gasCfg = configured_oracle Polygon 30 (sec 15) gasCfg"

definition NewBscGasOracle :: "NetworkState option \<Rightarrow> gas_oracle" where
  "NewBscGasOracle cfg = configured_oracle Bsc 1 (sec 10) cfg"

definition NewArbitrumGasOracle :: "NetworkState option \<Rightarrow> gas_oracle" where
  "NewArbitrumGasOracle cfg = configured_oracle Arbitrum 1 (sec 10) cfg"

definition NewOptimismGasOracle :: "NetworkState option \<Rightarrow> gas_oracle" where
  "NewOptimismGasOracle cfg = configured_oracle Optimism 1 (sec 10) cfg"

definition New_oracle :: "oracle_kind \<Rightarrow> NetworkState option \<Rightarrow> gas_oracle" where
  "New_oracle k =
     (case k of Eth \<Rightarrow> NewEthGasOracle | Polygon \<Rightarrow> NewPolygonGasOracle | Bsc \<Rightarrow> NewBscGasOracle
      | Arbitrum \<Rightarrow> NewArbitrumGasOracle | Optimism \<Rightarrow> NewOptimismGasOracle)"

lemmas New_oracle_defs = New_oracle_def NewEthGasOracle_def NewPolygonGasOracle_def
  NewBscGasOracle_def NewArbitrumGasOracle_def NewOptimismGasOracle_def configured_oracle_def

definition TTLDuration :: "gas_oracle \<Rightarrow> int" where
  "TTLDuration orc = TTL orc"

definition official_request :: "gas_oracle \<Rightarrow> request" where
  "official_request orc =
     \<lparr>rq_method = ''GET'', rq_url = ora_URL orc, rq_hdr = hempty, rq_body = [], rq_timeout = 0,
      rq_tor = None\<rparr>"

definition official_answer :: "gas_oracle \<Rightarrow> env \<Rightarrow> world \<Rightarrow> (string \<times> int) call" where
  "official_answer orc E w =
     (if ora_URL orc = [] then (Inr None, w)
      else case send E (official_request orc) w of
             Inl p \<Rightarrow> (Inl p, w)
           | Inr (Failed e, w') \<Rightarrow> (Inr None, w')
           | Inr (Got rs, w') \<Rightarrow> (Inr (Some (rs_body rs, rs_status rs)), w'))"

definition eth_FetchFromOfficial :: "gas_oracle \<Rightarrow> env \<Rightarrow> world \<Rightarrow> (string \<times> int) call" where
  "eth_FetchFromOfficial orc E w = official_answer orc E w"

definition polygon_FetchFromOfficial :: "gas_oracle \<Rightarrow> env \<Rightarrow> world \<Rightarrow> (string \<times> int) call" where
  "polygon_FetchFromOfficial orc E w = official_answer orc E w"

definition bsc_FetchFromOfficial :: "gas_oracle \<Rightarrow> env \<Rightarrow> world \<Rightarrow> (string \<times> int) call" where
  "bsc_FetchFromOfficial orc E w = official_answer orc E w"

definition arb_FetchFromOfficial :: "gas_oracle \<Rightarrow> env \<Rightarrow> world \<Rightarrow> (string \<times> int) call" where
  "arb_FetchFromOfficial orc E w = official_answer orc E w"

definition op_FetchFromOfficial :: "gas_oracle \<Rightarrow> env \<Rightarrow> world \<Rightarrow> (string \<times> int) call" where
  "op_FetchFromOfficial orc E w = official_answer orc E w"

definition FetchFromOfficial :: "gas_oracle \<Rightarrow> env \<Rightarrow> world \<Rightarrow> (string \<times> int) call" where
  "FetchFromOfficial orc =
     (case ora_kind orc of Eth \<Rightarrow> eth_FetchFromOfficial orc | Polygon \<Rightarrow> polygon_FetchFromOfficial orc
      | Bsc \<Rightarrow> bsc_FetchFromOfficial orc | Arbitrum \<Rightarrow> arb_FetchFromOfficial orc
      | Optimism \<Rightarrow> op_FetchFromOfficial orc)"

lemma FetchFromOfficial_eq: "FetchFromOfficial orc E w = official_answer orc E w"
  by (cases "ora_kind orc")
    (simp_all add: FetchFromOfficial_def eth_FetchFromOfficial_def polygon_FetchFromOfficial_def
      bsc_FetchFromOfficial_def arb_FetchFromOfficial_def op_FetchFromOfficial_def)

section \<open>Tiers\<close>

record Tier =
  MaxPriorityFee :: int
  MaxFee :: int
  GasPrice :: int

datatype speed = Slow | Standard | Fast

definition delta :: "oracle_kind \<Rightarrow> speed \<Rightarrow> int" where
  "delta k s =
     (case s of
        Slow \<Rightarrow> 0
      | Standard \<Rightarrow> (case k of Eth \<Rightarrow> 5 | Polygon \<Rightarrow> 5 | _ \<Rightarrow> 2)
      | Fast \<Rightarrow> (case k of Eth \<Rightarrow> 10 | Polygon \<Rightarrow> 10 | _ \<Rightarrow> 5))"

text \<open>The closure \<open>build\<close> of \<open>ComputeFromRPC\<close>, and the clamp before it.\<close>

definition clamp_prio :: "int \<Rightarrow> int \<Rightarrow> int" where
  "clamp_prio mn prio = (if prio < mn then mn else prio)"

definition build_tier :: "int \<Rightarrow> int \<Rightarrow> int \<Rightarrow> int \<Rightarrow> Tier" where
  "build_tier mn base_fee prio d =
     (let p = i64 (prio + d); p = (if p < mn then mn else p); m = i64 (base_fee + p)
      in \<lparr>MaxPriorityFee = p, MaxFee = m, GasPrice = m\<rparr>)"

text \<open>The result types; \<open>gr_Hints\<close> are the fields of the rollups with \<open>omitempty\<close>.\<close>

record gas_report =
  gr_Fast :: Tier
  gr_Standard :: Tier
  gr_Slow :: Tier
  gr_EstimatedBaseFee :: int
  gr_BlockNumber :: int
  gr_Hints :: "(string \<times> string) list"

definition tier_json :: "Tier \<Rightarrow> json" where
  "tier_json t =
     JObj [(''maxPriorityFee'', JInt (MaxPriorityFee t)), (''maxFee'', JInt (MaxFee t)),
           (''gasPrice'', JInt (GasPrice t))]"

definition report_json :: "gas_report \<Rightarrow> json" where
  "report_json g =
     JObj ([(''fast'', tier_json (gr_Fast g)), (''standard'', tier_json (gr_Standard g)),
            (''slow'', tier_json (gr_Slow g)), (''estimatedBaseFee'', JInt (gr_EstimatedBaseFee g)),
            (''blockNumber'', JInt (gr_BlockNumber g))]
           @ map (\<lambda>(k, v). (k, JStr v)) (filter (\<lambda>(k, v). v \<noteq> []) (gr_Hints g)))"

definition mk_report :: "oracle_kind \<Rightarrow> gas_oracle \<Rightarrow> int \<Rightarrow> int \<Rightarrow> int \<Rightarrow> (string \<times> string) list \<Rightarrow> gas_report" where
  "mk_report k orc base_fee prio block hints =
     (let p = clamp_prio (MinPrioGwei orc) prio;
          b = (\<lambda>s. build_tier (MinPrioGwei orc) base_fee p (delta k s))
      in \<lparr>gr_Fast = b Fast, gr_Standard = b Standard, gr_Slow = b Slow,
          gr_EstimatedBaseFee = base_fee, gr_BlockNumber = block, gr_Hints = hints\<rparr>)"

section \<open>ComputeFromRPC\<close>

definition d_arb :: "json \<Rightarrow> (string \<times> string) list option" where
  "d_arb v =
     map_option (\<lambda>(a, b, c, d). [(''l1BaseFeeWei'', a), (''l1PricingInertia'', b),
                                 (''l1PricePerByteWei'', c), (''l1PriceForCalldataWei'', d)])
       (d_object (field ''result'' (d_object (\<lambda>kvs (a, b, c, d).
            case (field ''l1BaseFeeWei'' d_string kvs a, field ''l1PricingInertia'' d_string kvs b,
                  field ''l1PricePerByteWei'' d_string kvs c,
                  field ''l1PriceForCalldataWei'' d_string kvs d) of
              (Some a', Some b', Some c', Some d') \<Rightarrow> Some (a', b', c', d')
            | _ \<Rightarrow> None))) v ([], [], [], []))"

definition tryArbGasInfo :: "env \<Rightarrow> NodeWithPing \<Rightarrow> world \<Rightarrow> (string \<times> string) list call" where
  "tryArbGasInfo E n w = oracle_rpc E 0 n (rpc_payload 1001 ''arb_gasInfo'' []) d_arb w"

definition d_rollup :: "json \<Rightarrow> (string \<times> string) list option" where
  "d_rollup v =
     (case d_object (field ''result'' (d_object (\<lambda>kvs (a, b).
             case (field ''l1BaseFee'' d_string kvs a, field ''l2BaseFee'' d_string kvs b) of
               (Some a', Some b') \<Rightarrow> Some (a', b') | _ \<Rightarrow> None))) v ([], []) of
        None \<Rightarrow> None
      | Some (a, b) \<Rightarrow> if a = [] \<and> b = [] then None else Some [(''l1BaseFeeWei'', a), (''l2BaseFeeWei'', b)])"

definition tryOptimismRollupGasPrices ::
  "env \<Rightarrow> NodeWithPing \<Rightarrow> world \<Rightarrow> (string \<times> string) list call" where
  "tryOptimismRollupGasPrices E n w =
     oracle_rpc E 0 n (rpc_payload 1002 ''rollup_gasPrices'' []) d_rollup w"

definition bsc_call :: "env \<Rightarrow> NodeWithPing \<Rightarrow> int \<Rightarrow> string \<Rightarrow> (string \<Rightarrow> int) \<Rightarrow> world \<Rightarrow> int call" where
  "bsc_call E n i rpc_method conv w =
     bind_call (oracle_rpc E 0 n (rpc_payload i rpc_method []) d_result w)
       (\<lambda>out w'. (Inr (map_option conv out), w'))"

text \<open>The fallback of BSC: the gas price, less the priority fee, is the base fee.\<close>

definition bsc_fallback :: "gas_oracle \<Rightarrow> env \<Rightarrow> NodeWithPing \<Rightarrow> world \<Rightarrow> (int \<times> int \<times> int) call" where
  "bsc_fallback orc E n w =
     bind_call (bsc_call E n 11 ''eth_gasPrice'' hexWeiToGwei w)
       (\<lambda>gp w1.
     bind_call (bsc_call E n 13 ''eth_blockNumber'' hexToInt64 w1)
       (\<lambda>blk w2.
     bind_call (bsc_call E n 12 ''eth_maxPriorityFeePerGas'' hexWeiToGwei w2)
       (\<lambda>pr w3.
          let gp = (case gp of None \<Rightarrow> 0 | Some x \<Rightarrow> x);
              block = (case blk of None \<Rightarrow> 0 | Some x \<Rightarrow> x);
              pr = (case pr of None \<Rightarrow> MinPrioGwei orc
                    | Some x \<Rightarrow> if x \<le> 0 then MinPrioGwei orc else x);
              pr = (if pr < MinPrioGwei orc then MinPrioGwei orc else pr);
              base_fee = i64 (gp - pr);
              base_fee = (if base_fee < 0 then 0 else base_fee)
          in (Inr (Some (base_fee, pr, block)), w3))))"

definition bsc_ComputeFromRPC :: "gas_oracle \<Rightarrow> env \<Rightarrow> NodeWithPing \<Rightarrow> world \<Rightarrow> gas_report call" where
  "bsc_ComputeFromRPC orc E n w =
     bind_call (evm_Compute E (NewEVMClient (sec 2)) n w)
       (\<lambda>evm w1.
          bind_call
            (case evm of
               Some v \<Rightarrow>
                 if 0 < BaseFeeGwei v
                 then (Inr (Some (BaseFeeGwei v, PriorityFeeGwei v, BlockNumber v)), w1)
                 else bsc_fallback orc E n w1
             | None \<Rightarrow> bsc_fallback orc E n w1)
            (\<lambda>r w2. (Inr (map_option (\<lambda>(b, p, blk). mk_report Bsc orc b p blk []) r), w2)))"

text \<open>The other four: the report, with the hints a rollup adds; a failure of that call adds none.\<close>

definition no_hints :: "env \<Rightarrow> NodeWithPing \<Rightarrow> world \<Rightarrow> (string \<times> string) list call" where
  "no_hints E n w = (Inr None, w)"

definition evm_report ::
  "oracle_kind \<Rightarrow> (env \<Rightarrow> NodeWithPing \<Rightarrow> world \<Rightarrow> (string \<times> string) list call)
     \<Rightarrow> gas_oracle \<Rightarrow> env \<Rightarrow> NodeWithPing \<Rightarrow> world \<Rightarrow> gas_report call" where
  "evm_report k hints orc E n w =
     bind_call (evm_Compute E (NewEVMClient (sec 2)) n w)
       (\<lambda>evm w1. case evm of
          None \<Rightarrow> (Inr None, w1)
        | Some v \<Rightarrow>
            bind_call (hints E n w1)
              (\<lambda>h w2. (Inr (Some (mk_report k orc (BaseFeeGwei v) (PriorityFeeGwei v) (BlockNumber v)
                                   (case h of None \<Rightarrow> [] | Some kvs \<Rightarrow> kvs))), w2)))"

definition eth_ComputeFromRPC :: "gas_oracle \<Rightarrow> env \<Rightarrow> NodeWithPing \<Rightarrow> world \<Rightarrow> gas_report call" where
  "eth_ComputeFromRPC orc E n w = evm_report Eth no_hints orc E n w"

definition polygon_ComputeFromRPC :: "gas_oracle \<Rightarrow> env \<Rightarrow> NodeWithPing \<Rightarrow> world \<Rightarrow> gas_report call" where
  "polygon_ComputeFromRPC orc E n w = evm_report Polygon no_hints orc E n w"

definition arb_ComputeFromRPC :: "gas_oracle \<Rightarrow> env \<Rightarrow> NodeWithPing \<Rightarrow> world \<Rightarrow> gas_report call" where
  "arb_ComputeFromRPC orc E n w = evm_report Arbitrum tryArbGasInfo orc E n w"

definition op_ComputeFromRPC :: "gas_oracle \<Rightarrow> env \<Rightarrow> NodeWithPing \<Rightarrow> world \<Rightarrow> gas_report call" where
  "op_ComputeFromRPC orc E n w = evm_report Optimism tryOptimismRollupGasPrices orc E n w"

definition ComputeFromRPC :: "gas_oracle \<Rightarrow> env \<Rightarrow> NodeWithPing \<Rightarrow> world \<Rightarrow> gas_report call" where
  "ComputeFromRPC orc =
     (case ora_kind orc of Eth \<Rightarrow> eth_ComputeFromRPC orc | Polygon \<Rightarrow> polygon_ComputeFromRPC orc
      | Bsc \<Rightarrow> bsc_ComputeFromRPC orc | Arbitrum \<Rightarrow> arb_ComputeFromRPC orc
      | Optimism \<Rightarrow> op_ComputeFromRPC orc)"

text \<open>\<open>ComputeFromRPCBytes\<close>: the report as text.\<close>

definition ComputeFromRPCBytes :: "gas_oracle \<Rightarrow> env \<Rightarrow> NodeWithPing \<Rightarrow> world \<Rightarrow> string call" where
  "ComputeFromRPCBytes orc E n w =
     bind_call (ComputeFromRPC orc E n w) (\<lambda>r w'. (Inr (map_option (Marshal \<circ> report_json) r), w'))"

section \<open>The order of the tiers\<close>

fun speed_rank :: "speed \<Rightarrow> nat" where
  "speed_rank Slow = 0"
| "speed_rank Standard = 1"
| "speed_rank Fast = 2"

lemma speed_rank_inj: "speed_rank a = speed_rank b \<Longrightarrow> a = b"
  by (cases a; cases b) simp_all

instantiation speed :: linorder
begin

definition less_eq_speed :: "speed \<Rightarrow> speed \<Rightarrow> bool" where
  "less_eq_speed a b \<longleftrightarrow> speed_rank a \<le> speed_rank b"

definition less_speed :: "speed \<Rightarrow> speed \<Rightarrow> bool" where
  "less_speed a b \<longleftrightarrow> speed_rank a < speed_rank b"

instance
  by standard (auto simp: less_eq_speed_def less_speed_def intro: speed_rank_inj)

end

definition tier_of :: "gas_report \<Rightarrow> speed \<Rightarrow> Tier" where
  "tier_of g s = (case s of Fast \<Rightarrow> gr_Fast g | Standard \<Rightarrow> gr_Standard g | Slow \<Rightarrow> gr_Slow g)"

lemma delta_mono: "s \<le> s' \<Longrightarrow> delta k s \<le> delta k s'"
  by (cases s; cases s'; cases k) (simp_all add: delta_def less_eq_speed_def)

lemma delta_bounds: "0 \<le> delta k s" "delta k s \<le> 10"
  by (cases s; cases k; simp add: delta_def)+

lemma tier_of_report:
  "tier_of (mk_report k orc base_fee prio block hints) s =
     build_tier (MinPrioGwei orc) base_fee (clamp_prio (MinPrioGwei orc) prio) (delta k s)"
  by (cases s) (simp_all add: tier_of_def mk_report_def Let_def)

text \<open>The floor holds whatever the sums do; the sums are exact while they stay in range.\<close>

lemma build_tier_floor: "mn \<le> MaxPriorityFee (build_tier mn base_fee prio d)"
  by (simp add: build_tier_def Let_def)

lemma build_tier_fee: "MaxFee (build_tier mn b p d) = i64 (b + MaxPriorityFee (build_tier mn b p d))"
  "GasPrice (build_tier mn b p d) = MaxFee (build_tier mn b p d)"
  by (simp_all add: build_tier_def Let_def)

lemma build_tier_exact:
  assumes "0 \<le> base_fee" "0 \<le> d" "mn \<le> prio" "0 \<le> prio" "base_fee + prio + d < 2 ^ 63"
  shows "MaxPriorityFee (build_tier mn base_fee prio d) = prio + d"
    "MaxFee (build_tier mn base_fee prio d) = base_fee + prio + d"
proof -
  have "i64 (prio + d) = prio + d" "i64 (base_fee + (prio + d)) = base_fee + (prio + d)"
    using assms by (auto intro!: i64_id simp: in_i64_def)
  then show "MaxPriorityFee (build_tier mn base_fee prio d) = prio + d"
    "MaxFee (build_tier mn base_fee prio d) = base_fee + prio + d"
    using assms by (simp_all add: build_tier_def Let_def)
qed

section \<open>Where the calls go\<close>

definition only_to :: "string \<Rightarrow> world \<Rightarrow> world \<Rightarrow> bool" where
  "only_to u w w' \<longleftrightarrow>
     clock w \<le> clock w' \<and> (\<exists>rqs. sent w' = sent w @ rqs \<and> (\<forall>rq \<in> set rqs. rq_url rq = u))"

lemma only_to_refl [simp]: "only_to u w w"
  by (simp add: only_to_def)

lemma only_to_trans: "only_to u w v \<Longrightarrow> only_to u v w' \<Longrightarrow> only_to u w w'"
  by (auto simp: only_to_def)

lemma only_to_client_do: "rq_url rq = u \<Longrightarrow> only_to u w (snd (client_do E rq w))"
  by (simp add: only_to_def client_do_clock)

lemma only_to_bind:
  assumes "only_to u w (snd m)" "\<And>x v. m = (Inr x, v) \<Longrightarrow> only_to u v (snd (f x v))"
  shows "only_to u w (snd (bind_call m f))"
proof (cases m)
  case (Pair r v)
  with assms show ?thesis by (cases r) (auto intro: only_to_trans)
qed

lemma only_to_send:
  assumes "rq_url rq = u" "send E rq w = Inr (rp, v)"
  shows "only_to u w v"
  using assms only_to_client_do [of rq u w E] by (metis send_Inr snd_conv)

lemma only_to_rpc: "only_to (URL n) w (snd (oracle_rpc E timeout n payload d w))"
proof (cases "send E (oracle_request timeout n payload) w")
  case (Inr x)
  obtain rp v where x: "x = (rp, v)" by fastforce
  have "only_to (URL n) w v"
    using Inr by (intro only_to_send [of "oracle_request timeout n payload" _ E _ rp])
      (simp_all add: x oracle_request_def del: send_Inr)
  with Inr x show ?thesis by (simp add: oracle_rpc_def del: send_Inr split: reply.split)
qed (simp add: oracle_rpc_def)

lemma only_to_simple:
  "only_to (URL n) w (snd (baseFeeFromHistory E timeout n w))"
  "only_to (URL n) w (snd (priorityFee E timeout n w))"
  "only_to (URL n) w (snd (blockNumber E timeout n w))"
  "only_to (URL n) w (snd (bsc_call E n i m conv w))"
  "only_to (URL n) w (snd (no_hints E n w))"
  "only_to (URL n) w (snd (tryArbGasInfo E n w))"
  "only_to (URL n) w (snd (tryOptimismRollupGasPrices E n w))"
  by (auto simp: baseFeeFromHistory_def priorityFee_def blockNumber_def bsc_call_def no_hints_def
      tryArbGasInfo_def tryOptimismRollupGasPrices_def
      intro!: only_to_bind only_to_rpc split: option.split)

lemma only_to_Compute: "only_to (URL n) w (snd (evm_Compute E timeout n w))"
  unfolding evm_Compute_def
  by (intro only_to_bind only_to_simple) (auto intro!: only_to_bind only_to_simple split: option.split)

lemma only_to_fallback: "only_to (URL n) w (snd (bsc_fallback orc E n w))"
  unfolding bsc_fallback_def Let_def
  by (intro only_to_bind only_to_simple) simp

lemma only_to_evm_report:
  assumes "\<And>v. only_to (URL n) v (snd (hints E n v))"
  shows "only_to (URL n) w (snd (evm_report k hints orc E n w))"
  unfolding evm_report_def
  by (auto intro!: only_to_bind only_to_Compute assms split: option.split)

lemma only_to_bsc: "only_to (URL n) w (snd (bsc_ComputeFromRPC orc E n w))"
  unfolding bsc_ComputeFromRPC_def
  by (auto intro!: only_to_bind only_to_Compute only_to_fallback split: option.split)

lemma only_to_ComputeFromRPC: "only_to (URL n) w (snd (ComputeFromRPC orc E n w))"
  by (cases "ora_kind orc")
    (simp_all add: ComputeFromRPC_def eth_ComputeFromRPC_def polygon_ComputeFromRPC_def
      arb_ComputeFromRPC_def op_ComputeFromRPC_def only_to_bsc only_to_evm_report only_to_simple)

section \<open>The interface of a source of fees\<close>

text \<open>
  \<open>GasOracle\<close> of gas.go. \<open>first_report\<close> is the loop over the nodes in all its clients: the first node
  for which the computation succeeds. The laws: a computed report is not empty (the clients take an
  empty one for a failure), and the calls for a node go to that node.
\<close>

fun first_report :: "(NodeWithPing \<Rightarrow> world \<Rightarrow> string call) \<Rightarrow> NodeWithPing list \<Rightarrow> world \<Rightarrow> string call" where
  "first_report c [] w = (Inr None, w)"
| "first_report c (n # ns) w =
     bind_call (c n w)
       (\<lambda>b w'. case b of Some b \<Rightarrow> (Inr (Some b), w') | None \<Rightarrow> first_report c ns w')"

locale gas_source =
  fixes ttl :: "'o \<Rightarrow> int"
    and official :: "'o \<Rightarrow> env \<Rightarrow> world \<Rightarrow> (string \<times> int) call"
    and official_url :: "'o \<Rightarrow> string"
    and compute :: "'o \<Rightarrow> env \<Rightarrow> NodeWithPing \<Rightarrow> world \<Rightarrow> string call"
  assumes text_there: "compute orc E n w = (Inr (Some b), w') \<Longrightarrow> b \<noteq> []"
    and asks_node: "only_to (URL n) w (snd (compute orc E n w))"
    and asks_official: "only_to (official_url orc) w (snd (official orc E w))"
    and no_official: "official_url orc = [] \<Longrightarrow> official orc E w = (Inr None, w)"
begin

lemma first_report_text: "first_report (compute orc E) ns w = (Inr (Some b), w') \<Longrightarrow> b \<noteq> []"
  by (induction ns arbitrary: w)
    (use text_there in \<open>fastforce elim!: bind_call_Inr split: option.splits\<close>)+

lemma first_report_calls:
  "\<exists>rqs. sent (snd (first_report (compute orc E) ns w)) = sent w @ rqs \<and>
     rq_url ` set rqs \<subseteq> URL ` set ns"
proof (induction ns arbitrary: w)
  case (Cons n ns)
  obtain r v where c: "compute orc E n w = (r, v)" by fastforce
  from asks_node [of n w orc E] obtain rqs where q: "sent v = sent w @ rqs" "\<forall>rq \<in> set rqs. rq_url rq = URL n"
    by (auto simp: c only_to_def)
  from Cons.IH [of v] obtain rqs' where q': "sent (snd (first_report (compute orc E) ns v)) = sent v @ rqs'"
    "rq_url ` set rqs' \<subseteq> URL ` set ns" by blast
  show ?case
  proof (cases r)
    case (Inr x)
    show ?thesis
    proof (cases x)
      case None
      with c Inr q q' show ?thesis by (intro exI [of _ "rqs @ rqs'"]) auto
    next
      case (Some b)
      with c Inr q show ?thesis by (intro exI [of _ rqs]) auto
    qed
  next
    case (Inl p)
    with c q show ?thesis by (intro exI [of _ rqs]) auto
  qed
qed simp

lemma official_clock: "official orc E w = (r, w') \<Longrightarrow> clock w \<le> clock w'"
  using asks_official [of orc w E] by (simp add: only_to_def)

lemma first_report_clock: "first_report (compute orc E) ns w = (r, w') \<Longrightarrow> clock w \<le> clock w'"
proof (induction ns arbitrary: w)
  case (Cons n ns)
  obtain x v where c: "compute orc E n w = (x, v)" by fastforce
  with asks_node [of n w orc E] have "clock w \<le> clock v" by (simp add: only_to_def)
  with Cons c show ?case by (cases x) (fastforce split: option.splits)+
qed simp

end

interpretation fees: gas_source TTLDuration FetchFromOfficial ora_URL ComputeFromRPCBytes
proof
  fix orc E n w b w'
  assume "ComputeFromRPCBytes orc E n w = (Inr (Some b), w')"
  then show "b \<noteq> []"
    by (auto simp: ComputeFromRPCBytes_def report_json_def elim!: bind_call_Inr)
next
  fix n w orc E
  show "only_to (URL n) w (snd (ComputeFromRPCBytes orc E n w))"
    unfolding ComputeFromRPCBytes_def by (rule only_to_bind [OF only_to_ComputeFromRPC]) simp
next
  fix orc w E
  show "only_to (ora_URL orc) w (snd (FetchFromOfficial orc E w))"
  proof (cases "send E (official_request orc) w")
    case (Inr x)
    obtain rp v where x: "x = (rp, v)" by fastforce
    have "only_to (ora_URL orc) w v"
      using Inr by (intro only_to_send [of "official_request orc" _ E _ rp])
        (simp_all add: x official_request_def del: send_Inr)
    with Inr x show ?thesis by (simp add: FetchFromOfficial_eq official_answer_def del: send_Inr split: reply.split)
  qed (simp add: FetchFromOfficial_eq official_answer_def)
next
  fix orc E w
  show "ora_URL orc = [] \<Longrightarrow> FetchFromOfficial orc E w = (Inr None, w)"
    by (simp add: FetchFromOfficial_eq official_answer_def)
qed

section \<open>Properties\<close>

text \<open>
  (C25) The fee tiers, while the sums stay in the range of \<open>int64\<close>: each tier's priority fee is the
  node's, raised to the configured minimum, plus the tier's bonus; its maximum fee is the base fee
  plus that; so a faster tier never pays less.
\<close>
theorem tiers_exact:
  assumes "g = mk_report k orc base_fee prio block hints" "0 \<le> MinPrioGwei orc" "0 \<le> base_fee"
    "base_fee + max prio (MinPrioGwei orc) + 10 < 2 ^ 63"
  shows "MaxPriorityFee (tier_of g s) = max prio (MinPrioGwei orc) + delta k s
    \<and> MaxFee (tier_of g s) = base_fee + MaxPriorityFee (tier_of g s)
    \<and> GasPrice (tier_of g s) = MaxFee (tier_of g s)
    \<and> (s \<le> s' \<longrightarrow> MaxFee (tier_of g s) \<le> MaxFee (tier_of g s'))"
proof -
  have cl: "clamp_prio (MinPrioGwei orc) prio = max prio (MinPrioGwei orc)"
    by (simp add: clamp_prio_def)
  have e: "MaxPriorityFee (tier_of g s) = max prio (MinPrioGwei orc) + delta k s
      \<and> MaxFee (tier_of g s) = base_fee + max prio (MinPrioGwei orc) + delta k s
      \<and> GasPrice (tier_of g s) = MaxFee (tier_of g s)" for s
  proof -
    have "base_fee + max prio (MinPrioGwei orc) + delta k s < 2 ^ 63"
      using assms(4) delta_bounds(2) [of k s] by linarith
    from build_tier_exact [OF assms(3) delta_bounds(1) max.cobounded2 _ this] assms(1,2) show ?thesis
      by (simp add: tier_of_report cl build_tier_fee(2) le_max_iff_disj)
  qed
  from e [of s] e [of s'] show ?thesis using delta_mono [of s s' k] by simp
qed

text \<open>
  The configured minimum is kept in every tier, whatever the node answers and also where the
  sums overflow.
\<close>
theorem tiers_floor:
  "MinPrioGwei orc \<le> MaxPriorityFee (tier_of (mk_report k orc base_fee prio block hints) s)"
  by (simp only: tier_of_report build_tier_floor)

text \<open>
  Nothing bounds what a node may claim: with a priority fee close to 2^63 gwei the bonus of the
  fast tier wraps around, the minimum takes its place, and the fast tier of Ethereum pays less than
  the slow one.
\<close>
theorem tiers_wrap:
  assumes "g = mk_report Eth \<lparr>ora_kind = Eth, MinPrioGwei = 2, ora_URL = u, TTL = t\<rparr> 0 (2 ^ 63 - 1) block hints"
  shows "MaxPriorityFee (tier_of g Fast) = 2 \<and> MaxPriorityFee (tier_of g Slow) = 2 ^ 63 - 1"
  by (simp add: assms tier_of_report clamp_prio_def delta_def build_tier_def Let_def i64_def)

text \<open>
  The fee computation asks only the nodes it is given, and the report it returns is not empty.
\<close>
theorem first_report_asks:
  "\<exists>rqs. sent (snd (first_report (ComputeFromRPCBytes orc E) ns w)) = sent w @ rqs
     \<and> rq_url ` set rqs \<subseteq> URL ` set ns
     \<and> fst (first_report (ComputeFromRPCBytes orc E) ns w) \<noteq> Inr (Some [])"
proof -
  have "fst (first_report (ComputeFromRPCBytes orc E) ns w) \<noteq> Inr (Some [])"
    using fees.first_report_text [of orc E ns w "[]"]
    by (cases "first_report (ComputeFromRPCBytes orc E) ns w") auto
  with fees.first_report_calls [of orc E ns w] show ?thesis by blast
qed

subsection \<open>Instances\<close>

theorem tiers_exact_witness:
  "MaxFee (tier_of (mk_report Polygon (NewPolygonGasOracle None) 100 7 0 []) Standard) = 135"
  using tiers_exact [of _ Polygon "NewPolygonGasOracle None" 100 7 0 "[]" Standard Fast, OF refl]
  by (simp add: New_oracle_defs delta_def)

theorem tiers_wrap_witness:
  "MaxPriorityFee (tier_of (mk_report Eth \<lparr>ora_kind = Eth, MinPrioGwei = 2, ora_URL = [], TTL = 0\<rparr> 0
     (2 ^ 63 - 1) 0 []) Fast) = 2"
  using tiers_wrap [of _ "[]" 0 0 "[]", OF refl] by simp

end
