(* ===== verification/GasCache.thy ===== *)
theory GasCache
  imports Oracle
begin

text \<open>
  pkg/api/gas.go: the endpoint /{network}/gas. Five networks have a handler with a cache and an
  oracle made on first use; the others share a handler and a cache by name. A handler answers from
  the cache while it is fresh, then from the official source, then from the first node that lets
  the fees be computed. The cache is kept through a panic, as the mutexes are not held then.
\<close>

record gas_state =
  gs_oracle :: "oracle_kind \<Rightarrow> gas_oracle option"
  gs_cache :: "oracle_kind \<Rightarrow> (string \<times> int) option"
  gs_generic :: "string \<rightharpoonup> string \<times> int"

definition gas_init :: gas_state where
  "gas_init = \<lparr>gs_oracle = (\<lambda>_. None), gs_cache = (\<lambda>_. None), gs_generic = Map.empty\<rparr>"

text \<open>What a handler did: \<open>Inr None\<close> is \<open>false\<close>, nothing was written.\<close>

type_synonym gas_handled = "(panic + response option) \<times> gas_state \<times> world"

definition served :: "response \<Rightarrow> panic + response option" where
  "served rs = Inr (Some rs)"

definition fresh :: "(string \<times> int) option \<Rightarrow> int \<Rightarrow> string option" where
  "fresh ent now = (case ent of Some (b, exp) \<Rightarrow> if now < exp then Some b else None | None \<Rightarrow> None)"

text \<open>
  The part after the cache check, the same in all handlers: \<open>put\<close> stores a body with its expiry.
\<close>

definition refresh ::
  "env \<Rightarrow> gas_oracle \<Rightarrow> NodeWithPing list \<Rightarrow> string \<Rightarrow> (string \<times> int \<Rightarrow> gas_state \<Rightarrow> gas_state)
     \<Rightarrow> gas_state \<Rightarrow> world \<Rightarrow> gas_handled" where
  "refresh E orc nodes missing put_entry g w =
     (case FetchFromOfficial orc E w of
        (Inl p, w1) \<Rightarrow> (Inl p, g, w1)
      | (Inr o1, w1) \<Rightarrow>
     (case (case o1 of Some (b, code) \<Rightarrow> if is_2xx code then Some (b, code) else None | None \<Rightarrow> None) of
        Some (b, code) \<Rightarrow> (served (json_reply code b), put_entry (b, clock w1 + TTLDuration orc) g, w1)
      | None \<Rightarrow>
          if nodes = [] then (served (http_error missing 503), g, w1)
          else
     (case first_report (ComputeFromRPCBytes orc E) nodes w1 of
        (Inl p, w2) \<Rightarrow> (Inl p, g, w2)
      | (Inr out, w2) \<Rightarrow>
     (case out of
        Some b \<Rightarrow>
          if b = [] then (served (http_error ''gas calc failed'' 502), g, w2)
          else (served (json_reply 200 b), put_entry (b, clock w2 + TTLDuration orc) g, w2)
      | None \<Rightarrow> (served (http_error ''gas calc failed'' 502), g, w2)))))"

definition network_of :: "oracle_kind \<Rightarrow> string" where
  "network_of k =
     (case k of Polygon \<Rightarrow> ''polygon'' | Eth \<Rightarrow> ''ethereum'' | Bsc \<Rightarrow> ''binance''
      | Arbitrum \<Rightarrow> ''arbitrum'' | Optimism \<Rightarrow> ''optimism'')"

text \<open>
  \<open>servePolygonGas\<close>, \<open>serveEthGas\<close>, \<open>serveBscGas\<close>, \<open>serveArbitrumGas\<close> and \<open>serveOptimismGas\<close>. The
  \<open>sync.Once\<close> has run when \<open>gs_oracle\<close> is set: a change of the network's configuration does not
  reach the oracle afterwards.
\<close>

definition once_init :: "oracle_kind \<Rightarrow> registry \<Rightarrow> gas_state \<Rightarrow> gas_oracle \<times> gas_state" where
  "once_init k r g =
     (case gs_oracle g k of
        Some orc \<Rightarrow> (orc, g)
      | None \<Rightarrow>
          let orc = New_oracle k (reg_All r (network_of k))
          in (orc, g\<lparr>gs_oracle := (gs_oracle g)(k := Some orc)\<rparr>))"

definition put_cache :: "oracle_kind \<Rightarrow> string \<times> int \<Rightarrow> gas_state \<Rightarrow> gas_state" where
  "put_cache k ent g = g\<lparr>gs_cache := (gs_cache g)(k := Some ent)\<rparr>"

definition serve_network_gas :: "oracle_kind \<Rightarrow> env \<Rightarrow> registry \<Rightarrow> gas_state \<Rightarrow> world \<Rightarrow> gas_handled" where
  "serve_network_gas k E r g w =
     (let (orc, g1) = once_init k r g
      in case fresh (gs_cache g1 k) (clock w) of
           Some b \<Rightarrow> (served (json_reply 200 b), g1, w)
         | None \<Rightarrow>
             refresh E orc (reg_Best r (network_of k)) (''no '' @ network_of k @ '' nodes'')
               (put_cache k) g1 w)"

definition servePolygonGas :: "env \<Rightarrow> registry \<Rightarrow> gas_state \<Rightarrow> world \<Rightarrow> gas_handled" where
  "servePolygonGas E r g w = serve_network_gas Polygon E r g w"

definition serveEthGas :: "env \<Rightarrow> registry \<Rightarrow> gas_state \<Rightarrow> world \<Rightarrow> gas_handled" where
  "serveEthGas E r g w = serve_network_gas Eth E r g w"

definition serveBscGas :: "env \<Rightarrow> registry \<Rightarrow> gas_state \<Rightarrow> world \<Rightarrow> gas_handled" where
  "serveBscGas E r g w = serve_network_gas Bsc E r g w"

definition serveArbitrumGas :: "env \<Rightarrow> registry \<Rightarrow> gas_state \<Rightarrow> world \<Rightarrow> gas_handled" where
  "serveArbitrumGas E r g w = serve_network_gas Arbitrum E r g w"

definition serveOptimismGas :: "env \<Rightarrow> registry \<Rightarrow> gas_state \<Rightarrow> world \<Rightarrow> gas_handled" where
  "serveOptimismGas E r g w = serve_network_gas Optimism E r g w"

definition NewOracleForNetwork :: "string \<Rightarrow> registry \<Rightarrow> gas_oracle option" where
  "NewOracleForNetwork name r =
     (case reg_All r name of
        None \<Rightarrow> None
      | Some st \<Rightarrow>
          if ToLower (st_Protocol st) \<noteq> ''evm'' then None
          else let l = ToLower name
               in Some (New_oracle
                    (if l = ''polygon'' then Polygon else if l = ''arbitrum'' then Arbitrum
                     else if l = ''optimism'' then Optimism
                     else if l = ''binance'' \<or> l = ''bsc'' then Bsc else Eth) (Some st)))"

definition put_generic :: "string \<Rightarrow> string \<times> int \<Rightarrow> gas_state \<Rightarrow> gas_state" where
  "put_generic network ent g = g\<lparr>gs_generic := (gs_generic g)(network \<mapsto> ent)\<rparr>"

text \<open>
  \<open>serveGenericGas\<close>. On a hit it hands the cached slice itself to \<open>LogResponse\<close>, which shortens it
  in place (\<open>after_log\<close>); the other handlers log a copy.
\<close>

definition serveGenericGas ::
  "env \<Rightarrow> registry \<Rightarrow> incoming \<Rightarrow> string \<Rightarrow> gas_state \<Rightarrow> world \<Rightarrow> gas_handled" where
  "serveGenericGas E r rq network g w =
     (if in_method rq \<noteq> ''GET'' then (Inr None, g, w)
      else case NewOracleForNetwork network r of
        None \<Rightarrow> (Inr None, g, w)
      | Some orc \<Rightarrow>
          (case gs_generic g network of
             Some (b, exp) \<Rightarrow>
               if clock w < exp
               then (served (json_reply 200 b),
                     put_generic network (after_log (append_cap E) b, exp) g, w)
               else refresh E orc (reg_Best r network) ''no nodes'' (put_generic network) g w
           | None \<Rightarrow> refresh E orc (reg_Best r network) ''no nodes'' (put_generic network) g w))"

definition TryServeGasFee ::
  "env \<Rightarrow> registry \<Rightarrow> incoming \<Rightarrow> string \<Rightarrow> string \<Rightarrow> gas_state \<Rightarrow> world \<Rightarrow> gas_handled" where
  "TryServeGasFee E r rq network tail g w =
     (if in_method rq \<noteq> ''GET'' \<or> ToLower (Trim tail ''/'') \<noteq> ''gas'' then (Inr None, g, w)
      else let net = ToLower network
      in if net = ''polygon'' then servePolygonGas E r g w
         else if net = ''ethereum'' then serveEthGas E r g w
         else if net = ''binance'' then serveBscGas E r g w
         else if net = ''arbitrum'' then serveArbitrumGas E r g w
         else if net = ''optimism'' then serveOptimismGas E r g w
         else serveGenericGas E r rq network g w)"

lemmas gas_handlers = servePolygonGas_def serveEthGas_def serveBscGas_def serveArbitrumGas_def
  serveOptimismGas_def

lemma network_names:
  "network_of ` UNIV = {''polygon'', ''ethereum'', ''binance'', ''arbitrum'', ''optimism''}"
proof -
  have "(UNIV :: oracle_kind set) = {Polygon, Eth, Bsc, Arbitrum, Optimism}"
    using oracle_kind.exhaust by blast
  then have "network_of ` UNIV = network_of ` {Polygon, Eth, Bsc, Arbitrum, Optimism}" by (rule arg_cong)
  then show ?thesis by (simp add: network_of_def)
qed

lemma TryServeGasFee_network:
  assumes "in_method rq = ''GET''" "ToLower (Trim tail ''/'') = ''gas''" "ToLower network = network_of k"
  shows "TryServeGasFee E r rq network tail g w = serve_network_gas k E r g w"
  using assms by (cases k) (simp_all add: TryServeGasFee_def network_of_def gas_handlers)

section \<open>What a refresh does\<close>

text \<open>
  The entry is stored exactly when the answer is a success, and it is the body of that answer; no
  request goes elsewhere than to the official source and to the nodes given.
\<close>

lemma refresh_entry:
  assumes "refresh E orc nodes missing put_entry g w = (Inr (Some rs), g', w')"
  shows "if is_2xx (rs_status rs) then g' = put_entry (rs_body rs, clock w' + TTLDuration orc) g
         else g' = g \<and> rs_status rs \<in> {502, 503}"
  using assms
  by (auto simp: refresh_def served_def json_reply_def http_error_def is_2xx_iff
      split: prod.splits sum.splits option.splits if_splits)

lemma refresh_clock: "refresh E orc nodes missing put_entry g w = (res, g', w') \<Longrightarrow> clock w \<le> clock w'"
  by (fastforce simp: refresh_def split: prod.splits sum.splits option.splits if_splits
      dest: fees.official_clock fees.first_report_clock)

text \<open>The URL an oracle or a network's configuration names as the official source, if it names one.\<close>

definition sources_of :: "string \<Rightarrow> string set" where
  "sources_of u = (if u = [] then {} else {u})"

definition configured_sources :: "registry \<Rightarrow> string \<Rightarrow> string set" where
  "configured_sources r network =
     \<Union> ((\<lambda>st. \<Union> ((\<lambda>c. sources_of (ExternalURL c)) ` set_option (st_Gas st))) ` set_option (reg_All r network))"

lemma sources_of_new: "sources_of (ora_URL (New_oracle k (reg_All r network))) = configured_sources r network"
  by (auto simp: New_oracle_defs configured_sources_def sources_of_def split: oracle_kind.split option.split)

lemma refresh_calls:
  "\<exists>rqs. sent (snd (snd (refresh E orc nodes missing put_entry g w))) = sent w @ rqs \<and>
     rq_url ` set rqs \<subseteq> sources_of (ora_URL orc) \<union> URL ` set nodes"
proof -
  obtain o1 w1 where f: "FetchFromOfficial orc E w = (o1, w1)" by fastforce
  obtain c w2 where c: "first_report (ComputeFromRPCBytes orc E) nodes w1 = (c, w2)" by fastforce
  have "\<exists>rqs. sent w1 = sent w @ rqs \<and> rq_url ` set rqs \<subseteq> sources_of (ora_URL orc)"
  proof (cases "ora_URL orc = []")
    case True
    with f fees.no_official [of orc E w] show ?thesis by (simp add: sources_of_def)
  next
    case False
    with fees.asks_official [of orc w E] show ?thesis by (auto simp: f only_to_def sources_of_def)
  qed
  then obtain rqs where q: "sent w1 = sent w @ rqs" "rq_url ` set rqs \<subseteq> sources_of (ora_URL orc)" by blast
  from fees.first_report_calls [of orc E nodes w1] obtain rqs' where q': "sent w2 = sent w1 @ rqs'"
    "rq_url ` set rqs' \<subseteq> URL ` set nodes" by (auto simp: c)
  have "snd (snd (refresh E orc nodes missing put_entry g w)) \<in> {w1, w2}"
    by (auto simp: refresh_def f c split: sum.split option.split prod.split)
  moreover have "rq_url ` set (rqs @ rqs') \<subseteq> sources_of (ora_URL orc) \<union> URL ` set nodes"
    using q q' by auto
  ultimately show ?thesis
    using q q' by (metis (no_types, lifting) Un_subset_iff append_assoc image_Un insertE set_append
        singletonD)
qed

lemma once_init_known: "gs_oracle g k = Some orc \<Longrightarrow> once_init k r g = (orc, g)"
  by (simp add: once_init_def)

lemma once_init_simps:
  "gs_oracle (snd (once_init k r g)) k = Some (fst (once_init k r g))"
  "gs_cache (snd (once_init k r g)) = gs_cache g"
  "gs_generic (snd (once_init k r g)) = gs_generic g"
  by (simp_all add: once_init_def Let_def split: option.split)

text \<open>The oracle is made once: a second initialisation changes nothing, whatever the registry.\<close>

lemma once_init_again: "once_init k r' (snd (once_init k r g)) = once_init k r g"
  by (simp add: once_init_def Let_def split: option.split)

text \<open>While the entry is fresh the handler answers from it and calls nobody.\<close>

lemma serve_fresh:
  "fresh (gs_cache g k) (clock w) = Some b \<Longrightarrow>
     serve_network_gas k E r g w = (served (json_reply 200 b), snd (once_init k r g), w)"
  by (simp add: serve_network_gas_def case_prod_beta once_init_simps)

lemma serve_stale:
  "fresh (gs_cache g k) (clock w) = None \<Longrightarrow>
     serve_network_gas k E r g w =
       refresh E (fst (once_init k r g)) (reg_Best r (network_of k)) (''no '' @ network_of k @ '' nodes'')
         (put_cache k) (snd (once_init k r g)) w"
  by (simp add: serve_network_gas_def case_prod_beta once_init_simps)

lemma calls_weaken:
  "\<exists>rqs. sent w' = sent w @ rqs \<and> rq_url ` set rqs \<subseteq> A \<Longrightarrow> A \<subseteq> B \<Longrightarrow>
     \<exists>rqs. sent w' = sent w @ rqs \<and> rq_url ` set rqs \<subseteq> B"
  by (meson order_trans)

text \<open>
  Who a handler may call: the official source of its own oracle, which on first use is the one its
  network's configuration names, and the nodes of its network.
\<close>

definition own_sources :: "oracle_kind \<Rightarrow> registry \<Rightarrow> gas_state \<Rightarrow> string set" where
  "own_sources k r g =
     (case gs_oracle g k of
        Some orc \<Rightarrow> sources_of (ora_URL orc)
      | None \<Rightarrow> configured_sources r (network_of k))"

lemma own_sources_init: "sources_of (ora_URL (fst (once_init k r g))) = own_sources k r g"
  by (simp add: once_init_def own_sources_def sources_of_new Let_def split: option.split)

text \<open>The oracle is made at most once, from the configuration of its own network; no other changes.\<close>

definition own_oracle :: "oracle_kind \<Rightarrow> registry \<Rightarrow> gas_state \<Rightarrow> gas_state \<Rightarrow> bool" where
  "own_oracle k r g g' \<longleftrightarrow> gs_oracle g' = (gs_oracle g)
     (k \<mapsto> case gs_oracle g k of Some orc \<Rightarrow> orc | None \<Rightarrow> New_oracle k (reg_All r (network_of k)))"

lemma own_oracle_init: "own_oracle k r g (snd (once_init k r g))"
  by (auto simp: own_oracle_def once_init_def Let_def split: option.split)

lemma refresh_oracle:
  assumes "refresh E orc nodes missing (put_cache k) g w = (res, g', w')"
  shows "gs_oracle g' = gs_oracle g"
  using assms by (auto simp: refresh_def put_cache_def split: prod.splits sum.splits option.splits if_splits)

lemma serve_network_calls:
  assumes "serve_network_gas k E r g w = (res, g', w')"
  shows "own_oracle k r g g'"
    and "\<exists>rqs. sent w' = sent w @ rqs
      \<and> rq_url ` set rqs \<subseteq> own_sources k r g \<union> URL ` set (reg_Best r (network_of k))"
proof -
  let ?orc = "fst (once_init k r g)" and ?g = "snd (once_init k r g)"
  have "own_oracle k r g g' \<and> (\<exists>rqs. sent w' = sent w @ rqs
      \<and> rq_url ` set rqs \<subseteq> own_sources k r g \<union> URL ` set (reg_Best r (network_of k)))"
  proof (cases "fresh (gs_cache g k) (clock w)")
    case None
    from assms None have f: "refresh E ?orc (reg_Best r (network_of k)) (''no '' @ network_of k @ '' nodes'')
        (put_cache k) ?g w = (res, g', w')"
      by (simp add: serve_stale)
    have "own_oracle k r g g'"
      using own_oracle_init [of k r g] refresh_oracle [OF f] by (simp add: own_oracle_def)
    moreover from refresh_calls [of E ?orc "reg_Best r (network_of k)" "''no '' @ network_of k @ '' nodes''"
        "put_cache k" ?g w]
    have "\<exists>rqs. sent w' = sent w @ rqs
      \<and> rq_url ` set rqs \<subseteq> own_sources k r g \<union> URL ` set (reg_Best r (network_of k))"
      unfolding f by (simp add: own_sources_init)
    ultimately show ?thesis by blast
  qed (use assms serve_fresh own_oracle_init in auto)
  then show "own_oracle k r g g'" "\<exists>rqs. sent w' = sent w @ rqs
      \<and> rq_url ` set rqs \<subseteq> own_sources k r g \<union> URL ` set (reg_Best r (network_of k))"
    by blast+
qed

lemma serve_generic_calls:
  assumes "serveGenericGas E r rq network g w = (res, g', w')"
  shows "\<exists>rqs. sent w' = sent w @ rqs
    \<and> rq_url ` set rqs \<subseteq> configured_sources r network \<union> URL ` set (reg_Best r network)"
proof (cases "NewOracleForNetwork network r")
  case (Some orc)
  have "w' = w \<or> refresh E orc (reg_Best r network) ''no nodes'' (put_generic network) g w = (res, g', w')"
    using assms Some by (auto simp: serveGenericGas_def split: option.splits if_splits)
  moreover have "sources_of (ora_URL orc) = configured_sources r network"
    using Some sources_of_new [of _ r network]
    by (auto simp: NewOracleForNetwork_def Let_def split: option.splits if_splits)
  ultimately show ?thesis
    using refresh_calls [of E orc "reg_Best r network" "''no nodes''" "put_generic network" g w] by auto
qed (use assms in \<open>simp add: serveGenericGas_def split: if_splits\<close>)

lemma refresh_handles: "fst (refresh E orc nodes missing put_entry g w) \<noteq> Inr None"
  by (auto simp: refresh_def served_def split: prod.splits sum.splits option.splits if_splits)

lemma serve_network_handles: "fst (serve_network_gas k E r g w) \<noteq> Inr None"
  using refresh_handles serve_fresh serve_stale
  by (cases "fresh (gs_cache g k) (clock w)") (auto simp: served_def)

section \<open>Properties\<close>

text \<open>
  (C24) The gas endpoint is either declined without a trace, so that the request goes on to the
  proxy, or handled. The handler of a named network asks nobody but the official source of its own
  oracle and the best nodes of its own network, and touches no other handler's oracle; the oracle is
  made on first use, with the source configured for the network. The handler the other networks
  share asks the official source configured for the network of the request and that network's best
  nodes.
\<close>
theorem gas_asks_own_sources:
  assumes "TryServeGasFee E r rq network tail g w = (res, g', w')"
  shows "(res = Inr None \<longrightarrow> g' = g \<and> w' = w) \<and>
    (\<forall>k. network_of k = ToLower network \<longrightarrow>
       (gs_oracle g' = gs_oracle g \<or> own_oracle k r g g') \<and>
       (\<exists>rqs. sent w' = sent w @ rqs
          \<and> rq_url ` set rqs \<subseteq> own_sources k r g \<union> URL ` set (reg_Best r (network_of k)))) \<and>
    (ToLower network \<notin> range network_of \<longrightarrow>
       (\<exists>rqs. sent w' = sent w @ rqs
          \<and> rq_url ` set rqs \<subseteq> configured_sources r network \<union> URL ` set (reg_Best r network)))"
proof (cases "in_method rq \<noteq> ''GET'' \<or> ToLower (Trim tail ''/'') \<noteq> ''gas''")
  case False
  have named: "serve_network_gas k E r g w = (res, g', w')" if "network_of k = ToLower network" for k
    using assms False TryServeGasFee_network [of rq tail network k] that by simp
  have generic: "serveGenericGas E r rq network g w = (res, g', w')" if "ToLower network \<notin> range network_of"
    using assms False that by (auto simp: TryServeGasFee_def Let_def network_names)
  show ?thesis
  proof (cases "\<exists>k. network_of k = ToLower network")
    case True
    have "res \<noteq> Inr None" using True named serve_network_handles by (metis fst_conv)
    moreover have "own_oracle k r g g'" "\<exists>rqs. sent w' = sent w @ rqs
        \<and> rq_url ` set rqs \<subseteq> own_sources k r g \<union> URL ` set (reg_Best r (network_of k))"
      if "network_of k = ToLower network" for k
      by (rule serve_network_calls [OF named [OF that]])+
    moreover have "ToLower network \<in> range network_of" using True by (metis rangeI)
    ultimately show ?thesis by simp
  next
    case other: False
    then have s: "serveGenericGas E r rq network g w = (res, g', w')" by (metis generic rangeE)
    then have "res = Inr None \<longrightarrow> g' = g \<and> w' = w"
      using refresh_handles
      by (auto simp: serveGenericGas_def served_def split: option.splits if_splits) (metis fst_conv)+
    with other serve_generic_calls [OF s] show ?thesis by simp
  qed
qed (use assms in \<open>auto simp: TryServeGasFee_def\<close>)

text \<open>
  (C22) The handlers of the five named networks. After an answer with a 2xx the cache of the network
  holds its body until the time the answer came plus the time to live of the network's oracle, which,
  when the oracle is made by this request, is the configured one if positive, and else ten seconds,
  fifteen for polygon. Before that time every further request is answered with the body and calls
  nobody; from then on the cache does not answer. Any other answer is a 502 or a 503 and leaves the
  cache alone.
\<close>
theorem gas_cache_serves:
  assumes "serve_network_gas k E r g w = (Inr (Some rs), g', w')" "fresh (gs_cache g k) (clock w) = None"
  shows "if is_2xx (rs_status rs)
    then \<exists>orc. gs_oracle g' k = Some orc
      \<and> (gs_oracle g k = None \<longrightarrow> TTL orc =
           (case Option.bind (reg_All r (network_of k)) st_Gas of
              Some c \<Rightarrow> if 0 < TTLSeconds c then i64 (sec (TTLSeconds c)) else if k = Polygon then sec 15 else sec 10
            | None \<Rightarrow> if k = Polygon then sec 15 else sec 10))
      \<and> gs_cache g' k = Some (rs_body rs, clock w' + TTL orc)
      \<and> (\<forall>r' v. clock v < clock w' + TTL orc \<longrightarrow>
           serve_network_gas k E r' g' v = (Inr (Some (json_reply 200 (rs_body rs))), g', v))
      \<and> (\<forall>t. clock w' + TTL orc \<le> t \<longrightarrow> fresh (gs_cache g' k) t = None)
    else rs_status rs \<in> {502, 503} \<and> gs_cache g' = gs_cache g"
proof -
  let ?g = "snd (once_init k r g)" and ?orc = "fst (once_init k r g)"
  have f: "refresh E ?orc (reg_Best r (network_of k)) (''no '' @ network_of k @ '' nodes'')
      (put_cache k) ?g w = (Inr (Some rs), g', w')"
    using assms by (simp add: serve_stale)
  show ?thesis
  proof (cases "is_2xx (rs_status rs)")
    case True
    with refresh_entry [OF f] have g': "g' = put_cache k (rs_body rs, clock w' + TTL ?orc) ?g"
      by (simp add: TTLDuration_def)
    have o: "gs_oracle g' k = Some ?orc" by (simp add: g' put_cache_def once_init_simps)
    have "TTL ?orc = (case Option.bind (reg_All r (network_of k)) st_Gas of
              Some c \<Rightarrow> if 0 < TTLSeconds c then i64 (sec (TTLSeconds c)) else if k = Polygon then sec 15 else sec 10
            | None \<Rightarrow> if k = Polygon then sec 15 else sec 10)" if "gs_oracle g k = None"
      using that by (cases k) (simp_all add: once_init_def Let_def New_oracle_defs split: option.split)
    moreover have "serve_network_gas k E r' g' v = (Inr (Some (json_reply 200 (rs_body rs))), g', v)"
      if "clock v < clock w' + TTL ?orc" for r' v
      using that serve_fresh [of g' k v "rs_body rs" E r']
      by (simp add: once_init_known [OF o] served_def) (simp add: g' put_cache_def fresh_def)
    moreover have "fresh (gs_cache g' k) t = None" if "clock w' + TTL ?orc \<le> t" for t
      using that by (simp add: g' put_cache_def fresh_def)
    ultimately show ?thesis using True o by (simp add: g' put_cache_def)
  next
    case False
    with refresh_entry [OF f] show ?thesis by (simp add: once_init_simps)
  qed
qed

text \<open>
  The generic handler spoils its own cache. A fresh hit on an entry of more than 4096 bytes is
  answered well, but logging it overwrites the cached text, and the next hit, still before the
  expiry, is answered with another body: bytes 4096 to 4110 are the truncation mark.
\<close>
theorem generic_cache_spoiled:
  assumes "in_method rq = ''GET''" "NewOracleForNetwork network r = Some orc"
    "gs_generic g network = Some (b, expiry)" "clock w < expiry"
    "4096 < length b" "4111 \<le> append_cap E (length b)" "take 1 (drop 4096 b) \<noteq> ''.''"
  shows "\<exists>g' b'. serveGenericGas E r rq network g w = (Inr (Some (json_reply 200 b)), g', w)
    \<and> serveGenericGas E r rq network g' w = (Inr (Some (json_reply 200 b')), put_generic network (after_log (append_cap E) b', expiry) g', w)
    \<and> b' \<noteq> b \<and> length b' = length b"
proof -
  let ?b = "after_log (append_cap E) b"
  let ?g = "put_generic network (?b, expiry) g"
  have "take 1 (drop 4096 ?b) = take (min 1 (length b - 4096)) (truncated_mark @ drop 4111 b)"
    using assms(5,6) by (simp add: after_log_long drop_take truncated_mark_def)
  moreover have "min 1 (length b - 4096) = 1" using assms(5) by simp
  ultimately have "take 1 (drop 4096 ?b) = ''.''"
    by (simp add: truncated_mark_def)
  with assms(7) have "?b \<noteq> b" by metis
  with assms(1-4) show ?thesis
    by (intro exI [of _ ?g] exI [of _ ?b]) (simp add: serveGenericGas_def served_def put_generic_def)
qed

subsection \<open>Instances\<close>

definition gas_env :: env where
  "gas_env = (answering (\<lambda>_. reply_with 200 ''{}''))\<lparr>append_cap := (\<lambda>n. 2 * n)\<rparr>"

definition gas_registry :: registry where
  "gas_registry = [''ethereum'' \<mapsto> sample_network\<lparr>st_Gas :=
     Some \<lparr>ExternalURL = ''u'', MinPriorityGwei = 0, TTLSeconds = 0\<rparr>\<rparr>, ''n'' \<mapsto> sample_network]"

definition gas_get :: incoming where
  "gas_get = \<lparr>in_method = ''GET'', in_escaped = [], in_path = [], in_query = [], in_param = (\<lambda>_. []), in_hdr = hempty, in_body = []\<rparr>"

theorem gas_asks_own_sources_witness:
  "\<exists>rqs. sent (snd (snd (TryServeGasFee gas_env gas_registry gas_get ''ethereum'' ''gas'' gas_init new_world))) = rqs
     \<and> rq_url ` set rqs \<subseteq> {''u''}"
proof -
  let ?R = "TryServeGasFee gas_env gas_registry gas_get ''ethereum'' ''gas'' gas_init new_world"
  have k: "network_of Eth = ToLower ''ethereum''"
    by (simp add: network_of_def ToLower_def lower_char_def)
  have s: "own_sources Eth gas_registry gas_init = {''u''}"
    by (simp add: own_sources_def gas_init_def configured_sources_def sources_of_def gas_registry_def reg_All_def
        network_of_def)
  have b: "reg_Best gas_registry (network_of Eth) = []"
    by (simp add: reg_Best_def gas_registry_def sample_network_def network_of_def)
  from gas_asks_own_sources [of gas_env gas_registry gas_get "''ethereum''" "''gas''" gas_init new_world
      "fst ?R" "fst (snd ?R)" "snd (snd ?R)"] k
  have "\<exists>rqs. sent (snd (snd ?R)) = sent new_world @ rqs
      \<and> rq_url ` set rqs \<subseteq> own_sources Eth gas_registry gas_init \<union> URL ` set (reg_Best gas_registry (network_of Eth))"
    by simp
  then show ?thesis by (simp add: s b new_world_def)
qed

theorem gas_cache_serves_witness:
  "\<exists>g'. gs_cache g' Eth = Some (''{}'', sec 10)
     \<and> serve_network_gas Eth gas_env gas_registry g' new_world = (Inr (Some (json_reply 200 ''{}'')), g', new_world)
     \<and> fresh (gs_cache g' Eth) (sec 10) = None"
proof -
  let ?G = "serve_network_gas Eth gas_env gas_registry gas_init new_world"
  have o: "fst (once_init Eth gas_registry gas_init)
      = \<lparr>ora_kind = Eth, MinPrioGwei = 2, ora_URL = ''u'', TTL = sec 10\<rparr>"
    by (simp add: once_init_def gas_init_def gas_registry_def New_oracle_defs reg_All_def network_of_def
        sample_network_def Let_def)
  have stale: "fresh (gs_cache gas_init Eth) (clock new_world) = None"
    by (simp add: fresh_def gas_init_def)
  let ?g = "put_cache Eth (''{}'', sec 10) (snd (once_init Eth gas_registry gas_init))"
  have "?G = (Inr (Some (json_reply 200 ''{}'')), ?g, snd (snd ?G)) \<and> clock (snd (snd ?G)) = 0"
    unfolding serve_stale [OF stale] o
    by (simp add: refresh_def FetchFromOfficial_eq official_answer_def gas_env_def send_def client_do_def reply_with_def is_2xx_iff
        served_def TTLDuration_def)
  then have run: "?G = (Inr (Some (json_reply 200 ''{}'')), ?g, snd (snd ?G))" and "clock (snd (snd ?G)) = 0"
    by blast+
  moreover have t: "gs_oracle gas_init Eth = None" "Option.bind (reg_All gas_registry (network_of Eth)) st_Gas
      = Some \<lparr>ExternalURL = ''u'', MinPriorityGwei = 0, TTLSeconds = 0\<rparr>"
    by (simp_all add: gas_init_def gas_registry_def reg_All_def network_of_def)
  ultimately have "gs_cache ?g Eth = Some (''{}'', sec 10)"
    "clock new_world < sec 10 \<longrightarrow> serve_network_gas Eth gas_env gas_registry ?g new_world
       = (Inr (Some (json_reply 200 ''{}'')), ?g, new_world)" "fresh (gs_cache ?g Eth) (sec 10) = None"
    using gas_cache_serves [OF run stale] by (auto simp: is_2xx_iff json_reply_def)
  moreover have "clock new_world < sec 10" by (simp add: sec_def new_world_def)
  ultimately show ?thesis by blast
qed

theorem generic_cache_spoiled_witness:
  "\<exists>b b' g'. b' \<noteq> b \<and> serveGenericGas gas_env gas_registry
      gas_get
      ''n'' (put_generic ''n'' (b, 1) gas_init) new_world = (Inr (Some (json_reply 200 b)), g', new_world)
    \<and> fst (serveGenericGas gas_env gas_registry
      gas_get
      ''n'' g' new_world) = Inr (Some (json_reply 200 b'))"
proof -
  define b where "b = replicate 5000 (CHR ''x'')"
  let ?g = "put_generic ''n'' (b, 1) gas_init"
  obtain orc where orc: "NewOracleForNetwork ''n'' gas_registry = Some orc"
    by (simp add: NewOracleForNetwork_def gas_registry_def reg_All_def sample_network_def ToLower_def lower_char_def)
  have g: "gs_generic ?g ''n'' = Some (b, 1)" by (simp add: put_generic_def)
  have l: "length b = 5000" by (simp only: b_def length_replicate)
  then have "take 1 (drop 4096 b) = [b ! 4096]" by (simp add: take_Suc_conv_app_nth)
  also have "b ! 4096 = CHR ''x''" unfolding b_def by (rule nth_replicate) simp
  finally have x: "take 1 (drop 4096 b) \<noteq> ''.''" by simp
  have "in_method gas_get = ''GET''" "clock new_world < 1" "4096 < length b" "4111 \<le> append_cap gas_env (length b)"
    by (simp_all add: l gas_env_def gas_get_def new_world_def)
  from generic_cache_spoiled [OF this(1) orc g this(2-4) x] show ?thesis by fastforce
qed

end
