(* ===== verification/Proxy.thy ===== *)
theory Proxy
  imports GasCache Throttle Adapters
begin

text \<open>
  pkg/api/proxy.go: \<open>Serve\<close> turns /{network}/tail into a request to the best nodes of the network,
  one after the other, until one gives an answer that is neither rate-limited nor a 5xx. The body of
  the client and the body of an answer both pass through \<open>LogRequest\<close> or \<open>LogResponse\<close> before they
  are used (\<open>after_log\<close>). Log lines are left out.
\<close>

section \<open>Helpers of proxy.go\<close>

definition buildUpstreamURL :: "string \<Rightarrow> string \<Rightarrow> string \<Rightarrow> string" where
  "buildUpstreamURL base_url tail rawQuery =
     (let u = TrimRight base_url ''/'';
          u = (if tail \<noteq> [] then u @ ''/'' @ TrimLeft tail ''/'' else u)
      in if rawQuery \<noteq> [] then u @ ''?'' @ rawQuery else u)"

definition defaultTimeoutForProtocol :: "string \<Rightarrow> int" where
  "defaultTimeoutForProtocol protocol =
     (let p = ToLower protocol
      in if p = ''sol'' then ms 800
         else if p = ''evm'' then ms 1500
         else if p = ''trx'' then ms 1500
         else if p \<in> {''btc'', ''doge'', ''ltc''} then ms 2000
         else ms 1500)"

text \<open>/{network}/optional/tail: the network and the tail.\<close>

definition split_path :: "string \<Rightarrow> string \<times> string" where
  "split_path path =
     (let parts = Split (TrimPrefix path ''/'') (CHR ''/'')
      in (hd parts, if 1 < length parts then Join (tl parts) ''/'' else []))"

text \<open>The upstreams an adapter allows: those whose URL contains one of its substrings.\<close>

definition allowed :: "string list \<Rightarrow> NodeWithPing \<Rightarrow> bool" where
  "allowed subs n \<longleftrightarrow> (\<exists>sub \<in> set subs. Contains (ToLower (URL n)) (ToLower sub))"

definition proxy_timeout :: "registry \<Rightarrow> string \<Rightarrow> string \<Rightarrow> int" where
  "proxy_timeout r network protocol =
     (let tmo = i64 (ms (reg_TimeoutMs r network))
      in if tmo \<le> 0 then defaultTimeoutForProtocol protocol else tmo)"

text \<open>The client of \<open>clientFor\<close>: the node's timeout, through Tor for a Tor node.\<close>

definition clientFor :: "string \<Rightarrow> NodeWithPing \<Rightarrow> int \<Rightarrow> request \<Rightarrow> request" where
  "clientFor torSocks n timeout rq =
     rq\<lparr>rq_timeout := timeout, rq_tor := (if Tor n then Some torSocks else None)\<rparr>"

definition upstream_request ::
  "string \<Rightarrow> int \<Rightarrow> adapted \<Rightarrow> header \<Rightarrow> string \<Rightarrow> NodeWithPing \<Rightarrow> request" where
  "upstream_request torSocks timeout ad inHeaders rawQuery n =
     (let h = hset_all inHeaders (pairs (Headers n));
          h = (if hget h ''content-type'' = [] \<and> (ad_Method ad = ''POST'' \<or> ad_Method ad = ''PUT'')
               then hset h ''content-type'' ''application/json'' else h)
      in clientFor torSocks n timeout
           \<lparr>rq_method = ad_Method ad, rq_url = buildUpstreamURL (URL n) (ad_Tail ad) rawQuery,
            rq_hdr = h, rq_body = ad_Body ad, rq_timeout = timeout, rq_tor = None\<rparr>)"

section \<open>The attempts\<close>

definition refused :: "response \<Rightarrow> bool" where
  "refused rs \<longleftrightarrow> isRateLimited rs \<or> 500 \<le> rs_status rs"

text \<open>The answer as the handler sees it, after it was logged.\<close>

definition logged_answer :: "env \<Rightarrow> response \<Rightarrow> response" where
  "logged_answer E rs = rs\<lparr>rs_body := after_log (read_cap E) (rs_body rs)\<rparr>"

fun proxy_loop ::
  "env \<Rightarrow> string \<Rightarrow> (NodeWithPing \<Rightarrow> request) \<Rightarrow> NodeWithPing list \<Rightarrow> world
     \<Rightarrow> (panic + (NodeWithPing \<times> response) option) \<times> world" where
  "proxy_loop E network mk [] w = (Inr None, w)"
| "proxy_loop E network mk (n # ns) w =
     (case send E (mk n) w of
        Inl p \<Rightarrow> (Inl p, w)
      | Inr (Failed e, w') \<Rightarrow> proxy_loop E network mk ns (count ProxyFail network w')
      | Inr (Got rs, w') \<Rightarrow>
          if refused (logged_answer E rs) then proxy_loop E network mk ns (count ProxyFail network w')
          else (Inr (Some (n, logged_answer E rs)), count ProxySuccess network w'))"

section \<open>Serve\<close>

text \<open>From the candidates on: adapt, filter, try.\<close>

definition proxy_forward ::
  "env \<Rightarrow> registry \<Rightarrow> string \<Rightarrow> string \<Rightarrow> string \<Rightarrow> NodeWithPing list \<Rightarrow> incoming \<Rightarrow> world
     \<Rightarrow> (panic + response) \<times> world" where
  "proxy_forward E r torSocks network tail candidates rq w =
     (let origBody = after_log (read_cap E) (in_body rq); protocol = ProtocolOf r network
      in case Adapt network protocol (URL (hd candidates)) tail (in_method rq) origBody of
        Inl p \<Rightarrow> (Inl p, w)
      | Inr ad \<Rightarrow>
     (let rawQuery = (if in_method rq = ''GET'' \<and> ad_Method ad = ''POST'' \<and> ad_Body ad \<noteq> []
                      then [] else in_query rq);
          nodes = (if ad_AllowedHostSubstr ad \<noteq> []
                   then filter (allowed (ad_AllowedHostSubstr ad)) candidates else candidates);
          inHeaders = hset_all (in_hdr rq) (ad_Headers ad);
          mk = upstream_request torSocks (proxy_timeout r network protocol) ad inHeaders rawQuery
      in if nodes = [] then (Inr (http_error ''no allowed upstreams'' 503), w)
         else case proxy_loop E network mk nodes w of
           (Inl p, w') \<Rightarrow> (Inl p, w')
         | (Inr (Some (n, rs)), w') \<Rightarrow> (Inr rs, w')
         | (Inr None, w') \<Rightarrow>
             (Inr (http_error ''all upstreams failed'' 502), count ProxyFail network w')))"

definition Serve ::
  "env \<Rightarrow> registry \<Rightarrow> string \<Rightarrow> incoming \<Rightarrow> gas_state \<Rightarrow> world \<Rightarrow> (panic + response) \<times> gas_state \<times> world"
where
  "Serve E r torSocks rq g w =
     (let (network, tail) = split_path (in_path rq)
      in case TryServeGasFee E r rq network tail g w of
        (Inl p, g', w') \<Rightarrow> (Inl p, g', w')
      | (Inr (Some rs), g', w') \<Rightarrow> (Inr rs, g', w')
      | (Inr None, g', w') \<Rightarrow>
     (let candidates = reg_Best r network
      in if candidates = [] then (Inr (http_error ''no available nodes'' 503), g', w')
         else case proxy_forward E r torSocks network tail candidates rq w' of
           (res, w'') \<Rightarrow> (res, g', w'')))"

section \<open>Upstream URLs\<close>

text \<open>What follows the host part of a node's URL is a path or a query.\<close>

lemma buildUpstreamURL_prefix:
  obtains rest where "buildUpstreamURL b tail q = TrimRight b ''/'' @ rest"
    "rest = [] \<or> hd rest \<in> {CHR ''/'', CHR ''?''}"
proof (cases "tail = []"; cases "q = []")
  assume "tail = []" "q = []"
  with that [of "[]"] show thesis by (simp add: buildUpstreamURL_def Let_def)
next
  assume "tail = []" "q \<noteq> []"
  with that [of "''?'' @ q"] show thesis by (simp add: buildUpstreamURL_def Let_def)
next
  assume "tail \<noteq> []" "q = []"
  with that [of "''/'' @ TrimLeft tail ''/''"] show thesis by (simp add: buildUpstreamURL_def Let_def)
next
  assume "tail \<noteq> []" "q \<noteq> []"
  with that [of "''/'' @ TrimLeft tail ''/'' @ ''?'' @ q"] show thesis
    by (simp add: buildUpstreamURL_def Let_def)
qed

lemma TrimRight_no_suffix: "\<not> suffix ''/'' (TrimRight b ''/'')"
proof
  assume "suffix ''/'' (TrimRight b ''/'')"
  then obtain xs where "rev (dropWhile (\<lambda>c. c \<in> set ''/'') (rev b)) = xs @ ''/''"
    unfolding suffix_def TrimRight_def by blast
  then have d: "dropWhile (\<lambda>c. c \<in> set ''/'') (rev b) = CHR ''/'' # rev xs"
    by (metis append_Nil rev.simps(2) rev_append rev_rev_ident append_Cons)
  then have "hd (dropWhile (\<lambda>c. c \<in> set ''/'') (rev b)) \<notin> set ''/''"
    by (metis hd_dropWhile list.discI)
  with d show False by simp
qed

lemma split_path_simple:
  assumes "CHR ''/'' \<notin> set network"
  shows "split_path (''/'' @ network) = (network, [])"
    "split_path (''/'' @ network @ ''/'' @ tail) = (network, tail)"
proof -
  show "split_path (''/'' @ network) = (network, [])"
    using assms by (simp add: split_path_def Split_self TrimPrefix_def)
  have "length (Split tail (CHR ''/'')) \<noteq> 0" by simp
  with assms show "split_path (''/'' @ network @ ''/'' @ tail) = (network, tail)"
    using Split_append_sep [OF assms, of tail] Join_Split [of tail "CHR ''/''"]
    by (simp add: split_path_def TrimPrefix_def Let_def)
qed

section \<open>The attempts\<close>

lemma upstream_request_url [simp]:
  "rq_url (upstream_request tor tmo ad h q n) = buildUpstreamURL (URL n) (ad_Tail ad) q"
  "rq_body (upstream_request tor tmo ad h q n) = ad_Body ad"
  "rq_method (upstream_request tor tmo ad h q n) = ad_Method ad"
  "rq_tor (upstream_request tor tmo ad h q n) = (if Tor n then Some tor else None)"
  by (simp_all add: upstream_request_def clientFor_def Let_def)

lemma proxy_loop_step:
  assumes "url_ok E (rq_url (mk n))" "client_do E (mk n) w = (rp, v)"
  shows "proxy_loop E network mk (n # ns) w =
     (case rp of
        Failed e \<Rightarrow> proxy_loop E network mk ns (count ProxyFail network v)
      | Got rs \<Rightarrow> if refused (logged_answer E rs) then proxy_loop E network mk ns (count ProxyFail network v)
                  else (Inr (Some (n, logged_answer E rs)), count ProxySuccess network v))"
  using assms by (simp add: send_def split: reply.split)

lemma proxy_loop_panic [simp]:
  "\<not> url_ok E (rq_url (mk n)) \<Longrightarrow> proxy_loop E network mk (n # ns) w = (Inl NilDeref, w)"
  by (simp add: send_def)

declare proxy_loop.simps(2) [simp del]

text \<open>
  A reply that turns a request down: no answer, or one that, as it is after the log, limits the rate or
  is a 5xx.
\<close>

definition turned_down :: "env \<Rightarrow> reply \<Rightarrow> bool" where
  "turned_down E rp \<longleftrightarrow>
     (case rp of
        Failed e \<Rightarrow> True
      | Got rs \<Rightarrow> isRateLimited (logged_answer E rs) \<or> 500 \<le> rs_status rs)"

text \<open>
  The nodes are asked in order, each once, up to the first whose answer is not refused; that
  answer is the result. Without one, all were asked.
\<close>

lemma proxy_loop_result:
  assumes "proxy_loop E network mk ns w = (Inr res, w')"
  shows "case res of
      Some (n, rs) \<Rightarrow> \<exists>pre post v answer. ns = pre @ n # post \<and> sent w' = sent w @ map mk (pre @ [n])
        \<and> all_bad E (turned_down E) mk w pre \<and> sent v = sent w @ map mk pre \<and> fst (client_do E (mk n) v) = Got answer
        \<and> rs = logged_answer E answer \<and> \<not> refused rs
    | None \<Rightarrow> sent w' = sent w @ map mk ns \<and> all_bad E (turned_down E) mk w ns"
  using assms
proof (induction ns arbitrary: w)
  case (Cons n ns)
  have ok: "url_ok E (rq_url (mk n))" using Cons.prems by (cases "url_ok E (rq_url (mk n))") simp_all
  obtain rp v where cd: "client_do E (mk n) w = (rp, v)" by fastforce
  then have v: "sent v = sent w @ [mk n]" using client_do_sent by (metis snd_conv)
  have rec: ?case if "proxy_loop E network mk ns (count ProxyFail network v) = (Inr res, w')" "turned_down E (fst (client_do E (mk n) w))"
  proof (cases res)
    case None
    with Cons.IH [OF that(1)] v all_bad_Cons [of "turned_down E" E mk n w "count ProxyFail network v" ns] that(2)
    show ?thesis by simp
  next
    case (Some x)
    obtain m rs where x: "x = (m, rs)" by fastforce
    with Cons.IH [OF that(1)] Some obtain pre post u answer where
      u: "ns = pre @ m # post" "sent w' = sent v @ map mk (pre @ [m])" "all_bad E (turned_down E) mk (count ProxyFail network v) pre"
        "sent u = sent v @ map mk pre" "fst (client_do E (mk m) u) = Got answer"
        "rs = logged_answer E answer" "\<not> refused rs" by auto
    have "all_bad E (turned_down E) mk w (n # pre)"
      by (rule all_bad_Cons [of "turned_down E" E mk n w "count ProxyFail network v" pre]) (use u(3) that(2) v in simp_all)
    with u v have "n # ns = (n # pre) @ m # post \<and> sent w' = sent w @ map mk ((n # pre) @ [m])
        \<and> all_bad E (turned_down E) mk w (n # pre) \<and> sent u = sent w @ map mk (n # pre)
        \<and> fst (client_do E (mk m) u) = Got answer \<and> rs = logged_answer E answer \<and> \<not> refused rs" by simp
    then show ?thesis unfolding Some x option.case prod.case by blast
  qed
  show ?case
  proof (cases rp)
    case (Failed e)
    with cd have "turned_down E (fst (client_do E (mk n) w))" by (simp add: turned_down_def)
    with Failed Cons.prems rec show ?thesis by (simp add: proxy_loop_step [of E mk n _ _ _ network, OF ok cd])
  next
    case (Got rs)
    show ?thesis
    proof (cases "refused (logged_answer E rs)")
      case True
      with cd Got have "turned_down E (fst (client_do E (mk n) w))" by (simp add: turned_down_def refused_def logged_answer_def)
      with True Got Cons.prems rec show ?thesis by (simp add: proxy_loop_step [of E mk n _ _ _ network, OF ok cd])
    next
      case False
      with Got Cons.prems have "res = Some (n, logged_answer E rs)" "sent w' = sent v"
        by (auto simp: proxy_loop_step [of E mk n _ _ _ network, OF ok cd])
      moreover from False v cd Got have "n # ns = [] @ n # ns \<and> sent v = sent w @ map mk ([] @ [n])
          \<and> all_bad E (turned_down E) mk w [] \<and> sent w = sent w @ map mk [] \<and> fst (client_do E (mk n) w) = Got rs
          \<and> logged_answer E rs = logged_answer E rs \<and> \<not> refused (logged_answer E rs)" by simp
      ultimately show ?thesis by (simp only: option.case prod.case) blast
    qed
  qed
qed auto

lemma proxy_loop_calls:
  "proxy_loop E network mk ns w = (res, w') \<Longrightarrow> \<exists>tried. prefix tried ns \<and> sent w' = sent w @ map mk tried"
proof (induction ns arbitrary: w)
  case (Cons n ns)
  show ?case
  proof (cases "url_ok E (rq_url (mk n))")
    case False
    with Cons.prems show ?thesis by (intro exI [of _ "[]"]) auto
  next
    case True
    obtain rp v where cd: "client_do E (mk n) w = (rp, v)" by fastforce
    then have v: "sent v = sent w @ [mk n]" using client_do_sent by (metis snd_conv)
    have rec: ?thesis if "proxy_loop E network mk ns (count ProxyFail network v) = (res, w')"
    proof -
      from Cons.IH [OF that] obtain tried where "prefix tried ns" "sent w' = sent v @ map mk tried"
        unfolding count_simps by blast
      with v show ?thesis by (intro exI [of _ "n # tried"]) simp
    qed
    have "w' = count ProxySuccess network v \<or> proxy_loop E network mk ns (count ProxyFail network v) = (res, w')"
      using Cons.prems by (auto simp: proxy_loop_step [of E mk n _ _ _ network, OF True cd] split: reply.splits if_splits)
    then show ?thesis using rec v by (auto intro: exI [of _ "[n]"])
  qed
qed (auto intro: exI [of _ "[]"])

text \<open>
  What the attempts add to the metrics: one success for an answer, one failure for every other request.
\<close>

definition added :: "metric \<Rightarrow> string \<Rightarrow> world \<Rightarrow> world \<Rightarrow> int" where
  "added m l w w' = reading (meters w') m l - reading (meters w) m l"

lemma added_simps [simp]:
  "added m l w w = 0"
  "added m l w (count m' l' w') = added m l w w' + (if m = m' \<and> l = l' then 1 else 0)"
  "added m l (count m' l' w) w' = added m l w w' - (if m = m' \<and> l = l' then 1 else 0)"
  by (simp_all add: added_def)

lemma proxy_loop_meters:
  "proxy_loop E network mk ns w = (Inr res, w') \<Longrightarrow>
     added m l w w' =
       (if l \<noteq> network then 0
        else if m = ProxySuccess then (if res = None then 0 else 1)
        else if m = ProxyFail
        then int (length (sent w')) - int (length (sent w)) - (if res = None then 0 else 1)
        else 0)"
proof (induction ns arbitrary: w)
  case (Cons n ns)
  have ok: "url_ok E (rq_url (mk n))" using Cons.prems by (cases "url_ok E (rq_url (mk n))") simp_all
  obtain rp v where cd: "client_do E (mk n) w = (rp, v)" by fastforce
  have v: "sent v = sent w @ [mk n]" "meters v = meters w"
    using client_do_sent [of E "mk n" w] client_do_meters [of E "mk n" w] by (simp_all add: cd)
  then have a: "added m l w u = added m l v u" for u by (simp add: added_def)
  consider "proxy_loop E network mk ns (count ProxyFail network v) = (Inr res, w')"
    | n' rs where "res = Some (n', rs)" "w' = count ProxySuccess network v"
    using Cons.prems by (auto simp: proxy_loop_step [of E mk n _ _ _ network, OF ok cd] split: reply.splits if_splits)
  then show ?case
  proof cases
    case 1
    from Cons.IH [OF this] show ?thesis by (auto simp: a v(1) split: if_splits)
  next
    case 2
    then show ?thesis by (simp add: a v(1))
  qed
qed simp

text \<open>Every request of a forward goes to a candidate the adapter allows.\<close>

lemma proxy_forward_calls:
  assumes "proxy_forward E r tor network tail candidates rq w = (res, w')" "q \<in> set (sent w')"
  shows "q \<in> set (sent w) \<or>
    (\<exists>ad n query. Adapt network (ProtocolOf r network) (URL (hd candidates)) tail (in_method rq)
        (after_log (read_cap E) (in_body rq)) = Inr ad \<and> n \<in> set candidates \<and>
      (ad_AllowedHostSubstr ad = [] \<or> allowed (ad_AllowedHostSubstr ad) n) \<and>
      rq_url q = buildUpstreamURL (URL n) (ad_Tail ad) query \<and> rq_body q = ad_Body ad \<and>
      rq_method q = ad_Method ad \<and> query \<in> {[], in_query rq})"
proof (cases "Adapt network (ProtocolOf r network) (URL (hd candidates)) tail (in_method rq)
        (after_log (read_cap E) (in_body rq))")
  case (Inl p)
  with assms show ?thesis by (simp add: proxy_forward_def)
next
  case (Inr ad)
  let ?q = "if in_method rq = ''GET'' \<and> ad_Method ad = ''POST'' \<and> ad_Body ad \<noteq> [] then [] else in_query rq"
  let ?ns = "if ad_AllowedHostSubstr ad \<noteq> [] then filter (allowed (ad_AllowedHostSubstr ad)) candidates
    else candidates"
  let ?mk = "upstream_request tor (proxy_timeout r network (ProtocolOf r network)) ad
    (hset_all (in_hdr rq) (ad_Headers ad)) ?q"
  obtain res' v where l: "proxy_loop E network ?mk ?ns w = (res', v)" by fastforce
  have "sent w' = sent (if ?ns = [] then w else v)"
    using assms(1) Inr l
    by (auto simp: proxy_forward_def Let_def split: if_splits sum.splits option.splits)
  moreover obtain tried where "prefix tried ?ns" "sent v = sent w @ map ?mk tried"
    using proxy_loop_calls [OF l] by blast
  ultimately have "q \<in> set (sent w) \<union> ?mk ` set ?ns"
    using assms(2) set_mono_prefix [of tried ?ns] by (cases "?ns = []") auto
  then consider "q \<in> set (sent w)" | n where "n \<in> set ?ns" "q = ?mk n" by blast
  then show ?thesis
  proof cases
    case 2
    then have "n \<in> set candidates" "ad_AllowedHostSubstr ad = [] \<or> allowed (ad_AllowedHostSubstr ad) n"
      by (auto split: if_splits)
    with Inr 2 show ?thesis
      by (intro disjI2 exI [of _ ad] exI [of _ n] exI [of _ ?q]) simp
  qed blast
qed

section \<open>Properties\<close>

text \<open>
  (C15) Failover. The proxy asks the upstreams in order, each once. All those it asked before the one
  whose answer it passes on gave no answer, or one that limits the rate or is a 5xx; the answer it passes
  on is this upstream's own, as the log left it, and neither. Without such an answer all upstreams were
  asked and each of them turned the request down.
\<close>
theorem proxy_failover:
  assumes "proxy_loop E network mk ns w = (Inr res, w')"
  shows "case res of
      Some (n, rs) \<Rightarrow> \<exists>before after v answer. ns = before @ n # after
        \<and> sent w' = sent w @ map mk (before @ [n])
        \<and> (\<forall>i < length before. \<exists>u. sent u = sent w @ map mk (take i before) \<and> turned_down E (fst (client_do E (mk (before ! i)) u)))
        \<and> sent v = sent w @ map mk before \<and> fst (client_do E (mk n) v) = Got answer
        \<and> rs = answer\<lparr>rs_body := after_log (read_cap E) (rs_body answer)\<rparr>
        \<and> \<not> isRateLimited rs \<and> rs_status rs < 500
    | None \<Rightarrow> sent w' = sent w @ map mk ns
        \<and> (\<forall>i < length ns. \<exists>u. sent u = sent w @ map mk (take i ns) \<and> turned_down E (fst (client_do E (mk (ns ! i)) u)))"
proof (cases res)
  case (Some x)
  obtain n rs where x: "res = Some (n, rs)" using Some by (cases x) simp
  from proxy_loop_result [OF assms] obtain pre post v answer where
    "ns = pre @ n # post" "sent w' = sent w @ map mk (pre @ [n])" "all_bad E (turned_down E) mk w pre" "sent v = sent w @ map mk pre"
    "fst (client_do E (mk n) v) = Got answer" "rs = logged_answer E answer" "\<not> refused rs"
    unfolding x by auto
  then show ?thesis unfolding x option.case prod.case all_bad_def logged_answer_def refused_def not_le de_Morgan_disj
    by blast
qed (use proxy_loop_result [OF assms] in \<open>simp add: all_bad_def\<close>)

text \<open>
  (C16) Where a proxied request can go: to best nodes of the network only, to those only that the
  adapter allows, and to a URL that extends the node's URL by a path or a query, whatever the client
  puts into its path and query.
\<close>
theorem proxy_stays_on_nodes:
  assumes "proxy_forward E r tor network tail (reg_Best r network) rq w = (res, w')"
    and "q \<in> set (sent w')" "q \<notin> set (sent w)"
  shows "\<exists>n \<in> set (reg_Best r network). \<exists>rest.
    rq_url q = TrimRight (URL n) ''/'' @ rest \<and> (rest = [] \<or> hd rest \<in> {CHR ''/'', CHR ''?''})
    \<and> (\<exists>ad. Adapt network (ProtocolOf r network) (URL (hd (reg_Best r network))) tail (in_method rq)
          (after_log (read_cap E) (in_body rq)) = Inr ad
        \<and> (ad_AllowedHostSubstr ad = [] \<or> allowed (ad_AllowedHostSubstr ad) n)
        \<and> rq_method q = ad_Method ad \<and> rq_body q = ad_Body ad)"
proof -
  from proxy_forward_calls [OF assms(1,2)] assms(3) obtain ad n query where
    a: "Adapt network (ProtocolOf r network) (URL (hd (reg_Best r network))) tail (in_method rq)
        (after_log (read_cap E) (in_body rq)) = Inr ad" "n \<in> set (reg_Best r network)"
      "ad_AllowedHostSubstr ad = [] \<or> allowed (ad_AllowedHostSubstr ad) n"
      "rq_url q = buildUpstreamURL (URL n) (ad_Tail ad) query" "rq_body q = ad_Body ad"
      "rq_method q = ad_Method ad"
    by blast
  obtain rest where "rq_url q = TrimRight (URL n) ''/'' @ rest"
    "rest = [] \<or> hd rest \<in> {CHR ''/'', CHR ''?''}"
    unfolding a(4) by (rule buildUpstreamURL_prefix)
  with a show ?thesis by blast
qed

text \<open>
  (C18) The books of the proxy. A request that an upstream answered adds one success and one failure for
  every upstream that was asked before it. One that all upstreams failed adds a failure for each of
  them and one more for itself, so that the counter of failed proxy calls grows by \<open>n + 1\<close> for a call
  with \<open>n\<close> upstreams; one for which no upstream is allowed adds nothing. No other value changes.
\<close>
theorem proxy_accounting:
  assumes "proxy_forward E r tor network tail candidates rq w = (Inr rs, w')"
  shows "let n = int (length (sent w')) - int (length (sent w)) in
    added ProxySuccess network w w' = (if rs_status rs < 500 then 1 else 0)
    \<and> added ProxyFail network w w' = (if rs_status rs < 500 then n - 1 else if n = 0 then 0 else n + 1)
    \<and> (\<forall>m l. l \<noteq> network \<or> m \<notin> {ProxySuccess, ProxyFail} \<longrightarrow> added m l w w' = 0)"
proof -
  obtain ad where ad: "Adapt network (ProtocolOf r network) (URL (hd candidates)) tail (in_method rq)
      (after_log (read_cap E) (in_body rq)) = Inr ad"
    using assms by (cases "Adapt network (ProtocolOf r network) (URL (hd candidates)) tail (in_method rq)
      (after_log (read_cap E) (in_body rq))") (simp_all add: proxy_forward_def)
  let ?q = "if in_method rq = ''GET'' \<and> ad_Method ad = ''POST'' \<and> ad_Body ad \<noteq> [] then [] else in_query rq"
  let ?ns = "if ad_AllowedHostSubstr ad \<noteq> [] then filter (allowed (ad_AllowedHostSubstr ad)) candidates
    else candidates"
  let ?mk = "upstream_request tor (proxy_timeout r network (ProtocolOf r network)) ad
    (hset_all (in_hdr rq) (ad_Headers ad)) ?q"
  show ?thesis
  proof (cases "?ns = []")
    case True
    with assms ad have "w' = w" "rs_status rs = 503"
      by (auto simp: proxy_forward_def Let_def http_error_def split: if_splits)
    then show ?thesis by simp
  next
    case False
    obtain res v where l: "proxy_loop E network ?mk ?ns w = (res, v)" by fastforce
    consider n where "res = Inr (Some (n, rs))" "w' = v"
      | "res = Inr None" "w' = count ProxyFail network v" "rs_status rs = 502"
      using assms ad False l
      by (auto simp: proxy_forward_def Let_def http_error_def split: if_splits sum.splits option.splits)
    then show ?thesis
    proof cases
      case 1
      with l have l: "proxy_loop E network ?mk ?ns w = (Inr (Some (n, rs)), w')" by simp
      from proxy_loop_result [OF l] have "rs_status rs < 500" by (auto simp: refused_def)
      then show ?thesis by (simp add: proxy_loop_meters [OF l])
    next
      case 2
      with l have l: "proxy_loop E network ?mk ?ns w = (Inr None, v)" by simp
      from proxy_loop_result [OF l] False have "length (sent w) < length (sent v)" by simp
      then show ?thesis using 2 by (simp add: proxy_loop_meters [OF l])
    qed
  qed
qed

text \<open>
  (C40) A long request body does not reach the upstreams as the client sent it. Where the slice of
  \<open>io.ReadAll\<close> has room for it, the log's truncation mark overwrites bytes 4096 to 4110, and what is
  sent to each upstream of a network without an adapter, at every attempt, is a text the client did not
  send.
\<close>
theorem long_body_corrupted:
  assumes "proxy_forward E r tor network tail candidates rq w = (res, w')"
    and "ToLower network \<notin> {''trx'', ''btc'', ''sol'', ''doge'', ''ltc''}" "\<not> EqualFold (ProtocolOf r network) ''evm''"
    and "4111 \<le> length (in_body rq)" "4111 \<le> read_cap E (length (in_body rq))"
    and "q \<in> set (sent w')" "q \<notin> set (sent w)"
  shows "rq_body q = take 4096 (in_body rq) @ ''... [truncated]'' @ drop 4111 (in_body rq)"
proof -
  from proxy_forward_calls [OF assms(1,6)] assms(7) obtain ad where
    a: "Adapt network (ProtocolOf r network) (URL (hd candidates)) tail (in_method rq)
        (after_log (read_cap E) (in_body rq)) = Inr ad" "rq_body q = ad_Body ad" by blast
  with assms(2,3) have "rq_body q = after_log (read_cap E) (in_body rq)"
    by (auto simp: Adapt_def Let_def passed_def)
  also have "\<dots> = take 4096 (in_body rq) @ ''... [truncated]'' @ drop 4111 (in_body rq)"
    using assms(4,5) by (simp add: after_log_long truncated_mark_def)
  finally show ?thesis .
qed

subsection \<open>Instances\<close>

text \<open>A network of an unknown protocol; its first node fails with a 500, its second answers.\<close>

definition other_registry :: registry where
  "other_registry = [''n'' \<mapsto> sample_network\<lparr>st_Protocol := ''x'',
     st_Best := [mk_ping (plain_node ''a'' 1) True 1, mk_ping (plain_node ''b'' 2) True 1]\<rparr>]"

definition failing_first :: env where
  "failing_first = (answering (\<lambda>rq. reply_with (if rq_url rq = ''a'' then 500 else 200) []))
     \<lparr>read_cap := (\<lambda>n. 2 * n)\<rparr>"

definition get_root :: "string \<Rightarrow> incoming" where
  "get_root b =
     \<lparr>in_method = ''GET'', in_escaped = ''/n'', in_path = ''/n'', in_query = [], in_param = (\<lambda>_. []), in_hdr = hempty, in_body = b\<rparr>"

definition to_root :: "NodeWithPing \<Rightarrow> request" where
  "to_root = upstream_request [] 1 (passed [] ''GET'' [] []) hempty []"

lemma to_root_url: "URL n \<in> {''a'', ''b''} \<Longrightarrow> rq_url (to_root n) = URL n"
  by (auto simp: to_root_def passed_def buildUpstreamURL_def TrimRight_def)

lemma not_refused: "rs_status rs = 200 \<Longrightarrow> rs_hdr rs = hempty \<Longrightarrow> rs_body rs = [] \<Longrightarrow> \<not> refused rs"
  by (cases rs) (simp add: refused_def isRateLimited_def TrimSpace_def Trim_def TrimLeft_def TrimRight_def
      EqualFold_def)

lemma failing_first_send:
  "send failing_first rq w = Inr (reply_with (if rq_url rq = ''a'' then 500 else 200) [],
     w\<lparr>sent := sent w @ [rq], clock := clock w\<rparr>)"
  by (simp add: failing_first_def send_def client_do_def)

theorem proxy_failover_witness:
  "\<exists>rs w'. proxy_loop failing_first ''n'' to_root [mk_ping (plain_node ''a'' 1) True 1, mk_ping (plain_node ''b'' 2) True 1] new_world
      = (Inr (Some (mk_ping (plain_node ''b'' 2) True 1, rs)), w') \<and> rs_status rs < 500"
proof -
  let ?b = "mk_ping (plain_node ''b'' 2) True 1" and ?rs = "\<lparr>rs_status = 200, rs_hdr = hempty, rs_body = []\<rparr>"
  have "refused (logged_answer failing_first \<lparr>rs_status = 500, rs_hdr = hempty, rs_body = []\<rparr>)"
    by (simp add: refused_def logged_answer_def)
  moreover have "logged_answer failing_first ?rs = ?rs" by (simp add: logged_answer_def)
  ultimately obtain w' where run: "proxy_loop failing_first ''n'' to_root
      [mk_ping (plain_node ''a'' 1) True 1, ?b] new_world = (Inr (Some (?b, ?rs)), w')"
    by (simp add: proxy_loop.simps failing_first_send to_root_url reply_with_def not_refused)
  from proxy_failover [OF this] have "rs_status ?rs < 500" by auto
  with run show ?thesis by blast
qed

lemma failing_first_sends: "sent (snd (proxy_loop failing_first network mk (n # ns) w)) \<noteq> []"
proof -
  have more: "sent v \<noteq> [] \<Longrightarrow> sent (snd (proxy_loop failing_first network mk ns v)) \<noteq> []" for v
    using proxy_loop_calls [of failing_first network mk ns v] by (metis append_is_Nil_conv prod.collapse)
  show ?thesis
    by (simp add: proxy_loop.simps failing_first_send reply_with_def more)
qed

lemma other_sends:
  assumes "ns \<noteq> []"
  obtains q where "q \<in> set (sent (snd (proxy_forward failing_first other_registry [] ''n'' [] ns (get_root b) new_world)))"
proof -
  have "ToLower ''n'' = ''n''" "ToLower ''x'' = ''x''" by code_simp+
  then have ad: "Adapt ''n'' (ProtocolOf other_registry ''n'') u [] ''GET'' x = Inr (passed [] ''GET'' x [])" for u x
    by (simp add: Adapt_def ProtocolOf_def other_registry_def EqualFold_def ToLower_def lower_char_def)
  obtain n ns' where ns: "ns = n # ns'" using assms by (cases ns) auto
  have "\<exists>mk. snd (proxy_forward failing_first other_registry [] ''n'' [] ns (get_root b) new_world)
      \<in> {snd (proxy_loop failing_first ''n'' mk ns new_world),
          count ProxyFail ''n'' (snd (proxy_loop failing_first ''n'' mk ns new_world))}"
    unfolding proxy_forward_def get_root_def incoming.simps ad passed_def Let_def adapted.simps sum.case
    by (rule exI [of _ "upstream_request [] (proxy_timeout other_registry ''n'' (ProtocolOf other_registry ''n''))
        \<lparr>ad_Tail = [], ad_Method = ''GET'', ad_Body = after_log (read_cap failing_first) b, ad_Headers = [],
         ad_AllowedHostSubstr = []\<rparr> hempty []"]) (use assms in \<open>auto split: prod.split sum.split option.split\<close>)
  then have "sent (snd (proxy_forward failing_first other_registry [] ''n'' [] ns (get_root b) new_world)) \<noteq> []"
    by (auto simp: ns failing_first_sends)
  with that show thesis by (metis all_not_in_conv set_empty)
qed

theorem proxy_stays_on_nodes_witness:
  "\<exists>q rest. q \<in> set (sent (snd (proxy_forward failing_first other_registry [] ''n'' []
       (reg_Best other_registry ''n'') (get_root []) new_world)))
     \<and> (rq_url q = ''a'' @ rest \<or> rq_url q = ''b'' @ rest)"
proof -
  let ?F = "proxy_forward failing_first other_registry [] ''n'' [] (reg_Best other_registry ''n'') (get_root []) new_world"
  have "reg_Best other_registry ''n'' \<noteq> []" by (simp add: reg_Best_def other_registry_def)
  then obtain q where q: "q \<in> set (sent (snd ?F))" by (rule other_sends)
  then have "\<exists>n \<in> set (reg_Best other_registry ''n''). \<exists>rest. rq_url q = TrimRight (URL n) ''/'' @ rest"
    using proxy_stays_on_nodes [of failing_first other_registry "[]" "''n''" "[]" "get_root []" new_world "fst ?F" "snd ?F" q]
    by auto
  then have "\<exists>rest. rq_url q = ''a'' @ rest \<or> rq_url q = ''b'' @ rest"
    by (auto simp: reg_Best_def other_registry_def TrimRight_def)
  with q show ?thesis by blast
qed

text \<open>Both upstreams refuse: three failures for one call.\<close>

definition all_failing :: env where
  "all_failing = answering (\<lambda>rq. reply_with 500 [])"

theorem proxy_accounting_witness:
  "added ProxyFail ''n'' new_world (snd (proxy_forward all_failing other_registry [] ''n'' []
     (reg_Best other_registry ''n'') (get_root []) new_world)) = 3"
proof -
  let ?ns = "reg_Best other_registry ''n''"
  have low: "ToLower ''n'' = ''n''" "ToLower ''x'' = ''x''" by code_simp+
  then have ad: "Adapt ''n'' (ProtocolOf other_registry ''n'') u [] ''GET'' x = Inr (passed [] ''GET'' x [])" for u x
    by (simp add: Adapt_def ProtocolOf_def other_registry_def EqualFold_def ToLower_def lower_char_def)
  have step: "proxy_loop all_failing ''n'' mk (n # ns) w
      = proxy_loop all_failing ''n'' mk ns (count ProxyFail ''n'' (w\<lparr>sent := sent w @ [mk n], clock := clock w + 0\<rparr>))" for mk n ns w
    by (simp add: proxy_loop.simps all_failing_def send_def client_do_def reply_with_def refused_def logged_answer_def)
  have two: "length ?ns = 2" "?ns \<noteq> []" by (simp_all add: reg_Best_def other_registry_def)
  have none: "\<exists>v. proxy_loop all_failing ''n'' mk ?ns new_world = (Inr None, v) \<and> length (sent v) = 2" for mk
    by (simp add: reg_Best_def other_registry_def step)
  obtain w' where run: "proxy_forward all_failing other_registry [] ''n'' [] ?ns (get_root []) new_world
      = (Inr (http_error ''all upstreams failed'' 502), w')" "length (sent w') = 2"
  proof -
    let ?mk = "upstream_request [] (proxy_timeout other_registry ''n'' (ProtocolOf other_registry ''n''))
      (passed [] ''GET'' (after_log (read_cap all_failing) []) []) (hset_all hempty []) []"
    obtain v where v: "proxy_loop all_failing ''n'' ?mk ?ns new_world = (Inr None, v)" "length (sent v) = 2"
      using none by blast
    have "proxy_forward all_failing other_registry [] ''n'' [] ?ns (get_root []) new_world
      = (Inr (http_error ''all upstreams failed'' 502), count ProxyFail ''n'' v)"
      using v(1) two(2) ad
      by (simp add: proxy_forward_def get_root_def Let_def) (simp add: passed_def)
    with v(2) that show thesis by simp
  qed
  from proxy_accounting [OF run(1)] have "added ProxyFail ''n'' new_world w' = 3"
    using run(2) by (simp add: http_error_def Let_def)
  with run(1) show ?thesis by simp
qed

theorem long_body_corrupted_witness:
  "\<exists>q. q \<in> set (sent (snd (proxy_forward failing_first other_registry [] ''n'' []
       (reg_Best other_registry ''n'') (get_root (replicate 5000 (CHR ''x''))) new_world)))
     \<and> rq_body q = replicate 4096 (CHR ''x'') @ ''... [truncated]'' @ replicate 889 (CHR ''x'')"
proof -
  define b where "b = replicate 5000 (CHR ''x'')"
  have l: "length b = 5000" by (simp only: b_def length_replicate)
  have t: "take 4096 b = replicate 4096 (CHR ''x'')" "drop 4111 b = replicate 889 (CHR ''x'')"
    unfolding b_def take_replicate drop_replicate by (rule arg_cong [where f = "\<lambda>n. replicate n (CHR ''x'')"], simp)+
  let ?ns = "reg_Best other_registry ''n''"
  let ?F = "proxy_forward failing_first other_registry [] ''n'' [] ?ns (get_root b) new_world"
  obtain q where q: "q \<in> set (sent (snd ?F))"
    by (rule other_sends [of ?ns b]) (simp add: reg_Best_def other_registry_def)
  have "ToLower ''n'' = ''n''" "ToLower ''x'' = ''x''" by code_simp+
  then have n: "ToLower ''n'' \<notin> {''trx'', ''btc'', ''sol'', ''doge'', ''ltc''}"
    "\<not> EqualFold (ProtocolOf other_registry ''n'') ''evm''"
    by (simp_all add: ProtocolOf_def other_registry_def EqualFold_def ToLower_def lower_char_def)
  have i: "in_body (get_root b) = b" "4111 \<le> length b" "4111 \<le> read_cap failing_first (length b)"
    by (simp_all add: get_root_def l failing_first_def)
  have "rq_body q = take 4096 b @ ''... [truncated]'' @ drop 4111 b"
    using long_body_corrupted [of failing_first other_registry "[]" "''n''" "[]" ?ns
        "get_root b" new_world "fst ?F" "snd ?F" q] n q
    by (simp only: i prod.collapse new_world_simps list.set) blast
  with q show ?thesis unfolding b_def [symmetric] t [symmetric] by blast
qed

end
