(* ===== verification/Websocket.thy ===== *)
theory Websocket
  imports Registry Secrets
begin

text \<open>
  pkg/api/ws.go: the choice of the upstream, and the two loops that copy messages between the client
  and the upstream. The connections are those of the package gorilla/websocket: a reader gets the
  messages of the peer in the order they were sent, an operation may fail at any time, and every
  operation on a connection this side has closed fails. The loops are goroutines, so the relay is
  a step relation, with the peers' messages and departures as steps of the outside.
\<close>

section \<open>Before the relay\<close>

text \<open>\<open>ServeWS\<close> up to the upgrade: the error it writes, or the upstream it is going to dial.\<close>

definition ws_network :: "incoming \<Rightarrow> string" where
  "ws_network rq = hd (Split (TrimPrefix (in_path rq) ''/ws/'') (CHR ''/''))"

definition ws_upstream :: "registry \<Rightarrow> incoming \<Rightarrow> response + string" where
  "ws_upstream r rq =
     (let nodes = reg_Best r (ws_network rq)
      in if nodes = [] then Inl (http_error ''no healthy nodes'' 503)
         else let upstream = URL (hd nodes)
         in if \<not> HasPrefix upstream ''ws'' then Inl (http_error ''upstream is not websocket'' 502)
            else Inr upstream)"

text \<open>
  What \<open>ServeWS\<close> comes to. \<open>upgrade\<close> and \<open>dial\<close> tell whether the upgrade of the client's connection
  and the dialling of the upstream succeed; the client's connection is closed when the latter fails.
  Each outcome but the first is counted.
\<close>

datatype ws_outcome = Ws_error response | Ws_no_upgrade | Ws_no_upstream | Ws_relay string

definition ServeWS ::
  "(incoming \<Rightarrow> bool) \<Rightarrow> (string \<Rightarrow> bool) \<Rightarrow> registry \<Rightarrow> incoming \<Rightarrow> world \<Rightarrow> ws_outcome \<times> world" where
  "ServeWS upgrade dial r rq w =
     (case ws_upstream r rq of
        Inl rs \<Rightarrow> (Ws_error rs, w)
      | Inr upstream \<Rightarrow>
          if \<not> upgrade rq then (Ws_no_upgrade, count WSError (ws_network rq) w)
          else if \<not> dial upstream then (Ws_no_upstream, count WSError (ws_network rq) w)
          else (Ws_relay upstream, count WSConnected (ws_network rq) w))"

section \<open>The relay\<close>

datatype message_type = TextMessage | BinaryMessage

type_synonym message = "message_type \<times> string"

text \<open>Where a copying loop is: about to read, about to write what it read, or returned.\<close>

datatype copier = Reading | Writing message | Stopped

text \<open>One direction: what the peer sent, what is not read yet, what was written to the other side.\<close>

record channel =
  ch_sent :: "message list"
  ch_queue :: "message list"
  ch_written :: "message list"
  ch_loop :: copier

record relay =
  rl_up :: channel
  rl_down :: channel
  rl_client_gone :: bool
  rl_upstream_gone :: bool
  rl_closed :: bool
  rl_log :: "string list"
  rl_errors :: nat

definition idle_channel :: channel where
  "idle_channel = \<lparr>ch_sent = [], ch_queue = [], ch_written = [], ch_loop = Reading\<rparr>"

definition relay_start :: relay where
  "relay_start =
     \<lparr>rl_up = idle_channel, rl_down = idle_channel, rl_client_gone = False, rl_upstream_gone = False,
      rl_closed = False, rl_log = [], rl_errors = 0\<rparr>"

definition arrive :: "message \<Rightarrow> channel \<Rightarrow> channel" where
  "arrive m c = c\<lparr>ch_sent := ch_sent c @ [m], ch_queue := ch_queue c @ [m]\<rparr>"

definition take_up :: "channel \<Rightarrow> channel" where
  "take_up c = c\<lparr>ch_queue := tl (ch_queue c), ch_loop := Writing (hd (ch_queue c))\<rparr>"

definition pass_on :: "message \<Rightarrow> channel \<Rightarrow> channel" where
  "pass_on m c = c\<lparr>ch_written := ch_written c @ [m], ch_loop := Reading\<rparr>"

definition stop :: "channel \<Rightarrow> channel" where
  "stop c = c\<lparr>ch_loop := Stopped\<rparr>"

text \<open>
  What the loop from the client logs: a text message that mentions a subscription, redacted; one
  line for each of the two words. \<open>redact\<close> is \<open>secrets.RedactString\<close>.
\<close>

definition subscription_log :: "(string \<Rightarrow> string) \<Rightarrow> message \<Rightarrow> string list" where
  "subscription_log redact m =
     (if fst m = TextMessage
      then (if Contains (snd m) ''eth_subscribe'' then [redact (snd m)] else [])
             @ (if Contains (snd m) ''eth_unsubscribe'' then [redact (snd m)] else [])
      else [])"

text \<open>
  The steps. The peers act until they leave. A read takes the next message or fails; a message that
  had arrived may still be read after the handler has closed both connections, but not written. When
  the loop from the upstream stops, the handler returns, and its deferred calls close both
  connections; when the loop from the client stops, nothing is closed. Each loop counts an error of the
  network (\<open>WSError\<close>) when it stops.
\<close>

inductive relay_step :: "(string \<Rightarrow> string) \<Rightarrow> relay \<Rightarrow> relay \<Rightarrow> bool" for redact where
  client_sends: "\<not> rl_client_gone s \<Longrightarrow> relay_step redact s (s\<lparr>rl_up := arrive m (rl_up s)\<rparr>)"
| client_leaves: "relay_step redact s (s\<lparr>rl_client_gone := True\<rparr>)"
| upstream_sends: "\<not> rl_upstream_gone s \<Longrightarrow> relay_step redact s (s\<lparr>rl_down := arrive m (rl_down s)\<rparr>)"
| upstream_leaves: "relay_step redact s (s\<lparr>rl_upstream_gone := True\<rparr>)"
| up_reads: "ch_loop (rl_up s) = Reading \<Longrightarrow> ch_queue (rl_up s) \<noteq> [] \<Longrightarrow>
    relay_step redact s (s\<lparr>rl_up := take_up (rl_up s),
      rl_log := rl_log s @ subscription_log redact (hd (ch_queue (rl_up s)))\<rparr>)"
| up_fails: "ch_loop (rl_up s) \<noteq> Stopped \<Longrightarrow> relay_step redact s (s\<lparr>rl_up := stop (rl_up s), rl_errors := Suc (rl_errors s)\<rparr>)"
| up_writes: "ch_loop (rl_up s) = Writing m \<Longrightarrow> \<not> rl_closed s \<Longrightarrow>
    relay_step redact s (s\<lparr>rl_up := pass_on m (rl_up s)\<rparr>)"
| down_reads: "ch_loop (rl_down s) = Reading \<Longrightarrow> \<not> rl_closed s \<Longrightarrow> ch_queue (rl_down s) \<noteq> [] \<Longrightarrow>
    relay_step redact s (s\<lparr>rl_down := take_up (rl_down s)\<rparr>)"
| down_fails: "ch_loop (rl_down s) \<noteq> Stopped \<Longrightarrow>
    relay_step redact s (s\<lparr>rl_down := stop (rl_down s), rl_closed := True, rl_errors := Suc (rl_errors s)\<rparr>)"
| down_writes: "ch_loop (rl_down s) = Writing m \<Longrightarrow> \<not> rl_closed s \<Longrightarrow>
    relay_step redact s (s\<lparr>rl_down := pass_on m (rl_down s)\<rparr>)"

inductive_cases relay_stepE: "relay_step redact s t"

inductive relayed :: "(string \<Rightarrow> string) \<Rightarrow> relay \<Rightarrow> relay \<Rightarrow> bool" for redact s where
  relayed_start: "relayed redact s s"
| relayed_step: "relayed redact s t \<Longrightarrow> relay_step redact t u \<Longrightarrow> relayed redact s u"

lemma relayed_trans: "relayed redact s t \<Longrightarrow> relayed redact t u \<Longrightarrow> relayed redact s u"
  by (rotate_tac, induction rule: relayed.induct) (auto intro: relayed_step)

section \<open>The messages\<close>

text \<open>
  Every message a peer sent is written, in the hands of the loop, or waiting; the loop drops the one
  in its hands when the write fails.
\<close>

definition in_hand :: "channel \<Rightarrow> message list" where
  "in_hand c = (case ch_loop c of Writing m \<Rightarrow> [m] | _ \<Rightarrow> [])"

definition channel_ok :: "channel \<Rightarrow> bool" where
  "channel_ok c \<longleftrightarrow> (\<exists>lost. ch_sent c = ch_written c @ in_hand c @ lost @ ch_queue c
     \<and> (ch_loop c \<noteq> Stopped \<longrightarrow> lost = []))"

lemma channel_ok_steps:
  "channel_ok c \<Longrightarrow> channel_ok (arrive m c)"
  "channel_ok c \<Longrightarrow> ch_loop c = Reading \<Longrightarrow> ch_queue c \<noteq> [] \<Longrightarrow> channel_ok (take_up c)"
  "channel_ok c \<Longrightarrow> channel_ok (stop c)"
  "channel_ok c \<Longrightarrow> ch_loop c = Writing m \<Longrightarrow> channel_ok (pass_on m c)"
  by (auto simp: channel_ok_def in_hand_def arrive_def take_up_def stop_def pass_on_def split: copier.splits)

lemma channel_ok_prefix: "channel_ok c \<Longrightarrow> prefix (ch_written c) (ch_sent c)"
  by (auto simp: channel_ok_def)

definition relay_ok :: "(string \<Rightarrow> string) \<Rightarrow> relay \<Rightarrow> bool" where
  "relay_ok redact s \<longleftrightarrow> channel_ok (rl_up s) \<and> channel_ok (rl_down s)
     \<and> (rl_closed s \<longleftrightarrow> ch_loop (rl_down s) = Stopped)
     \<and> (\<forall>l \<in> set (rl_log s). \<exists>m \<in> set (ch_sent (rl_up s)). fst m = TextMessage \<and> l = redact (snd m))"

lemma relay_ok_start: "relay_ok redact relay_start"
  by (simp add: relay_ok_def relay_start_def idle_channel_def channel_ok_def in_hand_def)

lemma channel_ok_queue: "channel_ok c \<Longrightarrow> m \<in> set (ch_queue c) \<Longrightarrow> m \<in> set (ch_sent c)"
  by (auto simp: channel_ok_def)

lemma relay_ok_step: "relay_step redact s t \<Longrightarrow> relay_ok redact s \<Longrightarrow> relay_ok redact t"
proof (induction rule: relay_step.induct)
  case (up_reads s)
  then have "hd (ch_queue (rl_up s)) \<in> set (ch_sent (rl_up s))"
    by (intro channel_ok_queue) (simp_all add: relay_ok_def)
  with up_reads show ?case
    by (auto simp: relay_ok_def subscription_log_def channel_ok_steps) (auto simp: take_up_def)
qed (auto simp: relay_ok_def channel_ok_steps, auto simp: arrive_def stop_def take_up_def pass_on_def)

lemma relay_ok: "relayed redact relay_start s \<Longrightarrow> relay_ok redact s"
  by (induction rule: relayed.induct) (auto intro: relay_ok_start relay_ok_step)

text \<open>A loop that has stopped writes nothing, and after the handler has returned nothing is written.\<close>

lemma up_stopped_step:
  "relay_step redact s t \<Longrightarrow> ch_loop (rl_up s) = Stopped \<Longrightarrow>
     ch_loop (rl_up t) = Stopped \<and> ch_written (rl_up t) = ch_written (rl_up s)"
  by (induction rule: relay_step.induct) (auto simp: arrive_def)

lemma up_stopped:
  "relayed redact s t \<Longrightarrow> ch_loop (rl_up s) = Stopped \<Longrightarrow>
     ch_loop (rl_up t) = Stopped \<and> ch_written (rl_up t) = ch_written (rl_up s)"
  by (induction rule: relayed.induct) (auto dest: up_stopped_step)

lemma closed_step:
  "relay_step redact s t \<Longrightarrow> rl_closed s \<Longrightarrow>
     rl_closed t \<and> ch_written (rl_up t) = ch_written (rl_up s) \<and> ch_written (rl_down t) = ch_written (rl_down s)"
  by (induction rule: relay_step.induct) (auto simp: arrive_def take_up_def stop_def)

lemma closed_forever:
  "relayed redact s t \<Longrightarrow> rl_closed s \<Longrightarrow>
     rl_closed t \<and> ch_written (rl_up t) = ch_written (rl_up s) \<and> ch_written (rl_down t) = ch_written (rl_down s)"
  by (induction rule: relayed.induct) (auto dest: closed_step)

section \<open>Properties\<close>

text \<open>
  (C33) What the relay writes to one side is, in order, a beginning of what the other side sent: it
  invents, repeats and reorders nothing. What it logs are text messages of the client, redacted.
\<close>
theorem relay_in_order:
  assumes "relayed redact relay_start s"
  shows "prefix (ch_written (rl_up s)) (ch_sent (rl_up s)) \<and> prefix (ch_written (rl_down s)) (ch_sent (rl_down s))
    \<and> set (rl_log s) \<subseteq> redact ` snd ` {m \<in> set (ch_sent (rl_up s)). fst m = TextMessage}"
  using relay_ok [OF assms] by (fastforce simp: relay_ok_def channel_ok_prefix)

text \<open>
  (C34) The relay is closed by the upstream only. When the client has gone and the loop that read from
  it has returned, no step of the program ends the session while the upstream is silent: the steps
  left are a message or the departure of the upstream and the failure of its connection. Nothing the
  client sent later is written.
\<close>
theorem client_leak:
  assumes "relayed redact relay_start s" "ch_loop (rl_up s) = Stopped" "rl_client_gone s"
    and "ch_loop (rl_down s) = Reading" "ch_queue (rl_down s) = []"
  shows "\<not> rl_closed s
    \<and> {t. relay_step redact s t} \<subseteq> {s, s\<lparr>rl_upstream_gone := True\<rparr>, s\<lparr>rl_down := stop (rl_down s), rl_closed := True, rl_errors := Suc (rl_errors s)\<rparr>}
        \<union> range (\<lambda>m. s\<lparr>rl_down := arrive m (rl_down s)\<rparr>)
    \<and> (\<forall>t. relayed redact s t \<longrightarrow> ch_written (rl_up t) = ch_written (rl_up s))"
proof -
  have "\<not> rl_closed s" using relay_ok [OF assms(1)] assms(4) by (simp add: relay_ok_def)
  moreover have "relay_step redact s t \<Longrightarrow> t = s \<or> t = s\<lparr>rl_upstream_gone := True\<rparr>
      \<or> t = s\<lparr>rl_down := stop (rl_down s), rl_closed := True, rl_errors := Suc (rl_errors s)\<rparr> \<or> (\<exists>m. t = s\<lparr>rl_down := arrive m (rl_down s)\<rparr>)" for t
    using assms(2-5) by (elim relay_stepE) auto
  ultimately show ?thesis using up_stopped assms(2) by blast
qed

text \<open>When the handler has returned, both connections stay closed and nothing more is written.\<close>

theorem relay_closed:
  assumes "relayed redact relay_start s" "ch_loop (rl_down s) = Stopped" "relayed redact s t"
  shows "rl_closed t \<and> ch_written (rl_up t) = ch_written (rl_up s) \<and> ch_written (rl_down t) = ch_written (rl_down s)"
  using relay_ok [OF assms(1)] assms(2,3) closed_forever by (auto simp: relay_ok_def)

text \<open>
  Every session ends as an error, also when both sides closed it in good order: one for the loop from
  the upstream, and one more when the loop from the client has noticed.
\<close>
theorem session_errors:
  assumes "relayed redact relay_start s"
  shows "rl_errors s = (if ch_loop (rl_up s) = Stopped then 1 else 0) + (if rl_closed s then 1 else 0)"
proof -
  have step: "rl_errors t = (if ch_loop (rl_up t) = Stopped then 1 else 0) + (if ch_loop (rl_down t) = Stopped then 1 else 0)"
    if "relayed redact relay_start t" for t
    using that
  proof (induction rule: relayed.induct)
    case (relayed_step t u)
    from relayed_step(2,3) show ?case
      by (induction rule: relay_step.induct) (auto simp: arrive_def take_up_def pass_on_def stop_def)
  qed (simp add: relay_start_def idle_channel_def)
  from step [OF assms] relay_ok [OF assms] show ?thesis by (simp add: relay_ok_def)
qed

text \<open>What \<open>ServeWS\<close> adds: a connection, or an error, or nothing.\<close>

lemma ServeWS_meters:
  assumes "ServeWS upgrade dial r rq w = (out, w')"
  shows "sent w' = sent w" "clock w' = clock w"
    "reading (meters w') m l - reading (meters w) m l =
       (if l \<noteq> ws_network rq then 0
        else if m = WSConnected then (case out of Ws_relay _ \<Rightarrow> 1 | _ \<Rightarrow> 0)
        else if m = WSError then (if out \<in> {Ws_no_upgrade, Ws_no_upstream} then 1 else 0) else 0)"
  using assms by (auto simp: ServeWS_def split: sum.splits if_splits)

subsection \<open>Instances\<close>

text \<open>A session: the client subscribes, the message is relayed, the client leaves.\<close>

definition subscribe :: message where
  "subscribe = (TextMessage, ''eth_subscribe'')"

definition after_subscribe :: relay where
  "after_subscribe = relay_start\<lparr>rl_up := pass_on subscribe (take_up (arrive subscribe idle_channel)),
     rl_log := subscription_log id subscribe\<rparr>"

lemma reach_subscribe: "relayed id relay_start after_subscribe"
proof -
  let ?s1 = "relay_start\<lparr>rl_up := arrive subscribe idle_channel\<rparr>"
  let ?s2 = "?s1\<lparr>rl_up := take_up (arrive subscribe idle_channel), rl_log := subscription_log id subscribe\<rparr>"
  have "relay_step id relay_start ?s1"
    using client_sends [of relay_start id subscribe] by (simp add: relay_start_def)
  moreover have "relay_step id ?s1 ?s2"
    using up_reads [of ?s1 id] by (simp add: relay_start_def arrive_def idle_channel_def)
  moreover have "relay_step id ?s2 after_subscribe"
    using up_writes [of ?s2 subscribe id]
    by (simp add: relay_start_def arrive_def idle_channel_def take_up_def after_subscribe_def)
  ultimately show ?thesis by (meson relayed_start relayed_step)
qed

definition after_leave :: relay where
  "after_leave = after_subscribe\<lparr>rl_client_gone := True, rl_up := stop (rl_up after_subscribe), rl_errors := 1\<rparr>"

lemma reach_leave: "relayed id relay_start after_leave"
proof -
  have "relay_step id after_subscribe (after_subscribe\<lparr>rl_client_gone := True\<rparr>)" by (rule client_leaves)
  moreover have "relay_step id (after_subscribe\<lparr>rl_client_gone := True\<rparr>) after_leave"
    using up_fails [of "after_subscribe\<lparr>rl_client_gone := True\<rparr>" id]
    by (simp add: after_leave_def) (simp add: after_subscribe_def pass_on_def relay_start_def)
  ultimately show ?thesis by (meson reach_subscribe relayed_step)
qed

lemma after_leave_simps:
  "ch_loop (rl_up after_leave) = Stopped" "rl_client_gone after_leave"
  "ch_loop (rl_down after_leave) = Reading" "ch_queue (rl_down after_leave) = []"
  "ch_written (rl_up after_leave) = [subscribe]" "rl_log after_leave = [''eth_subscribe'']"
  by (simp_all add: after_leave_def after_subscribe_def stop_def pass_on_def relay_start_def idle_channel_def
      take_up_def arrive_def subscription_log_def subscribe_def gostr sublist_code)

theorem relay_in_order_witness:
  "prefix [subscribe] (ch_sent (rl_up after_leave)) \<and> ''eth_subscribe'' \<in> snd ` set (ch_sent (rl_up after_leave))"
  using relay_in_order [OF reach_leave] by (auto simp: after_leave_simps)

theorem client_leak_witness:
  "\<not> rl_closed after_leave \<and> finite {t. relay_step id after_leave t \<and> rl_closed t}"
proof -
  note l = client_leak [OF reach_leave after_leave_simps(1-4)]
  then have "{t. relay_step id after_leave t \<and> rl_closed t}
      \<subseteq> {after_leave, after_leave\<lparr>rl_upstream_gone := True\<rparr>, after_leave\<lparr>rl_down := stop (rl_down after_leave), rl_closed := True, rl_errors := Suc (rl_errors after_leave)\<rparr>}"
    by auto
  with l finite_subset show ?thesis by blast
qed

end
