(* ===== verification/Mux.thy ===== *)
theory Mux
  imports Http
begin

text \<open>
  The routing of net/http as the program uses it: cmd/app puts a mux with plain patterns behind a mux
  that has the pattern / only. A pattern that ends in a slash matches the paths below it, any other
  only itself; the longest match wins. Patterns have no host, no method and no wildcard. A mux
  redirects a request for a path that is not clean, and one for \<open>p\<close> when only \<open>p/\<close> is a pattern.
\<close>

section \<open>Escaped paths\<close>

text \<open>
  Percent escapes; \<open>keep\<close> tells which characters stay escaped. A handler sees the path unescaped. The mux
  compares segment by segment, so for it an escaped slash is no separator.
\<close>

fun unescape :: "(char \<Rightarrow> bool) \<Rightarrow> string \<Rightarrow> string" where
  "unescape keep (c # a # b # r) =
     (case (if c = CHR ''%'' then (digit_val a, digit_val b) else (None, None)) of
        (Some p, Some q) \<Rightarrow>
          let d = char_of (16 * p + q) in if keep d then c # a # b # unescape keep r else d # unescape keep r
      | _ \<Rightarrow> c # unescape keep (a # b # r))"
| "unescape keep s = s"

definition PathUnescape :: "string \<Rightarrow> string" where
  "PathUnescape = unescape (\<lambda>_. False)"

definition mux_path :: "string \<Rightarrow> string" where
  "mux_path = unescape (\<lambda>d. d = CHR ''/'')"

lemma unescape_plain: "CHR ''%'' \<notin> set s \<Longrightarrow> unescape keep s = s"
  by (induction keep s rule: unescape.induct) auto

section \<open>Clean paths\<close>

text \<open>\<open>path.Clean\<close> of a rooted path, on its segments: \<open>acc\<close> are those that are left, the last first.\<close>

fun clean_segments :: "string list \<Rightarrow> string list \<Rightarrow> string list" where
  "clean_segments [] acc = rev acc"
| "clean_segments (s # ss) acc =
     (if s = [] \<or> s = ''.'' then clean_segments ss acc
      else if s = ''..'' then clean_segments ss (tl acc)
      else clean_segments ss (s # acc))"

definition path_Clean :: "string \<Rightarrow> string" where
  "path_Clean p = ''/'' @ Join (clean_segments (Split (tl p) (CHR ''/'')) []) ''/''"

definition cleanPath :: "string \<Rightarrow> string" where
  "cleanPath p =
     (let p = (if HasPrefix p ''/'' then p else ''/'' @ p); np = path_Clean p
      in if HasSuffix p ''/'' \<and> np \<noteq> ''/'' then np @ ''/'' else np)"

definition proper :: "string \<Rightarrow> bool" where
  "proper s \<longleftrightarrow> s \<notin> {[], ''.'', ''..''} \<and> CHR ''/'' \<notin> set s"

lemma clean_segments_proper:
  "list_all (\<lambda>s. CHR ''/'' \<notin> set s) ss \<Longrightarrow> list_all proper acc \<Longrightarrow> list_all proper (clean_segments ss acc)"
proof (induction ss acc rule: clean_segments.induct)
  case (2 s ss acc)
  have t: "list_all proper (tl acc)" using "2.prems"(2) by (cases acc) simp_all
  consider "s = [] \<or> s = ''.''" | "s = ''..''" | "s \<notin> {[], ''.'', ''..''}" by blast
  then show ?case
  proof cases
    case 1
    with 2 show ?thesis by simp
  next
    case 2
    with "2.IH"(2) "2.prems" t show ?thesis by simp
  next
    case 3
    with "2.IH"(3) "2.prems" show ?thesis by (simp add: proper_def)
  qed
qed (simp add: list_all_iff)

lemma clean_segments_id: "list_all proper ss \<Longrightarrow> clean_segments ss acc = rev acc @ ss"
  by (induction ss arbitrary: acc) (auto simp: proper_def)

lemma clean_segments_snoc: "clean_segments (ss @ [[]]) acc = clean_segments ss acc"
  by (induction ss acc rule: clean_segments.induct) auto

lemma Split_Join: "ss \<noteq> [] \<Longrightarrow> list_all (\<lambda>s. c \<notin> set s) ss \<Longrightarrow> Split (Join ss [c]) c = ss"
proof (induction ss)
  case (Cons s ss)
  then show ?case by (cases "ss = []") (simp_all add: Split_self Join_Cons Split_append_sep)
qed simp

text \<open>Every path is cleaned to the root, or to proper segments with or without a slash at the end.\<close>

lemma cleanPath_cases:
  obtains "cleanPath p = ''/''"
  | ss slash where "ss \<noteq> []" "list_all proper ss" "slash \<in> {[], ''/''}" "cleanPath p = ''/'' @ Join ss ''/'' @ slash"
proof -
  let ?p = "if HasPrefix p ''/'' then p else ''/'' @ p"
  let ?ss = "clean_segments (Split (tl ?p) (CHR ''/'')) []"
  have ss: "list_all proper ?ss"
    by (rule clean_segments_proper) (auto simp: list_all_iff dest: Split_no_sep)
  have c: "path_Clean ?p = ''/'' @ Join ?ss ''/''" by (simp add: path_Clean_def)
  show thesis
  proof (cases "?ss = []")
    case True
    with c that(1) show thesis by (simp add: cleanPath_def)
  next
    case False
    have "cleanPath p \<in> {''/'' @ Join ?ss ''/'', ''/'' @ Join ?ss ''/'' @ ''/''}"
      unfolding cleanPath_def Let_def c by auto
    with that(2) [OF False ss] show thesis by auto
  qed
qed

lemma Split_clean:
  assumes "ss \<noteq> []" "list_all proper ss"
  shows "Split (Join ss ''/'') (CHR ''/'') = ss" "Split (Join ss ''/'' @ ''/'') (CHR ''/'') = ss @ [[]]"
proof -
  have p: "list_all (\<lambda>s. CHR ''/'' \<notin> set s) ss" using assms(2) by (simp add: list_all_iff proper_def)
  then show "Split (Join ss ''/'') (CHR ''/'') = ss" by (rule Split_Join [OF assms(1)])
  have "Join (ss @ [[]]) ''/'' = Join ss ''/'' @ ''/''"
    using assms(1)
  proof (induction ss)
    case (Cons a ss)
    then show ?case by (cases "ss = []") (simp_all add: Join_Cons)
  qed simp
  with Split_Join [of "ss @ [[]]" "CHR ''/''"] p show "Split (Join ss ''/'' @ ''/'') (CHR ''/'') = ss @ [[]]" by simp
qed

lemma Join_end: "ss \<noteq> [] \<Longrightarrow> list_all proper ss \<Longrightarrow> Join ss ''/'' \<noteq> [] \<and> last (Join ss ''/'') \<noteq> CHR ''/''"
proof (induction ss)
  case (Cons s ss)
  then have "s \<noteq> []" "CHR ''/'' \<notin> set s" by (simp_all add: proper_def)
  then have "last s \<noteq> CHR ''/''" by (metis last_in_set)
  with Cons \<open>s \<noteq> []\<close> show ?case by (cases "ss = []") (simp_all add: Join_Cons)
qed simp

lemma suffix_slash: "suffix ''/'' p \<longleftrightarrow> p \<noteq> [] \<and> last p = CHR ''/''"
  by (cases p rule: rev_cases) (auto simp: suffix_def)

text \<open>A clean path stays: who follows the redirect is not redirected again for its sake.\<close>

lemma cleanPath_clean [simp]: "cleanPath (cleanPath p) = cleanPath p"
proof (cases rule: cleanPath_cases [of p])
  case 1
  then show ?thesis by (simp add: cleanPath_def path_Clean_def HasPrefix_def)
next
  case (2 ss slash)
  have c: "path_Clean (''/'' @ Join ss ''/'' @ slash) = ''/'' @ Join ss ''/''"
    using 2(3) Split_clean [OF 2(1,2)] clean_segments_id [OF 2(2), of "[]"] clean_segments_snoc [of ss "[]"]
    by (auto simp: path_Clean_def)
  note e = Join_end [OF 2(1,2)]
  show ?thesis
  proof (cases "slash = []")
    case True
    with c e show ?thesis unfolding 2(4) by (simp add: cleanPath_def HasPrefix_def HasSuffix_def suffix_slash)
  next
    case False
    with c e 2(3) show ?thesis unfolding 2(4) by (simp add: cleanPath_def HasPrefix_def HasSuffix_def suffix_slash)
  qed
qed

lemma cleanPath_rooted: "HasPrefix (cleanPath p) ''/''"
  by (cases rule: cleanPath_cases [of p]) (simp_all add: HasPrefix_def)

lemma cleanPath_segments:
  assumes "s \<in> set (Split (cleanPath p) (CHR ''/''))"
  shows "s \<notin> {''.'', ''..''}"
proof (cases rule: cleanPath_cases [of p])
  case 1
  with assms show ?thesis by auto
next
  case (2 ss slash)
  have "Split (''/'' @ Join ss ''/'' @ slash) (CHR ''/'') \<in> {[] # ss, [] # ss @ [[]]}"
    using 2(3) Split_clean [OF 2(1,2)] by auto
  with assms have "s = [] \<or> s \<in> set ss" unfolding 2(4) by fastforce
  with 2(2) show ?thesis by (auto simp only: list_all_iff proper_def list.simps)
qed

section \<open>Patterns\<close>

definition pattern_match :: "string \<Rightarrow> string \<Rightarrow> bool" where
  "pattern_match pat path \<longleftrightarrow> (if HasSuffix pat ''/'' then HasPrefix path pat else path = pat)"

definition longer :: "string \<times> 'e \<Rightarrow> (string \<times> 'e) option \<Rightarrow> (string \<times> 'e) option" where
  "longer e best =
     (case best of None \<Rightarrow> Some e
      | Some b \<Rightarrow> if length (fst b) < length (fst e) then Some e else Some b)"

definition mux_match :: "(string \<times> 'e) list \<Rightarrow> string \<Rightarrow> (string \<times> 'e) option" where
  "mux_match table path = fold longer (filter (\<lambda>e. pattern_match (fst e) path) table) None"

definition dispatch :: "(string \<times> 'e) list \<Rightarrow> string \<Rightarrow> 'e option" where
  "dispatch table path = map_option snd (mux_match table path)"

lemma pattern_match_self [simp]: "pattern_match path path"
  by (simp add: pattern_match_def HasPrefix_def)

lemma pattern_match_prefix: "pattern_match pat path \<Longrightarrow> prefix pat path"
  by (auto simp: pattern_match_def HasPrefix_def split: if_splits)

text \<open>The entry of the mux that wins: the longest matching pattern.\<close>

definition best_match :: "(string \<times> 'e) list \<Rightarrow> string \<Rightarrow> string \<times> 'e \<Rightarrow> bool" where
  "best_match table path e \<longleftrightarrow> e \<in> set table \<and> pattern_match (fst e) path
     \<and> (\<forall>f \<in> set table. pattern_match (fst f) path \<longrightarrow> length (fst f) \<le> length (fst e))"

lemma fold_longer:
  "case fold longer es best of
     None \<Rightarrow> best = None \<and> es = []
   | Some e \<Rightarrow> (e \<in> set es \<or> best = Some e) \<and> (\<forall>f \<in> set es \<union> set_option best. length (fst f) \<le> length (fst e))"
proof (induction es arbitrary: best)
  case (Cons f es)
  from Cons.IH [of "longer f best"] show ?case
    by (cases best) (auto simp: longer_def split: option.splits if_splits)
qed (auto split: option.split)

lemma mux_match_best: "mux_match table path = Some e \<Longrightarrow> best_match table path e"
  using fold_longer [of None "filter (\<lambda>e. pattern_match (fst e) path) table"]
  by (auto simp: mux_match_def best_match_def)

lemma mux_match_None: "mux_match table path = None \<longleftrightarrow> (\<forall>e \<in> set table. \<not> pattern_match (fst e) path)"
proof
  assume "mux_match table path = None"
  then show "\<forall>e \<in> set table. \<not> pattern_match (fst e) path"
    using fold_longer [of None "filter (\<lambda>e. pattern_match (fst e) path) table"]
    by (auto simp: mux_match_def filter_empty_conv)
next
  assume "\<forall>e \<in> set table. \<not> pattern_match (fst e) path"
  then have "filter (\<lambda>e. pattern_match (fst e) path) table = []" by (simp add: filter_empty_conv)
  then show "mux_match table path = None" by (simp add: mux_match_def)
qed

lemma match_same:
  "pattern_match p path \<Longrightarrow> pattern_match q path \<Longrightarrow> length p = length q \<Longrightarrow> p = q"
proof -
  assume a: "pattern_match p path" "pattern_match q path" "length p = length q"
  then have "prefix p path" "prefix q path"
    by (auto simp: pattern_match_def HasPrefix_def split: if_splits)
  with a(3) show "p = q" by (auto simp: prefix_def)
qed

lemma best_match_unique:
  assumes "distinct (map fst table)" "best_match table path e" "best_match table path f"
  shows "e = f"
proof -
  have "fst e = fst f"
    using assms(2,3) by (intro match_same [of _ path]) (auto simp: best_match_def intro: antisym)
  with assms show ?thesis by (auto simp: best_match_def distinct_map inj_on_def)
qed

lemma mux_match_cong:
  assumes "distinct (map fst table)" "set table = set table'"
  shows "mux_match table path = mux_match table' path"
proof (cases "mux_match table path")
  case None
  then show ?thesis using assms(2) mux_match_None [of table path] mux_match_None [of table' path] by simp
next
  case (Some e)
  then obtain f where f: "mux_match table' path = Some f"
    using assms(2) mux_match_None [of table path] mux_match_None [of table' path] by fastforce
  have "best_match table path f"
    using mux_match_best [OF f] assms(2) by (simp add: best_match_def)
  with best_match_unique [OF assms(1) mux_match_best [OF Some]] f Some show ?thesis by simp
qed

section \<open>Routing\<close>

text \<open>
  What becomes of a request: the outer mux does not know its path (a CONNECT for an authority), sends
  the client to the clean path, or hands the request to the inner mux; this sends the client to the
  path with a slash, finds the endpoint, or knows none.
\<close>

datatype 'e routed = Outside | Cleaned string | Slashed string | Reached 'e | Nowhere

definition wants_slash :: "(string \<times> 'e) list \<Rightarrow> string \<Rightarrow> bool" where
  "wants_slash table path \<longleftrightarrow>
     (case mux_match table path of Some e \<Rightarrow> fst e \<noteq> path | None \<Rightarrow> True)
     \<and> \<not> HasSuffix path ''/'' \<and> path @ ''/'' \<in> fst ` set table"

definition route :: "(string \<times> 'e) list \<Rightarrow> incoming \<Rightarrow> 'e routed" where
  "route table rq =
     (let esc = in_escaped rq; path = mux_path esc
      in if in_method rq \<noteq> ''CONNECT'' \<and> cleanPath esc \<noteq> esc then Cleaned (cleanPath esc)
         else if \<not> HasPrefix esc ''/'' then Outside
         else if wants_slash table path then Slashed (cleanPath (in_path rq) @ ''/'')
         else case dispatch table path of Some e \<Rightarrow> Reached e | None \<Rightarrow> Nowhere)"

lemma route_Reached:
  assumes "route table rq = Reached e"
  shows "dispatch table (mux_path (in_escaped rq)) = Some e"
    "in_method rq \<noteq> ''CONNECT'' \<Longrightarrow> cleanPath (in_escaped rq) = in_escaped rq"
  using assms by (auto simp: route_def Let_def split: if_splits option.splits)

text \<open>
  A path without escapes that a handler gets has no segment that stands for the directory itself or
  the one above.
\<close>

lemma reached_segments:
  assumes "route table rq = Reached e" "in_method rq \<noteq> ''CONNECT''"
    "CHR ''%'' \<notin> set (in_escaped rq)" "in_path rq = PathUnescape (in_escaped rq)"
  shows "set (Split (in_path rq) (CHR ''/'')) \<inter> {''.'', ''..''} = {}"
proof -
  have "in_path rq = cleanPath (in_escaped rq)"
    using route_Reached(2) [OF assms(1,2)] assms(3,4) by (simp add: PathUnescape_def unescape_plain)
  then show ?thesis using cleanPath_segments by auto
qed

end
