(* ===== verification/App.thy ===== *)
theory App
  imports HealthLoop Handlers Bootstrap Public Proxy Websocket Mux
begin

text \<open>
  cmd/app and pkg/docs/openapi.go: the configuration from the environment, the routes, CORS, and the
  process as a state machine: the health loop and its goroutines interleaved with the handlers that
  change the registry.
\<close>

section \<open>Configuration\<close>

record config =
  PodIP :: string
  PodName :: string
  SharedSecret :: string
  BootstrapURL :: string
  TorSocks :: string
  AdminKey :: string
  Host :: string
  Port :: string

definition getEnv :: "(string \<Rightarrow> string) \<Rightarrow> string \<Rightarrow> string \<Rightarrow> string" where
  "getEnv getenv k dflt = (if getenv k \<noteq> [] then getenv k else dflt)"

definition loadConfig :: "(string \<Rightarrow> string) \<Rightarrow> config" where
  "loadConfig getenv =
     \<lparr>PodIP = getEnv getenv ''POD_IP'' ''127.0.0.1'',
      PodName = getEnv getenv ''POD_NAME'' ''dev-node'',
      SharedSecret = getEnv getenv ''SHARED_SECRET'' ''devsecret'',
      BootstrapURL = getEnv getenv ''BOOTSTRAP_URL'' '''',
      TorSocks = getEnv getenv ''TOR_SOCKS5'' ''127.0.0.1:9050'',
      AdminKey = getEnv getenv ''ADMIN_API_KEY'' ''changeme'',
      Host = getEnv getenv ''SERVER_HOST'' ''0.0.0.0'',
      Port = getEnv getenv ''SERVER_PORT'' ''8080''\<rparr>"

definition resolveSwaggerHost :: "(string \<Rightarrow> string) \<Rightarrow> string" where
  "resolveSwaggerHost getenv =
     (let rawHost = getEnv getenv ''SWAGGER_HOST'' ''''; port = getEnv getenv ''SERVER_PORT'' ''8080'';
          host = getEnv getenv ''SERVER_HOST'' ''0.0.0.0''
      in if rawHost \<noteq> []
         then if Contains rawHost '':'' then rawHost
              else if port \<noteq> ''80'' \<and> port \<noteq> ''443'' then rawHost @ '':'' @ port
              else rawHost
         else if port \<noteq> ''80'' \<and> port \<noteq> ''443'' then host @ '':'' @ port
         else host)"

text \<open>
  The description of the API that pkg/docs registers before \<open>main\<close> starts. \<open>swagger.json\<close> is embedded in the
  binary; without it \<open>init\<close> ends the process (\<open>None\<close>).
\<close>

record swag_spec =
  sw_Version :: string
  sw_Host :: string
  sw_BasePath :: string
  sw_Schemes :: "string list"
  sw_Title :: string
  sw_Description :: string
  sw_InfoInstanceName :: string
  sw_SwaggerTemplate :: string

definition SwaggerInfo :: "(string \<Rightarrow> string) \<Rightarrow> swag_spec" where
  "SwaggerInfo getenv =
     \<lparr>sw_Version = ''1.0'', sw_Host = resolveSwaggerHost getenv, sw_BasePath = ''/'', sw_Schemes = [''http''],
      sw_Title = ''Mezzium API'', sw_Description = ''RPC API Definition'', sw_InfoInstanceName = ''swagger'',
      sw_SwaggerTemplate = []\<rparr>"

definition docs_init :: "(string \<Rightarrow> string) \<Rightarrow> string option \<Rightarrow> swag_spec option" where
  "docs_init getenv file = map_option (\<lambda>data. (SwaggerInfo getenv)\<lparr>sw_SwaggerTemplate := data\<rparr>) file"

text \<open>The address \<open>startServer\<close> listens at.\<close>

definition listen_addr :: "string \<Rightarrow> string \<Rightarrow> string" where
  "listen_addr host port = host @ '':'' @ port"

definition initRegistry ::
  "(string \<Rightarrow> string) \<Rightarrow> (string \<Rightarrow> NetworkConfig option) \<Rightarrow> (string \<Rightarrow> string option)
     \<Rightarrow> dir_entry list option \<Rightarrow> load_error + registry" where
  "initRegistry getenv yaml files dir =
     (case LoadAll getenv yaml files dir of
        Inl e \<Rightarrow> Inl e | Inr (cfgs, log) \<Rightarrow> Inr (InitFromConfigs cfgs reg_New))"

section \<open>Routes\<close>

text \<open>What a pattern of the mux leads to.\<close>

datatype endpoint =
    Announce_ep | Healthz | Gossip_ep | Heartbeat_ep | Swagger_ui | Swagger_json | Gossip_state
  | Active_nodes | Btc_balance | Nft_all | Nft_metadata | Admin_networks | Admin_bulk | Admin_sub
  | Websocket | Proxy_ep | Metrics

definition static_routes :: "(string \<times> endpoint) list" where
  "static_routes =
     [(''/announce'', Announce_ep), (''/healthz'', Healthz), (''/gossip'', Gossip_ep),
      (''/heartbeat'', Heartbeat_ep), (''/swagger/'', Swagger_ui),
      (''/swagger/swagger.json'', Swagger_json), (''/gossip-state'', Gossip_state),
      (''/active-nodes'', Active_nodes), (''/btc/balance/'', Btc_balance),
      (''/ethereum/nft/get-all-nfts/'', Nft_all), (''/ethereum/nft/get-nft-metadata/'', Nft_metadata),
      (''/admin/networks'', Admin_networks), (''/admin/networks/bulk'', Admin_bulk),
      (''/admin/'', Admin_sub), (''/ws/'', Websocket), (''/metrics'', Metrics)]"

definition proxy_routes :: "string list \<Rightarrow> registry \<Rightarrow> (string \<times> endpoint) list" where
  "proxy_routes ks r =
     concat (map (\<lambda>st. (st_Route st, Proxy_ep)
         # (if HasSuffix (st_Route st) ''/'' then [] else [(st_Route st @ ''/'', Proxy_ep)]))
       (visit ks (reg_All r)))"

text \<open>
  \<open>registerRoutes\<close> at start-up; the mux panics when a pattern is registered twice (None). \<open>ks\<close> is
  the order of the networks.
\<close>

definition registerRoutes :: "string list \<Rightarrow> registry \<Rightarrow> (string \<times> endpoint) list option" where
  "registerRoutes ks r =
     (let table = static_routes @ proxy_routes ks r
      in if distinct (map fst table) then Some table else None)"

text \<open>The function literal behind /admin/: what it calls.\<close>

datatype admin_call = List_nodes | Delete_node | Add_node | Admin_not_found

definition admin_dispatch :: "incoming \<Rightarrow> admin_call" where
  "admin_dispatch rq =
     (if HasSuffix (in_path rq) ''/nodes'' \<and> in_method rq = ''GET'' then List_nodes
      else if HasSuffix (in_path rq) ''/nodes'' \<and> in_method rq = ''DELETE'' then Delete_node
      else if HasSuffix (in_path rq) ''/nodes'' \<and> in_method rq = ''POST'' then Add_node
      else Admin_not_found)"

section \<open>CORS\<close>

definition cors_headers :: "string \<Rightarrow> string \<Rightarrow> header \<Rightarrow> header" where
  "cors_headers methods headers h =
     hset (hset (hset h ''Access-Control-Allow-Origin'' ''*'') ''Access-Control-Allow-Methods'' methods)
       ''Access-Control-Allow-Headers'' headers"

text \<open>
  The two wrappers around the mux, of server.go (outside) and routes.go. The headers are set first; a
  handler that uses \<open>Add\<close>, as the proxy does for the headers of an upstream, adds values to them.
\<close>

definition outer_cors :: "header \<Rightarrow> header" where
  "outer_cors =
     cors_headers ''GET, POST, PUT, DELETE, PATCH, HEAD, OPTIONS''
       ''Content-Type, Authorization, x-admin-key, x-rpc-switch''"

definition inner_cors :: "header \<Rightarrow> header" where
  "inner_cors h =
     hset (cors_headers ''GET,POST,OPTIONS''
       ''Content-Type,Accept,Authorization,x-api-key,x-admin-key,X-Requested-With'' h)
       ''Access-Control-Max-Age'' ''600''"

definition add_headers :: "header \<Rightarrow> header \<Rightarrow> header" where
  "add_headers h extra = (\<lambda>k. h k @ extra k)"

text \<open>
  A preflight request is answered by the outer wrapper; any other answer carries the headers of both.
\<close>

definition preflight :: response where
  "preflight = (bare 204)\<lparr>rs_hdr := outer_cors hempty\<rparr>"

definition with_cors :: "response \<Rightarrow> response" where
  "with_cors rs = rs\<lparr>rs_hdr := add_headers (inner_cors (outer_cors hempty)) (rs_hdr rs)\<rparr>"

section \<open>The process\<close>

text \<open>
  The registry, the checker and the world are those of the running pass. Between two passes the loop
  waits (\<open>Idle\<close>); then it prunes, starts the goroutines for the networks of that moment, waits for them, and
  drops the marked URLs one after the other. \<open>ap_handlers\<close> are the requests under way, numbered, that may
  change the registry. A network that such a request replaces leaves its old state to whoever has a
  pointer to it: the goroutine started with it and the other handlers.
\<close>

datatype phase = Idle | Pruned | Passing | Dropping "string list"

record app =
  ap_pass :: pass
  ap_phase :: phase
  ap_handlers :: "nat \<rightharpoonup> handler"

text \<open>The states that goroutines still work on although the registry has others by now.\<close>

definition detached :: "string set \<Rightarrow> registry \<Rightarrow> pass \<Rightarrow> string \<rightharpoonup> NetworkState" where
  "detached R r p =
     (\<lambda>k. if k \<in> R \<and> pa_old p k = None \<and> pa_task p k \<noteq> Finished then r k else pa_old p k)"

text \<open>A step of the handler \<open>h\<close> with the number \<open>i\<close>, for all others.\<close>

definition handled ::
  "nat \<Rightarrow> handler \<Rightarrow> handler option \<times> registry \<times> checker \<times> world \<Rightarrow> app \<Rightarrow> app" where
  "handled i h x s =
     (case x of (h', r, c, w) \<Rightarrow>
        s\<lparr>ap_pass := (ap_pass s)\<lparr>pa_old := detached (replaces h) (pa_reg (ap_pass s)) (ap_pass s),
                                pa_reg := r, pa_chk := c, pa_world := w\<rparr>,
          ap_handlers := (map_option (lose (replaces h) (pa_reg (ap_pass s))) \<circ> ap_handlers s)(i := h')\<rparr>)"

inductive app_step :: "env \<Rightarrow> string \<Rightarrow> app \<Rightarrow> app \<Rightarrow> bool" for E key where
  prune: "ap_phase s = Idle \<Longrightarrow> \<not> pa_crash (ap_pass s) \<Longrightarrow>
      app_step E key s
        (s\<lparr>ap_phase := Pruned,
           ap_pass := (ap_pass s)\<lparr>pa_reg := PruneAndMerge (clock (pa_world (ap_pass s))) (pa_reg (ap_pass s))\<rparr>\<rparr>)"
| begin_pass: "ap_phase s = Pruned \<Longrightarrow> \<not> pa_crash (ap_pass s) \<Longrightarrow>
      app_step E key s
        (s\<lparr>ap_phase := Passing,
           ap_pass := start_pass (pa_reg (ap_pass s)) (pa_chk (ap_pass s)) (pa_world (ap_pass s))\<rparr>)"
| in_pass: "ap_phase s = Passing \<Longrightarrow> pass_step E loop_domains (ap_pass s) p \<Longrightarrow>
      app_step E key s (s\<lparr>ap_pass := p\<rparr>)"
| end_pass: "ap_phase s = Passing \<Longrightarrow> \<not> pa_crash (ap_pass s) \<Longrightarrow> active (ap_pass s) = {} \<Longrightarrow> drains ord \<Longrightarrow>
      DrainDropURLs ord (pa_chk (ap_pass s)) = (urls, c) \<Longrightarrow>
      app_step E key s (s\<lparr>ap_phase := Dropping urls, ap_pass := (ap_pass s)\<lparr>pa_chk := c\<rparr>\<rparr>)"
| drop: "ap_phase s = Dropping (url # urls) \<Longrightarrow> \<not> pa_crash (ap_pass s) \<Longrightarrow>
      app_step E key s
        (s\<lparr>ap_phase := Dropping urls,
           ap_pass := (ap_pass s)\<lparr>pa_reg := RemoveNodeEverywhere url (pa_reg (ap_pass s))\<rparr>\<rparr>)"
| rest: "ap_phase s = Dropping [] \<Longrightarrow> app_step E key s (s\<lparr>ap_phase := Idle\<rparr>)"
| arrive: "\<not> pa_crash (ap_pass s) \<Longrightarrow> ap_handlers s i = None \<Longrightarrow> starts E key rq (pa_reg (ap_pass s)) h \<Longrightarrow>
      app_step E key s (s\<lparr>ap_handlers := (ap_handlers s)(i \<mapsto> h)\<rparr>)"
| handle: "\<not> pa_crash (ap_pass s) \<Longrightarrow> ap_handlers s i = Some h \<Longrightarrow>
      handler_step E h (pa_reg (ap_pass s)) (pa_chk (ap_pass s)) (pa_world (ap_pass s)) = x \<Longrightarrow>
      app_step E key s (handled i h x s)"
| elsewhere: "\<not> pa_crash (ap_pass s) \<Longrightarrow> prefix (sent (pa_world (ap_pass s))) (sent w) \<Longrightarrow>
      clock (pa_world (ap_pass s)) \<le> clock w \<Longrightarrow>
      app_step E key s (s\<lparr>ap_pass := (ap_pass s)\<lparr>pa_world := w\<rparr>\<rparr>)"

inductive_cases app_stepE: "app_step E key s s'"

inductive_simps app_step_crashed:
  "app_step E key \<lparr>ap_pass = p\<lparr>pa_crash := True\<rparr>, ap_phase = Idle, ap_handlers = hs\<rparr> s'"

text \<open>The state after start-up: the initial pass is over and found \<open>best\<close> nodes.\<close>

definition app_start :: "registry \<Rightarrow> checker \<Rightarrow> world \<Rightarrow> app" where
  "app_start r c w =
     \<lparr>ap_pass = (start_pass r c w)\<lparr>pa_task := (\<lambda>_. Finished)\<rparr>, ap_phase = Idle, ap_handlers = Map.empty\<rparr>"

inductive app_reached :: "env \<Rightarrow> string \<Rightarrow> app \<Rightarrow> app \<Rightarrow> bool" for E key s where
  start: "app_reached E key s s"
| later: "app_reached E key s t \<Longrightarrow> app_step E key t u \<Longrightarrow> app_reached E key s u"

section \<open>Invariants of the process\<close>

lemma app_reached_inv:
  assumes "app_reached E key s s'" "P s" "\<And>t u. app_step E key t u \<Longrightarrow> P t \<Longrightarrow> P u"
  shows "P s'"
  using assms by (induction rule: app_reached.induct) blast+

lemma handled_simps [simp]:
  "ap_pass (handled i h (h', r, c, w) s) = (ap_pass s)\<lparr>pa_old := detached (replaces h) (pa_reg (ap_pass s)) (ap_pass s),
     pa_reg := r, pa_chk := c, pa_world := w\<rparr>"
  "ap_phase (handled i h x s) = ap_phase s"
  by (simp_all add: handled_def split: prod.split)

text \<open>
  A property of the registry that every operation keeps is one that every request keeps that runs
  alone. If it is also kept by the writes that take no lock, it is an invariant of the process.
\<close>

locale registry_invariant =
  fixes P :: "registry \<Rightarrow> bool"
  assumes prune: "P r \<Longrightarrow> P (PruneAndMerge now r)"
    and set_best: "P r \<Longrightarrow> P (SetBest k best r)"
    and drop: "P r \<Longrightarrow> P (drop_all urls r)"
    and merge: "P r \<Longrightarrow> P (merge_network now adv r)"
    and add_network: "P r \<Longrightarrow> P (AddNetwork nc best r)"
    and add_node: "P r \<Longrightarrow> P (AddNode k n r)"
    and append_best: "P r \<Longrightarrow> P (AppendBest k b r)"
    and delete: "P r \<Longrightarrow> r k = Some st \<Longrightarrow> P (delete_url k url st r)"
begin

lemmas keeps = prune set_best drop merge add_network add_node append_best delete

lemma after_gossip: "StateHandler now rq r = (rs, r') \<Longrightarrow> P r \<Longrightarrow> P r'"
proof -
  have f: "P r \<Longrightarrow> P (fold (merge_network now) ns r)" for ns
    by (induction ns arbitrary: r) (auto intro: merge)
  show "StateHandler now rq r = (rs, r') \<Longrightarrow> P r \<Longrightarrow> P r'"
    by (auto simp: StateHandler_def intro: f split: if_splits option.splits)
qed

lemma after_bulk: "bulk_loop E ncs js r c w = (res, r', c', w') \<Longrightarrow> P r \<Longrightarrow> P r'"
  by (rule bulk_loop_keeps [of P]) (auto intro: add_network)

lemma after_pass_step: "pass_step E ds s s' \<Longrightarrow> P (pa_reg s) \<Longrightarrow> P (pa_reg s')"
  by (induction rule: pass_step.induct) (auto intro: set_best)

lemma after_admin_bulk:
  assumes "admin_AddNetworksBulk E key rq r c w = (res, r', c', w')" "P r"
  shows "P r'"
  using admin_AddNetworksBulk_keeps [OF assms(1), of P] assms(2) by (auto intro: add_network)

lemma removal: "P r \<Longrightarrow> P (RemoveNodeEverywhere url r)"
  using drop [of r "[url]"] by (simp add: drop_all_def)

end

locale lock_free = registry_invariant +
  assumes put_discovered: "P r \<Longrightarrow> P (put_discovered k ds r)"
    and put_all: "P r \<Longrightarrow> P (put_all k ns r)"
begin

lemma after_handler_step:
  "handler_step E h r c w = (h', r', c', w') \<Longrightarrow> P r \<Longrightarrow> P r'"
  by (cases "(E, h, r, c, w)" rule: handler_step.cases)
    (auto intro: keeps put_discovered put_all split: prod.splits sum.splits if_splits)

lemma after_app_step:
  assumes "app_step E key s s'" "P (pa_reg (ap_pass s))"
  shows "P (pa_reg (ap_pass s'))"
  using assms
proof (induction rule: app_step.induct)
  case (handle s i h x)
  obtain h' r c w where "x = (h', r, c, w)" by (rule prod_cases4)
  with handle after_handler_step show ?case by auto
qed (simp_all add: prune start_pass_def after_pass_step removal)

lemma always:
  "app_reached E key s s' \<Longrightarrow> P (pa_reg (ap_pass s)) \<Longrightarrow> P (pa_reg (ap_pass s'))"
  by (erule app_reached_inv [where P = "\<lambda>s. P (pa_reg (ap_pass s))"]) (auto intro: after_app_step)

end

lemma drop_all_state: "drop_all urls r k = Some st' \<Longrightarrow>
    \<exists>st. r k = Some st \<and> st' = remove_urls (set urls) st"
  by (auto simp: drop_all_eq)

lemma bounded_modify:
  "discovered_bounded r \<Longrightarrow> (\<And>st. st_Discovered (f st) = st_Discovered st) \<Longrightarrow>
     discovered_bounded (modify k f r)"
  by (auto simp: discovered_bounded_def modify_apply)

interpretation bounded: registry_invariant discovered_bounded
proof
  fix r :: registry and k st url
  show "discovered_bounded r \<Longrightarrow> discovered_bounded (PruneAndMerge now r)" for now
    by (force simp: discovered_bounded_def PruneAndMerge_def prune_merge_def Let_def
        intro: order_trans [OF length_filter_le])
  show "discovered_bounded r \<Longrightarrow> discovered_bounded (SetBest k best r)" for best
    by (simp add: SetBest_def bounded_modify)
  show "discovered_bounded r \<Longrightarrow> discovered_bounded (drop_all urls r)" for urls
    unfolding discovered_bounded_def
    by (force dest!: drop_all_state simp: remove_urls_def intro: order_trans [OF length_filter_le])
  show "discovered_bounded r \<Longrightarrow> discovered_bounded (AddNetwork nc best r)" for nc best
    by (auto simp: discovered_bounded_def AddNetwork_def)
  show "discovered_bounded r \<Longrightarrow> discovered_bounded (AddNode k n r)" for n
    by (simp add: AddNode_def bounded_modify)
  show "discovered_bounded r \<Longrightarrow> discovered_bounded (AppendBest k b r)" for b
    by (simp add: AppendBest_def bounded_modify)
  show "discovered_bounded r \<Longrightarrow> r k = Some st \<Longrightarrow> discovered_bounded (delete_url k url st r)"
    by (simp add: delete_url_def SetBest_def bounded_modify)
qed (rule merge_network_bounded)

text \<open>No operation makes a network disappear.\<close>

interpretation lasting: lock_free "\<lambda>r. N \<subseteq> dom r" for N
  by unfold_locales
    (auto simp: PruneAndMerge_def SetBest_def drop_all_eq merge_network_def AddNetwork_def AddNode_def
      AppendBest_def delete_url_def put_discovered_def put_all_def dom_def modify_apply split: if_splits)

interpretation finite_nets: lock_free "\<lambda>r. finite (dom r)"
proof
  fix r :: registry and k url st
  have m: "dom (modify k f r) \<subseteq> dom r" for f by (auto simp: modify_apply dom_def split: if_splits)
  show "finite (dom r) \<Longrightarrow> finite (dom (PruneAndMerge now r))" for now
    by (erule rev_finite_subset) (auto simp: PruneAndMerge_def)
  show "finite (dom r) \<Longrightarrow> finite (dom (SetBest k best r))" for best
    by (erule rev_finite_subset) (simp add: SetBest_def m)
  show "finite (dom r) \<Longrightarrow> finite (dom (drop_all urls r))" for urls
    by (erule rev_finite_subset) (auto simp: drop_all_eq dom_def)
  show "finite (dom r) \<Longrightarrow> finite (dom (merge_network now adv r))" for now adv
    by (erule rev_finite_subset) (simp add: merge_network_def m)
  show "finite (dom r) \<Longrightarrow> finite (dom (AddNetwork nc best r))" for nc best
    by (simp add: AddNetwork_def)
  show "finite (dom r) \<Longrightarrow> finite (dom (AddNode k n r))" for n
    by (erule rev_finite_subset) (simp add: AddNode_def m)
  show "finite (dom r) \<Longrightarrow> finite (dom (AppendBest k b r))" for b
    by (erule rev_finite_subset) (simp add: AppendBest_def m)
  show "finite (dom r) \<Longrightarrow> r k = Some st \<Longrightarrow> finite (dom (delete_url k url st r))"
    by (erule rev_finite_subset) (auto simp: delete_url_apply)
  show "finite (dom r) \<Longrightarrow> finite (dom (put_discovered k ds r))" for ds
    by (erule rev_finite_subset) (simp add: put_discovered_def m)
  show "finite (dom r) \<Longrightarrow> finite (dom (put_all k ns r))" for ns
    by (erule rev_finite_subset) (simp add: put_all_def m)
qed

section \<open>The running pass inside the process\<close>

text \<open>The invariant of the pass survives the requests: they change the registry and the old states only.\<close>

lemma frame_simps [simp]:
  "active (p\<lparr>pa_old := x\<rparr>) = active p" "active (p\<lparr>pa_chk := c\<rparr>) = active p"
  "sems_ok (p\<lparr>pa_reg := r\<rparr>) = sems_ok p" "sems_ok (p\<lparr>pa_old := x\<rparr>) = sems_ok p"
  "sems_ok (p\<lparr>pa_chk := c\<rparr>) = sems_ok p" "sems_ok (p\<lparr>pa_world := w\<rparr>) = sems_ok p"
  by (simp_all add: sems_ok_def gate_ok_def holders_def active_def)

definition app_ok :: "app \<Rightarrow> bool" where
  "app_ok s \<longleftrightarrow> finite (dom (pa_reg (ap_pass s))) \<and> sems_ok (ap_pass s)
     \<and> active (ap_pass s) \<subseteq> dom (pa_reg (ap_pass s))"

lemma pass_step_dom: "pass_step E ds s s' \<Longrightarrow> dom (pa_reg s') = dom (pa_reg s)"
  by (induction rule: pass_step.induct) (auto simp: SetBest_def modify_apply dom_def)

lemma pass_step_active: "pass_step E ds s s' \<Longrightarrow> active s' \<subseteq> active s"
  by (induction rule: pass_step.induct) (auto simp: active_def)

lemma app_ok_step:
  assumes "app_step E key s s'" "app_ok s"
  shows "app_ok s'"
proof -
  let ?N = "active (ap_pass s)"
  have fin: "finite (dom (pa_reg (ap_pass s')))"
    using assms by (auto simp: app_ok_def intro: finite_nets.after_app_step)
  have sub: "?N \<subseteq> dom (pa_reg (ap_pass s'))"
    using lasting.after_app_step [OF assms(1), where N = ?N] assms(2) by (simp add: app_ok_def)
  from assms(1) have "sems_ok (ap_pass s') \<and> (active (ap_pass s') \<subseteq> ?N \<or> active (ap_pass s') \<subseteq> dom (pa_reg (ap_pass s')))"
  proof (cases rule: app_step.cases)
    case begin_pass
    with assms(2) show ?thesis
      by (simp add: app_ok_def sems_ok_start active_start) (simp add: start_pass_def)
  next
    case (in_pass p)
    with assms(2) show ?thesis
      by (auto simp: app_ok_def intro: sems_ok_step dest: pass_step_active)
  next
    case (handle i h x)
    obtain h' r c w where "x = (h', r, c, w)" by (rule prod_cases4)
    with handle assms(2) show ?thesis by (simp add: app_ok_def)
  qed (use assms(2) in \<open>simp_all add: app_ok_def\<close>)
  with fin sub show ?thesis by (auto simp: app_ok_def)
qed

lemma app_ok_start: "finite (dom r) \<Longrightarrow> app_ok (app_start r c w)"
  by (auto simp: app_ok_def app_start_def sems_ok_def gate_ok_def active_def holders_def start_pass_def
      gate_cap_def new_limits_def newLimiter_def split: gate.split)

lemma app_ok_reached: "app_reached E key (app_start r c w) s \<Longrightarrow> finite (dom r) \<Longrightarrow> app_ok s"
  by (erule app_reached_inv) (auto intro: app_ok_start app_ok_step)

lemma app_reached_trans: "app_reached E key s t \<Longrightarrow> app_reached E key t u \<Longrightarrow> app_reached E key s u"
  by (rotate_tac 1, induction rule: app_reached.induct) (auto intro: app_reached.later)

text \<open>A run of the pass is a run of the process.\<close>

lemma app_reached_pass:
  "reached E loop_domains p q \<Longrightarrow> ap_phase s = Passing \<Longrightarrow> ap_pass s = p \<Longrightarrow>
     app_reached E key s (s\<lparr>ap_pass := q\<rparr>)"
proof (induction rule: reached.induct)
  case here
  then have "s\<lparr>ap_pass := p\<rparr> = s" by auto
  then show ?case by (simp add: app_reached.start)
next
  case (onward t u)
  have "app_step E key (s\<lparr>ap_pass := t\<rparr>) ((s\<lparr>ap_pass := t\<rparr>)\<lparr>ap_pass := u\<rparr>)"
    by (rule in_pass) (use onward in simp_all)
  with onward show ?case by (auto intro: app_reached.later)
qed

lemma loop_domains_distinct [simp]: "distinct loop_domains"
  by (simp add: loop_domains_def)

section \<open>Requests that run alone\<close>

text \<open>The handlers that replace no network: they may run during a pass without leaving it an old state.\<close>

fun quiet :: "handler \<Rightarrow> bool" where
  "quiet (Probe_network nc) \<longleftrightarrow> False"
| "quiet (Put_network nc best) \<longleftrightarrow> False"
| "quiet (Bulk ncs) \<longleftrightarrow> False"
| "quiet (Bulk_probe nc ncs) \<longleftrightarrow> False"
| "quiet (Bulk_put nc best ncs) \<longleftrightarrow> False"
| "quiet _ \<longleftrightarrow> True"

lemma quiet_step: "handler_step E h r c w = (Some h', r', c', w') \<Longrightarrow> quiet h \<Longrightarrow> quiet h'"
  by (cases "(E, h, r, c, w)" rule: handler_step.cases)
    (auto split: prod.splits sum.splits option.splits if_splits)

lemma quiet_replaces: "quiet h \<Longrightarrow> replaces h = {}"
  by (cases h) simp_all

lemma detached_nothing: "R = {} \<or> active p = {} \<Longrightarrow> detached R r p = pa_old p"
  by (auto simp: detached_def active_def)

lemma only_handler: "(map_option f \<circ> [i \<mapsto> h])(i := h') = (\<lambda>j. if j = i then h' else None)"
  by (auto simp: fun_eq_iff)

text \<open>
  What a handler does alone, it can do in the process: this is the sense in which the functions of
  \<open>Gossip\<close> and \<open>Admin\<close>, and all that is proved of them, are about the process.
\<close>

lemma app_runs:
  assumes "runs_alone E h r c w r' c' w'" "ap_handlers s = [i \<mapsto> h]" "\<not> pa_crash (ap_pass s)"
    "pa_reg (ap_pass s) = r" "pa_chk (ap_pass s) = c" "pa_world (ap_pass s) = w"
    "quiet h \<or> active (ap_pass s) = {}"
  shows "app_reached E key s (s\<lparr>ap_pass := (ap_pass s)\<lparr>pa_reg := r', pa_chk := c', pa_world := w'\<rparr>,
    ap_handlers := Map.empty\<rparr>)"
  using assms
proof (induction arbitrary: s rule: runs_alone.induct)
  case (ends h r c w r' c' w')
  have d: "detached (replaces h) r (ap_pass s) = pa_old (ap_pass s)"
    using ends.prems(6) quiet_replaces by (intro detached_nothing) blast
  have "app_step E key s (handled i h (None, r', c', w') s)"
    using ends by (intro app_step.handle) simp_all
  moreover have "handled i h (None, r', c', w') s
      = s\<lparr>ap_pass := (ap_pass s)\<lparr>pa_reg := r', pa_chk := c', pa_world := w'\<rparr>, ap_handlers := Map.empty\<rparr>"
    using d by (simp add: handled_def ends.prems(1,3) only_handler [unfolded fun_upd_def])
      (simp add: fun_upd_def fun_eq_iff)
  ultimately show ?case by (auto intro: app_reached.intros)
next
  case (goes h r c w h1 r1 c1 w1 r' c' w')
  let ?s = "handled i h (Some h1, r1, c1, w1) s"
  have d: "detached (replaces h) r (ap_pass s) = pa_old (ap_pass s)"
    using goes.prems(6) quiet_replaces by (intro detached_nothing) blast
  have step: "app_step E key s ?s" using goes by (intro app_step.handle) simp_all
  have s: "?s = s\<lparr>ap_pass := (ap_pass s)\<lparr>pa_reg := r1, pa_chk := c1, pa_world := w1\<rparr>, ap_handlers := [i \<mapsto> h1]\<rparr>"
    using d by (simp add: handled_def goes.prems(1,3) only_handler [unfolded fun_upd_def])
      (simp add: fun_upd_def fun_eq_iff)
  have "app_reached E key ?s (?s\<lparr>ap_pass := (ap_pass ?s)\<lparr>pa_reg := r', pa_chk := c', pa_world := w'\<rparr>, ap_handlers := Map.empty\<rparr>)"
    unfolding s using goes.prems(2,6) quiet_step [OF goes.hyps(1)] by (intro goes.IH) (auto simp: active_def)
  moreover have "?s\<lparr>ap_pass := (ap_pass ?s)\<lparr>pa_reg := r', pa_chk := c', pa_world := w'\<rparr>, ap_handlers := Map.empty\<rparr>
      = s\<lparr>ap_pass := (ap_pass s)\<lparr>pa_reg := r', pa_chk := c', pa_world := w'\<rparr>, ap_handlers := Map.empty\<rparr>"
    unfolding s by simp
  ultimately show ?case using app_reached_trans [OF app_reached.later [OF app_reached.start step]] by metis
qed

lemma app_serves:
  assumes "case start of None \<Rightarrow> (r', c', w') = (pa_reg p, pa_chk p, pa_world p)
      | Some h \<Rightarrow> runs_alone E h (pa_reg p) (pa_chk p) (pa_world p) r' c' w'"
    and "\<And>h. start = Some h \<Longrightarrow> starts E key rq (pa_reg p) h \<and> (quiet h \<or> active p = {})"
    and "ap_pass s = p" "ap_handlers s = Map.empty" "\<not> pa_crash p"
  shows "app_reached E key s (s\<lparr>ap_pass := p\<lparr>pa_reg := r', pa_chk := c', pa_world := w'\<rparr>\<rparr>)"
proof (cases start)
  case None
  with assms(1,3) have "s\<lparr>ap_pass := p\<lparr>pa_reg := r', pa_chk := c', pa_world := w'\<rparr>\<rparr> = s" by simp
  then show ?thesis by (simp add: app_reached.start)
next
  case (Some h)
  let ?s = "s\<lparr>ap_handlers := [0 \<mapsto> h]\<rparr>"
  have "app_step E key s ?s"
    using arrive [of s 0 E key rq h] assms(2) [OF Some] assms(3-5) by simp
  moreover have "app_reached E key ?s (?s\<lparr>ap_pass := (ap_pass ?s)\<lparr>pa_reg := r', pa_chk := c', pa_world := w'\<rparr>,
      ap_handlers := Map.empty\<rparr>)"
    by (rule app_runs [where h = h]) (use assms Some in simp_all)
  moreover have "?s\<lparr>ap_pass := (ap_pass ?s)\<lparr>pa_reg := r', pa_chk := c', pa_world := w'\<rparr>, ap_handlers := Map.empty\<rparr>
      = s\<lparr>ap_pass := p\<lparr>pa_reg := r', pa_chk := c', pa_world := w'\<rparr>\<rparr>"
    using assms(3,4) by (cases s) simp
  ultimately show ?thesis using app_reached_trans [OF app_reached.later [OF app_reached.start]] by metis
qed

text \<open>A state message and a deletion at any time; the other three between two passes.\<close>

lemma app_StateHandler:
  assumes "StateHandler (clock (pa_world p)) rq (pa_reg p) = (rs, r')" "ap_pass s = p"
    "ap_handlers s = Map.empty" "\<not> pa_crash p"
  shows "app_reached E key s (s\<lparr>ap_pass := p\<lparr>pa_reg := r'\<rparr>\<rparr>)"
proof -
  have "app_reached E key s (s\<lparr>ap_pass := p\<lparr>pa_reg := r', pa_chk := pa_chk p, pa_world := pa_world p\<rparr>\<rparr>)"
  proof (rule app_serves [where rq = rq, OF _ _ assms(2-4)])
    show "case StateHandler_starts rq (pa_reg p) of
        None \<Rightarrow> (r', pa_chk p, pa_world p) = (pa_reg p, pa_chk p, pa_world p)
      | Some h \<Rightarrow> runs_alone E h (pa_reg p) (pa_chk p) (pa_world p) r' (pa_chk p) (pa_world p)"
      using StateHandler_alone [OF assms(1), of E "pa_chk p"] by (simp split: option.splits)
    show "starts E key rq (pa_reg p) h \<and> (quiet h \<or> active p = {})" if "StateHandler_starts rq (pa_reg p) = Some h" for h
      using that by (auto simp: starts_def StateHandler_starts_def split: if_splits)
  qed
  then show ?thesis by simp
qed

lemma app_DeleteNode:
  assumes "admin_DeleteNode E key rq (pa_reg p) = (rs, r')" "ap_pass s = p"
    "ap_handlers s = Map.empty" "\<not> pa_crash p"
  shows "app_reached E key s (s\<lparr>ap_pass := p\<lparr>pa_reg := r'\<rparr>\<rparr>)"
proof -
  have "app_reached E key s (s\<lparr>ap_pass := p\<lparr>pa_reg := r', pa_chk := pa_chk p, pa_world := pa_world p\<rparr>\<rparr>)"
  proof (rule app_serves [where rq = rq, OF _ _ assms(2-4)])
    show "case DeleteNode_starts E key rq (pa_reg p) of
        None \<Rightarrow> (r', pa_chk p, pa_world p) = (pa_reg p, pa_chk p, pa_world p)
      | Some h \<Rightarrow> runs_alone E h (pa_reg p) (pa_chk p) (pa_world p) r' (pa_chk p) (pa_world p)"
      using DeleteNode_alone [OF assms(1), of "pa_chk p" "pa_world p"] by (simp split: option.splits)
    show "starts E key rq (pa_reg p) h \<and> (quiet h \<or> active p = {})" if "DeleteNode_starts E key rq (pa_reg p) = Some h" for h
    proof -
      from that obtain k url where "h = Read_best k url None" by (rule DeleteNode_started)
      with that show ?thesis by (simp add: starts_def)
    qed
  qed
  then show ?thesis by simp
qed

lemma app_adds:
  assumes "ap_pass s = p" "ap_handlers s = Map.empty" "\<not> pa_crash p" "active p = {}"
  shows "admin_AddNetwork E key rq (pa_reg p) (pa_chk p) (pa_world p) = (res, r', c', w') \<Longrightarrow>
      app_reached E key s (s\<lparr>ap_pass := p\<lparr>pa_reg := r', pa_chk := c', pa_world := w'\<rparr>\<rparr>)"
    and "admin_AddNode E key rq (pa_reg p) (pa_chk p) (pa_world p) = (res, r', c', w') \<Longrightarrow>
      app_reached E key s (s\<lparr>ap_pass := p\<lparr>pa_reg := r', pa_chk := c', pa_world := w'\<rparr>\<rparr>)"
    and "admin_AddNetworksBulk E key rq (pa_reg p) (pa_chk p) (pa_world p) = (res, r', c', w') \<Longrightarrow>
      app_reached E key s (s\<lparr>ap_pass := p\<lparr>pa_reg := r', pa_chk := c', pa_world := w'\<rparr>\<rparr>)"
proof -
  note serves = app_serves [where rq = rq and s = s and p = p, OF _ _ assms(1-3)]
  show "admin_AddNetwork E key rq (pa_reg p) (pa_chk p) (pa_world p) = (res, r', c', w') \<Longrightarrow>
      app_reached E key s (s\<lparr>ap_pass := p\<lparr>pa_reg := r', pa_chk := c', pa_world := w'\<rparr>\<rparr>)"
    by (rule serves, erule AddNetwork_alone) (simp add: starts_def assms(4))
  show "admin_AddNode E key rq (pa_reg p) (pa_chk p) (pa_world p) = (res, r', c', w') \<Longrightarrow>
      app_reached E key s (s\<lparr>ap_pass := p\<lparr>pa_reg := r', pa_chk := c', pa_world := w'\<rparr>\<rparr>)"
    by (rule serves, erule AddNode_alone) (simp add: starts_def assms(4))
  show "admin_AddNetworksBulk E key rq (pa_reg p) (pa_chk p) (pa_world p) = (res, r', c', w') \<Longrightarrow>
      app_reached E key s (s\<lparr>ap_pass := p\<lparr>pa_reg := r', pa_chk := c', pa_world := w'\<rparr>\<rparr>)"
    by (rule serves, erule AddNetworksBulk_alone) (simp add: starts_def assms(4))
qed

text \<open>The loop starts a pass.\<close>

lemma app_begins:
  assumes "ap_phase s = Idle" "\<not> pa_crash (ap_pass s)"
  shows "app_reached E key s (s\<lparr>ap_phase := Passing, ap_pass := start_pass
    (PruneAndMerge (clock (pa_world (ap_pass s))) (pa_reg (ap_pass s))) (pa_chk (ap_pass s)) (pa_world (ap_pass s))\<rparr>)"
proof -
  note 1 = prune [OF assms, of E key]
  let ?s = "s\<lparr>ap_phase := Pruned,
      ap_pass := (ap_pass s)\<lparr>pa_reg := PruneAndMerge (clock (pa_world (ap_pass s))) (pa_reg (ap_pass s))\<rparr>\<rparr>"
  from begin_pass [of ?s E key] assms(2) have 2: "app_step E key ?s (s\<lparr>ap_phase := Passing, ap_pass := start_pass
      (PruneAndMerge (clock (pa_world (ap_pass s))) (pa_reg (ap_pass s))) (pa_chk (ap_pass s)) (pa_world (ap_pass s))\<rparr>)"
    by simp
  show ?thesis by (rule app_reached.later [OF app_reached.later [OF app_reached.start 1] 2])
qed

section \<open>Properties\<close>

text \<open>
  (C1) In every state the process can reach, whatever requests arrive and however their steps mix with
  those of the health loop and its goroutines: at most one goroutine works for a limited domain and at
  most five for the others, and every network of the start is still registered.
\<close>
theorem process_bounds:
  assumes "app_reached E key (app_start r c w) s" "finite (dom r)"
  shows "card (holders (ap_pass s) (Domain d)) \<le> 1 \<and> card (holders (ap_pass s) Default) \<le> 5
    \<and> dom r \<subseteq> dom (pa_reg (ap_pass s))"
proof -
  have "sems_ok (ap_pass s)" using app_ok_reached [OF assms] by (simp add: app_ok_def)
  then have g: "card (holders (ap_pass s) g) \<le> gate_cap g" for g by (simp add: sems_ok_def gate_ok_def)
  have "dom r \<subseteq> dom (pa_reg (ap_pass s))"
    using lasting.always [OF assms(1), where N = "dom r"] by (simp add: app_start_def start_pass_def)
  with g [of "Domain d"] g [of Default] show ?thesis by simp
qed

text \<open>
  (C2) Requests cannot make a pass hang: in every reachable state in which goroutines are left and the
  process has not crashed, one of them can go on.
\<close>
theorem pass_never_stuck:
  assumes "app_reached E key (app_start r c w) s" "finite (dom r)"
    and "\<not> pa_crash (ap_pass s)" "active (ap_pass s) \<noteq> {}"
  shows "\<exists>p. pass_step E loop_domains (ap_pass s) p"
proof -
  have ok: "app_ok s" by (rule app_ok_reached [OF assms(1,2)])
  obtain k where "pa_task (ap_pass s) k \<noteq> Finished" using assms(4) by (auto simp: active_def)
  moreover have "states_kept (ap_pass s)"
    using ok by (auto simp: states_kept_def app_ok_def pa_st_def split: option.split)
  ultimately show ?thesis
    using ok assms(3) by (intro no_deadlock) (auto simp: app_ok_def)
qed

text \<open>
  (C39) One unauthenticated message can end the process. Let a state message advertise, for a network of
  protocol evm or sol that the process knows, a node whose URL does not parse, among whatever else. If
  the network has learnt fewer than twenty nodes once the message is handled, so that the node was not
  turned away, then the next health pass can probe it, dereference a nil request in a goroutine and crash.
\<close>
theorem gossip_crash:
  fixes rq :: incoming
  assumes "r k = Some st" "st_Protocol st \<in> {''evm'', ''sol''}"
    and "in_method rq = ''POST''" "decode_into d_state zero_state (in_body rq) = Some m"
    and "adv \<in> set (sm_Networks m)" "ad_Name adv = k" "a \<in> set (ad_Nodes adv)" "\<not> url_ok E (na_URL a)"
    and "snd (StateHandler (clock w) rq r) k = Some st'" "length (st_Discovered st') < 20"
  shows "\<exists>s. app_reached E key (app_start r c w) s \<and> pa_crash (ap_pass s)"
proof -
  let ?s0 = "app_start r c w"
  define r1 where "r1 = fold (merge_network (clock w)) (sm_Networks m) r"
  have sh: "StateHandler (clock w) rq r = (bare 200, r1)"
    using assms(3,4) by (simp add: StateHandler_def r1_def)
  let ?s1 = "?s0\<lparr>ap_pass := (ap_pass ?s0)\<lparr>pa_reg := r1\<rparr>\<rparr>"
  have 1: "app_reached E key ?s0 ?s1"
    by (rule app_StateHandler [where rq = rq]) (simp_all add: app_start_def start_pass_def sh)
  have "r (ad_Name adv) = Some st" using assms(1,6) by simp
  then obtain st1 where "r1 k = Some st1" "known_or_full (clock w) (URL ` set (st_All st)) (st_Discovered st1) (na_URL a)"
    using fold_merge_delivers [OF assms(5,7), where r = r and now = "clock w"] assms(6) unfolding r1_def by metis
  moreover have "learnt (clock w) st st1"
    using fold_merge_learnt [of "clock w" r k "sm_Networks m"] assms(1) calculation(1) by (simp add: r1_def)
  ultimately have st1: "r1 k = Some st1" "st_Protocol st1 = st_Protocol st" "st_All st1 = st_All st"
    and known: "na_URL a \<in> URL ` set (st_All st) \<or>
      (\<exists>d \<in> set (st_Discovered st1). URL (dn_Node d) = na_URL a \<and> dn_ExpiresAt d = clock w + sec 600)"
    using assms(9,10) by (auto simp: sh learnt_def known_or_full_def maxDiscovered_def)
  let ?r2 = "PruneAndMerge (clock w) r1"
  obtain n where n: "n \<in> set (st_All (prune_merge (clock w) st1))" "URL n = na_URL a"
    using known prune_merge_has [of "na_URL a" st1 "clock w"] st1(3) by (force simp: sec_def)
  let ?p = "start_pass ?r2 c w" and ?s2 = "?s0\<lparr>ap_phase := Passing, ap_pass := start_pass ?r2 c w\<rparr>"
  have 2: "app_reached E key ?s1 ?s2"
    using app_begins [of ?s1 E key] by (simp add: app_start_def start_pass_def)
  have "?r2 k = Some (prune_merge (clock w) st1)" by (simp add: PruneAndMerge_def st1(1))
  moreover have "st_Protocol (prune_merge (clock w) st1) \<in> {''evm'', ''sol''}"
    using assms(2) by (simp add: prune_merge_def Let_def st1(2))
  moreover have "\<not> url_ok E (URL n)" using assms(8) n(2) by simp
  ultimately obtain q where q: "reached E loop_domains ?p q" "pa_crash q"
    using pass_crashes [OF _ n(1), of ?r2 k E loop_domains c w] loop_domains_distinct by metis
  have "app_reached E key ?s2 (?s2\<lparr>ap_pass := q\<rparr>)" by (rule app_reached_pass [OF q(1)]) simp_all
  from app_reached_trans [OF 1 app_reached_trans [OF 2 this]] q(2) show ?thesis by fastforce
qed

text \<open>
  The limit of twenty learnt nodes does not hold for the process, as \<open>StateHandler\<close> takes no lock. Two
  state messages whose handlers overlap both find room for one more node, and both append: the network
  then has 21.
\<close>

lemma app_moves:
  assumes "ap_handlers s i = Some h" "replaces h = {}" "\<not> pa_crash (ap_pass s)"
    "handler_step E h (pa_reg (ap_pass s)) (pa_chk (ap_pass s)) (pa_world (ap_pass s))
      = (h', r, pa_chk (ap_pass s), pa_world (ap_pass s))"
  shows "app_step E key s (s\<lparr>ap_pass := (ap_pass s)\<lparr>pa_reg := r\<rparr>, ap_handlers := (ap_handlers s)(i := h')\<rparr>)"
proof -
  have "map_option (\<lambda>h. h) \<circ> ap_handlers s = ap_handlers s" by (auto simp: fun_eq_iff option.map_ident)
  moreover have "lose {} (pa_reg (ap_pass s)) = (\<lambda>h. h)" by auto
  ultimately show ?thesis
    using app_step.handle [OF assms(3,1,4), of key] assms(2) by (simp add: handled_def detached_nothing)
qed

definition in_state :: "registry \<Rightarrow> (nat \<rightharpoonup> handler) \<Rightarrow> app \<Rightarrow> app" where
  "in_state r hs s = s\<lparr>ap_pass := (ap_pass s)\<lparr>pa_reg := r\<rparr>, ap_handlers := hs\<rparr>"

lemma move:
  assumes "app_reached E key s0 (in_state r hs s)" "hs i = Some h" "replaces h = {}" "\<not> pa_crash (ap_pass s)"
    "handler_step E h r (pa_chk (ap_pass s)) (pa_world (ap_pass s)) = (h', r', pa_chk (ap_pass s), pa_world (ap_pass s))"
  shows "app_reached E key s0 (in_state r' (hs(i := h')) s)"
proof -
  have "app_step E key (in_state r hs s) (in_state r' (hs(i := h')) s)"
    using app_moves [of "in_state r hs s" i h E h' r' key] assms(2-5) by (simp add: in_state_def)
  with assms(1) show ?thesis by (rule app_reached.later)
qed

text \<open>From the arrival of a message with one new node to the point where room was found for it, and from there on.\<close>

lemma message_finds_room:
  assumes "app_reached E key s0 (in_state r hs s)" "hs i = Some (Adverts (dom r) [\<lparr>ad_Name = k, ad_Protocol = pr, ad_Nodes = [a], ad_Ts = ts\<rparr>])"
    "r k = Some st" "length (st_Discovered st) < 20" "na_URL a \<notin> URL ` set (st_All st)" "\<not> pa_crash (ap_pass s)"
  shows "app_reached E key s0 (in_state r (hs(i \<mapsto> Room (dom r) [] k a [])) s)"
proof -
  have p: "pointed (dom r) k r = Some st" using assms(3) by (auto simp: pointed_def)
  have o: "offered (URL ` set (st_All st)) [a] = [a]" using assms(5) by (simp add: offered_def)
  have "app_reached E key s0 (in_state r (hs(i \<mapsto> Offers (dom r) [] k [a])) s)"
    by (rule move [OF assms(1,2)]) (simp_all add: p o assms(6))
  from move [OF this, of i] show ?thesis using assms(4,6) by (simp add: p maxDiscovered_def)
qed

lemma message_appends:
  assumes "app_reached E key s0 (in_state r hs s)" "hs i = Some (Room names [] k a [])" "k \<in> names"
    "r k = Some st" "\<not> pa_crash (ap_pass s)"
  shows "app_reached E key s0
    (in_state (put_discovered k (st_Discovered st @ [discover (clock (pa_world (ap_pass s))) a]) r) (hs(i := None)) s)"
proof -
  let ?r = "put_discovered k (st_Discovered st @ [discover (clock (pa_world (ap_pass s))) a]) r"
  have p: "pointed names k r = Some st" using assms(3,4) by (simp add: pointed_def)
  have "app_reached E key s0 (in_state r (hs(i \<mapsto> Appending names [] k a [] (st_Discovered st))) s)"
    by (rule move [OF assms(1,2)]) (simp_all add: p assms(5))
  from move [OF this, of i] have "app_reached E key s0 (in_state ?r (hs(i \<mapsto> Offers names [] k [])) s)"
    using assms(3,5) by simp
  from move [OF this, of i] have "app_reached E key s0 (in_state ?r (hs(i \<mapsto> Adverts names [])) s)"
    using assms(5) by simp
  from move [OF this, of i] show ?thesis using assms(5) by simp
qed

theorem discovered_overrun:
  fixes rq1 rq2 :: incoming
  assumes "r k = Some st" "length (st_Discovered st) = 19"
    and "in_method rq1 = ''POST''" "in_method rq2 = ''POST''"
    and "decode_into d_state zero_state (in_body rq1)
      = Some \<lparr>sm_From = from1, sm_Networks = [\<lparr>ad_Name = k, ad_Protocol = pr1, ad_Nodes = [a1], ad_Ts = ts1\<rparr>]\<rparr>"
    and "decode_into d_state zero_state (in_body rq2)
      = Some \<lparr>sm_From = from2, sm_Networks = [\<lparr>ad_Name = k, ad_Protocol = pr2, ad_Nodes = [a2], ad_Ts = ts2\<rparr>]\<rparr>"
    and "na_URL a1 \<notin> URL ` set (st_All st)" "na_URL a2 \<notin> URL ` set (st_All st)"
  shows "\<exists>s st'. app_reached E key (app_start r c w) s \<and> ap_handlers s = Map.empty
    \<and> pa_reg (ap_pass s) k = Some st' \<and> length (st_Discovered st') = 21"
proof -
  let ?s = "app_start r c w"
  let ?h = "\<lambda>pr a ts. Adverts (dom r) [\<lparr>ad_Name = k, ad_Protocol = pr, ad_Nodes = [a], ad_Ts = ts\<rparr>]"
  let ?R = "\<lambda>a. Room (dom r) [] k a []"
  let ?d = "\<lambda>ds a. ds @ [discover (clock w) a]"
  have s: "\<not> pa_crash (ap_pass ?s)" "pa_world (ap_pass ?s) = w" "pa_reg (ap_pass ?s) = r" "ap_handlers ?s = Map.empty"
    by (simp_all add: app_start_def start_pass_def)
  have st: "starts E key rq1 r (?h pr1 a1 ts1)" "starts E key rq2 r (?h pr2 a2 ts2)"
    using assms(3-6) by (simp_all add: starts_def StateHandler_starts_def)
  have "in_state r Map.empty ?s = ?s" by (simp add: in_state_def app_start_def start_pass_def)
  moreover from arrive [of ?s 1 E key rq1] st(1) s
  have "app_step E key ?s (in_state r [1 \<mapsto> ?h pr1 a1 ts1] ?s)"
    by (simp add: in_state_def app_start_def start_pass_def)
  moreover from arrive [of "in_state r [1 \<mapsto> ?h pr1 a1 ts1] ?s" 2 E key rq2] st(2) s
  have "app_step E key (in_state r [1 \<mapsto> ?h pr1 a1 ts1] ?s) (in_state r [1 \<mapsto> ?h pr1 a1 ts1, 2 \<mapsto> ?h pr2 a2 ts2] ?s)"
    by (simp add: in_state_def)
  ultimately have "app_reached E key ?s (in_state r [1 \<mapsto> ?h pr1 a1 ts1, 2 \<mapsto> ?h pr2 a2 ts2] ?s)"
    by (blast intro: app_reached.intros)
  from message_finds_room [OF this, of 1 k pr1 a1 ts1 st] assms(1,2,7) s(1)
  have "app_reached E key ?s (in_state r ([1 \<mapsto> ?h pr1 a1 ts1, 2 \<mapsto> ?h pr2 a2 ts2](1 \<mapsto> ?R a1)) ?s)" by simp
  from message_finds_room [OF this, of 2 k pr2 a2 ts2 st] assms(1,2,8) s(1)
  have "app_reached E key ?s (in_state r ([1 \<mapsto> ?h pr1 a1 ts1, 2 \<mapsto> ?h pr2 a2 ts2](1 \<mapsto> ?R a1, 2 \<mapsto> ?R a2)) ?s)" by simp
  from message_appends [OF this, of 1 "dom r" k a1 st] assms(1) s(1,2) have
    "app_reached E key ?s (in_state (put_discovered k (?d (st_Discovered st) a1) r) [2 \<mapsto> ?R a2] ?s)"
    by (simp add: fun_upd_twist domIff)
  from message_appends [OF this, of 2 "dom r" k a2 "st\<lparr>st_Discovered := ?d (st_Discovered st) a1\<rparr>"] assms(1) s(1,2) have
    run: "app_reached E key ?s (in_state (put_discovered k (?d (?d (st_Discovered st) a1) a2)
      (put_discovered k (?d (st_Discovered st) a1) r)) Map.empty ?s)"
    by (simp add: put_discovered_def domIff)
  let ?ds = "?d (?d (st_Discovered st) a1) a2"
  have "put_discovered k ?ds (put_discovered k (?d (st_Discovered st) a1) r) k = Some (st\<lparr>st_Discovered := ?ds\<rparr>)"
    using assms(1) by (simp add: put_discovered_def)
  then have "ap_handlers (in_state (put_discovered k ?ds (put_discovered k (?d (st_Discovered st) a1) r)) Map.empty ?s) = Map.empty
      \<and> pa_reg (ap_pass (in_state (put_discovered k ?ds (put_discovered k (?d (st_Discovered st) a1) r)) Map.empty ?s)) k
        = Some (st\<lparr>st_Discovered := ?ds\<rparr>) \<and> length (st_Discovered (st\<lparr>st_Discovered := ?ds\<rparr>)) = 21"
    using assms(2) by (simp add: in_state_def)
  with run show ?thesis by blast
qed

text \<open>
  A deletion can be undone by a goroutine that is under way. If an admin deletes a node between the
  last probe of its network and the goroutine's \<open>SetBest\<close>, the node is a best node again afterwards,
  and gets traffic, although the network's nodes no longer contain it.
\<close>
theorem delete_race:
  fixes rq :: incoming
  assumes "r k = Some st" "st_Discovered st = []"
    and "UpdateNetwork E (PruneAndMerge (clock w) r) (st_Protocol st) (st_All st) c w = Inr (best, c', w')"
    and "b \<in> set best" "URL b \<noteq> []"
    and "auth key rq" "admin_path rq = [k, x]" "unmarshal_into d_url [] (admin_body E rq) = Some (URL b)"
  shows "\<exists>s st'. app_reached E key (app_start r c w) s \<and> pa_reg (ap_pass s) k = Some st'
    \<and> URL b \<in> URL ` set (st_Best st') \<and> URL b \<notin> URL ` set (st_All st')"
proof -
  let ?s0 = "app_start r c w" and ?r = "PruneAndMerge (clock w) r"
  let ?p = "start_pass ?r c w"
  let ?s1 = "?s0\<lparr>ap_phase := Passing, ap_pass := ?p\<rparr>"
  have k: "?r k = Some st"
    using assms(1,2) by (simp add: PruneAndMerge_def prune_merge_def)
  have 1: "app_reached E key ?s0 ?s1"
    using app_begins [of ?s0 E key] by (simp add: app_start_def start_pass_def)
  obtain g l tmo res where best: "best = PickFastestPerPriority res" and
    "reached E loop_domains ?p (set_task k (Probing g (st_Protocol st) tmo [] res)
      (?p\<lparr>pa_sems := (new_limits)(g := l), pa_chk := c', pa_world := w'\<rparr>))"
    by (rule reached_probed [of ?p k st loop_domains E best c' w'])
      (use k assms(3) in \<open>simp_all add: start_pass_def domIff\<close>)
  then obtain q where q: "reached E loop_domains ?p q" "pa_task q k = Probing g (st_Protocol st) tmo [] res"
    "pa_reg q = ?r" "\<not> pa_crash q"
    by (fastforce simp: start_pass_def)
  let ?s2 = "?s1\<lparr>ap_pass := q\<rparr>"
  have 2: "app_reached E key ?s1 ?s2"
    by (rule app_reached_pass [OF q(1)]) simp_all
  let ?r3 = "delete_url k (URL b) st ?r"
  let ?st3 = "st\<lparr>st_All := filter (\<lambda>n. URL n \<noteq> URL b) (st_All st), st_Best := filter (\<lambda>n. URL n \<noteq> URL b) (st_Best st)\<rparr>"
  have r3: "?r3 k = Some ?st3" using delete_url_apply [of ?r k st, OF k] by simp
  have "admin_DeleteNode E key rq ?r = (writeJSON 200 (JMap [(''status'', JStr ''removed''), (''url'', JStr (URL b))]), ?r3)"
    using assms(5-8) k by (simp add: admin_DeleteNode_def reg_All_def)
  then have 3: "app_reached E key ?s2 (?s2\<lparr>ap_pass := q\<lparr>pa_reg := ?r3\<rparr>\<rparr>)"
    by (intro app_DeleteNode [where rq = rq]) (simp_all add: q app_start_def)
  let ?q3 = "q\<lparr>pa_reg := ?r3\<rparr>"
  let ?q4 = "set_task k (Stored g (length best)) (?q3\<lparr>pa_reg := SetBest k best ?r3\<rparr>)"
  have "pass_step E loop_domains ?q3 ?q4"
    using store [of ?q3 k g "st_Protocol st" tmo res E loop_domains] q best by simp
  then have 4: "app_step E key (?s2\<lparr>ap_pass := ?q3\<rparr>) ((?s2\<lparr>ap_pass := ?q3\<rparr>)\<lparr>ap_pass := ?q4\<rparr>)"
    by (intro in_pass) simp_all
  have "app_reached E key ?s0 ((?s2\<lparr>ap_pass := ?q3\<rparr>)\<lparr>ap_pass := ?q4\<rparr>)"
    by (rule app_reached.later [OF app_reached_trans [OF app_reached_trans [OF 1 2] 3] 4])
  moreover have "SetBest k best ?r3 k = Some (?st3\<lparr>st_Best := best\<rparr>)"
    using r3 by (simp add: SetBest_def modify_apply)
  ultimately show ?thesis
    using assms(4) by (intro exI conjI) auto
qed

text \<open>\<open>net/http\<close> has no transport for the schemes ws and wss: such a request fails.\<close>

definition http_only :: "env \<Rightarrow> bool" where
  "http_only E \<longleftrightarrow> (\<forall>v rq. HasPrefix (rq_url rq) ''ws'' \<longrightarrow> (\<exists>e dt. transport E v rq = (Failed e, dt)))"

lemma exchange_ws:
  assumes "http_only E" "HasPrefix (rq_url rq) ''ws''" "exchange E url rq good c w = Inr ((a, p), c', w')"
  shows "\<not> a"
proof -
  obtain e dt where "transport E w rq = (Failed e, dt)" using assms(1,2) unfolding http_only_def by blast
  with assms(3) show ?thesis by (auto simp: exchange_def send_def client_do_def split: if_splits)
qed

lemma HasPrefix_TrimSuffix: "HasPrefix u ''ws'' \<Longrightarrow> HasPrefix (TrimSuffix u ''/'' @ t) ''ws''"
proof -
  assume "HasPrefix u ''ws''"
  then obtain v where u: "u = ''ws'' @ v" by (auto simp: HasPrefix_def prefix_def)
  show ?thesis
  proof (cases "suffix ''/'' u")
    case True
    then obtain v' where "u = v' @ ''/''" by (auto simp: suffix_def)
    with u have "prefix ''ws'' v'" by (cases v rule: rev_cases) (auto simp: prefix_def)
    with \<open>u = v' @ _\<close> show ?thesis by (auto simp: TrimSuffix_def HasPrefix_def prefix_def)
  next
    case False
    with u show ?thesis by (auto simp: TrimSuffix_def HasPrefix_def)
  qed
qed

lemma check_node_ws:
  assumes "http_only E" "HasPrefix (URL n) ''ws''" "check_node protocol E n tmo c w = Inr ((a, p), c', w')"
  shows "\<not> a"
proof -
  note t = HasPrefix_TrimSuffix [OF assms(2)]
  from t [of "[]"] have t0: "HasPrefix (TrimSuffix (URL n) ''/'') ''ws''" by simp
  show ?thesis
    using assms(3) assms(2)
    by (auto simp: check_node_def checkEVM_def checkBTC_def checkTRX_def checkLTC_def checkDOGE_def
        checkSOL_def Let_def probe_request_def t0 t split: if_splits
        dest!: exchange_ws [OF assms(1), rotated])
qed

lemma check_all_ws:
  "http_only E \<Longrightarrow> check_all protocol E tmo ns c w = Inr (res, c', w') \<Longrightarrow> b \<in> set res \<Longrightarrow> Alive b \<Longrightarrow>
     \<not> HasPrefix (URL b) ''ws''"
proof (induction ns arbitrary: c w res)
  case (Cons n ns)
  from Cons.prems(2) obtain a p c1 w1 res' where
    s: "check_node protocol E n tmo c w = Inr ((a, p), c1, w1)"
      "check_all protocol E tmo ns c1 w1 = Inr (res', c', w')" "res = mk_ping n a p # res'"
    by auto
  show ?case
  proof (cases "b \<in> set res'")
    case True
    with Cons s(2) show ?thesis by blast
  next
    case False
    with Cons.prems(3,4) s(3) have "a" "URL b = URL n" by auto
    with check_node_ws [OF Cons.prems(1) _ s(1)] show ?thesis by auto
  qed
qed simp

text \<open>
  The WebSocket proxy never finds an upstream. Its upstream must be a best node whose URL starts
  with ws, but best nodes are those that answered an HTTP probe, which no such node can; so after
  every health check it answers 503 or 502.
\<close>
theorem ws_never_upstream:
  assumes "http_only E" "UpdateNetwork E r protocol nodes c w = Inr (best, c', w')"
    and "ws_network rq = k"
  shows "\<exists>rs. ws_upstream (SetBest k best reg) rq = Inl rs \<and> rs_status rs \<in> {502, 503} \<or> reg k = None"
proof (cases "reg k")
  case (Some st)
  from assms(2) obtain res where u: "best = PickFastestPerPriority res"
    "check_all protocol E (perNodeTimeout r protocol) nodes c w = Inr (res, c', w')"
    by (rule UpdateNetwork_Inr)
  have "reg_Best (SetBest k best reg) k = best"
    using Some by (simp add: reg_Best_def SetBest_def modify_apply)
  moreover have "\<not> HasPrefix (URL (hd best)) ''ws''" if "best \<noteq> []"
    using check_all_ws [OF assms(1) u(2)] PickFastestPerPriority_subset [of "hd best" res] that u(1)
    by (metis list.set_sel(1))
  ultimately show ?thesis
    using assms(3) by (cases "best = []") (auto simp: ws_upstream_def Let_def)
qed blast

text \<open>
  (C38) Routing of requests, whatever the order in which the networks were registered. A request that gets
  to a handler gets to that of the longest registered pattern that matches its path; one that finds none
  matches no pattern; one with a clean path that some pattern matches gets to a handler, unless the path
  with a slash at the end is a pattern. Only the path of a network that was there at start-up, or one
  below it, reaches the proxy, so a network added through the admin API is never served.
\<close>
theorem routing_spec:
  assumes "registerRoutes ks r = Some table" "is_order ks r"
    and "registerRoutes ks' r = Some table'" "is_order ks' r"
    and "path = mux_path (in_escaped rq)"
  shows "route table' rq = route table rq
    \<and> (\<forall>e. route table rq = Reached e \<longrightarrow>
         (\<exists>p. (p, e) \<in> set table \<and> pattern_match p path
            \<and> (\<forall>q f. (q, f) \<in> set table \<and> pattern_match q path \<longrightarrow> length q \<le> length p)))
    \<and> (route table rq = Nowhere \<longrightarrow> (\<forall>q f. (q, f) \<in> set table \<longrightarrow> \<not> pattern_match q path))
    \<and> (cleanPath (in_escaped rq) = in_escaped rq \<and> path @ ''/'' \<notin> fst ` set table
         \<and> (\<exists>q f. (q, f) \<in> set table \<and> pattern_match q path) \<longrightarrow> (\<exists>e. route table rq = Reached e))
    \<and> (route table rq = Reached Proxy_ep \<longrightarrow>
         (\<exists>st \<in> ran r. path = st_Route st \<or> HasPrefix path (st_Route st @ ''/'') \<or>
            HasSuffix (st_Route st) ''/'' \<and> HasPrefix path (st_Route st)))"
proof -
  have t: "table = static_routes @ proxy_routes ks r" "distinct (map fst table)"
    "table' = static_routes @ proxy_routes ks' r"
    using assms(1,3) by (auto simp: registerRoutes_def Let_def split: if_splits)
  have vs: "set (visit ks (reg_All r)) = ran r" "set (visit ks' (reg_All r)) = ran r"
    using assms(2,4) by (simp_all add: set_visit_ran reg_All_def)
  have same: "set table = set table'" unfolding t(1,3) proxy_routes_def by (simp add: vs)
  have longest: "\<exists>p. (p, e) \<in> set table \<and> pattern_match p path
      \<and> (\<forall>q f. (q, f) \<in> set table \<and> pattern_match q path \<longrightarrow> length q \<le> length p)" if "route table rq = Reached e" for e
  proof -
    from route_Reached(1) [OF that] obtain p where "mux_match table path = Some (p, e)"
      by (auto simp: dispatch_def assms(5))
    from mux_match_best [OF this] show ?thesis by (force simp: best_match_def)
  qed
  have "mux_match table' = mux_match table" using mux_match_cong [OF t(2) same] by (simp add: fun_eq_iff)
  then have "route table' rq = route table rq"
    by (simp add: route_def wants_slash_def dispatch_def same Let_def)
  moreover have "\<forall>q f. (q, f) \<in> set table \<longrightarrow> \<not> pattern_match q path" if "route table rq = Nowhere"
    using that mux_match_None [of table path]
    by (auto simp: route_def dispatch_def assms(5) Let_def split: if_splits option.splits)
  moreover have "\<exists>e. route table rq = Reached e"
    if clean: "cleanPath (in_escaped rq) = in_escaped rq" "path @ ''/'' \<notin> fst ` set table"
      "\<exists>q f. (q, f) \<in> set table \<and> pattern_match q path"
  proof -
    obtain e where "mux_match table path = Some e" using clean(3) mux_match_None [of table path] by force
    moreover have "HasPrefix (in_escaped rq) ''/''" using cleanPath_rooted [of "in_escaped rq"] clean(1) by simp
    ultimately show ?thesis
      using clean(1,2) by (simp add: route_def wants_slash_def dispatch_def assms(5))
  qed
  moreover have "\<exists>st \<in> ran r. path = st_Route st \<or> HasPrefix path (st_Route st @ ''/'') \<or>
      HasSuffix (st_Route st) ''/'' \<and> HasPrefix path (st_Route st)" if proxied: "route table rq = Reached Proxy_ep"
  proof -
    obtain p where p: "(p, Proxy_ep) \<in> set table" "pattern_match p path" using longest [OF proxied] by blast
    moreover have "(p, Proxy_ep) \<notin> set static_routes" by (simp add: static_routes_def)
    ultimately obtain st where "st \<in> ran r" "p = st_Route st \<or> p = st_Route st @ ''/''"
      by (auto simp: t(1) proxy_routes_def vs split: if_splits)
    with p(2) show ?thesis by (auto simp: pattern_match_def HasSuffix_def split: if_splits)
  qed
  ultimately show ?thesis using longest by blast
qed

subsection \<open>Instances\<close>

lemma sol_finite: "finite (dom sol_registry)" and sol_at: "sol_registry ''s'' = Some sol_network"
  by (simp_all add: sol_registry_def)

theorem process_bounds_witness:
  "card (holders (ap_pass (app_start sol_registry (health_New []) new_world)) Default) \<le> 5
     \<and> dom sol_registry \<subseteq> dom (pa_reg (ap_pass (app_start sol_registry (health_New []) new_world)))"
  using process_bounds [OF app_reached.start sol_finite] by blast

theorem pass_never_stuck_witness:
  "\<exists>p. pass_step half_alive loop_domains (start_pass sol_registry (health_New []) new_world) p"
proof -
  let ?s = "app_start sol_registry (health_New []) new_world"
  let ?p = "start_pass (PruneAndMerge (clock new_world) sol_registry) (health_New []) new_world"
  have p: "PruneAndMerge (clock new_world) sol_registry = sol_registry"
    by (auto simp: PruneAndMerge_def sol_registry_def sol_network_def prune_merge_def)
  have "app_reached half_alive ''k'' ?s (?s\<lparr>ap_phase := Passing, ap_pass := ?p\<rparr>)"
    using app_begins [of ?s half_alive "''k''"] by (simp add: app_start_def start_pass_def)
  from pass_never_stuck [OF this sol_finite] show ?thesis
    unfolding p by (simp add: active_start sol_registry_def) (simp add: start_pass_def)
qed

definition crash_env :: env where
  "crash_env = (answering (\<lambda>_. reply_with 200 []))\<lparr>url_ok := (\<lambda>u. u \<noteq> ''z'')\<rparr>"

text \<open>The message advertises, for the network of \<open>sol_registry\<close>, one node, whose URL does not parse.\<close>

theorem gossip_crash_witness:
  "\<exists>s. app_reached crash_env ''k'' (app_start sol_registry (health_New []) new_world) s \<and> pa_crash (ap_pass s)"
proof -
  let ?a = "\<lparr>na_URL = ''z'', na_Priority = 1, na_Protocol = ''sol'', na_Alive = True, na_Ping = 4\<rparr>"
  let ?adv = "\<lparr>ad_Name = ''s'', ad_Protocol = ''sol'', ad_Nodes = [?a], ad_Ts = 0\<rparr>"
  let ?rq = "post ''/gossip-state'' (Marshal (state_json (demo_state ''s'' ''z'')))"
  have m: "demo_state ''s'' ''z'' = \<lparr>sm_From = ''p'', sm_Networks = [?adv]\<rparr>" by (simp add: demo_state_def)
  have d: "decode_into d_state zero_state (in_body ?rq) = Some \<lparr>sm_From = ''p'', sm_Networks = [?adv]\<rparr>"
    using demo_state_ok [of "''s''" "''z''"] unfolding post_def incoming.simps m [symmetric] by (intro decode_state) simp_all
  have post: "in_method ?rq = ''POST''" by (simp add: post_def)
  let ?st' = "sol_network\<lparr>st_Discovered := [discover 0 ?a]\<rparr>"
  have "StateHandler (clock new_world) ?rq sol_registry = (bare 200, merge_network 0 ?adv sol_registry)"
    using d post by (simp add: StateHandler_def new_world_def)
  moreover have "merge_network 0 ?adv sol_registry ''s'' = Some ?st'"
    using sol_at by (simp add: merge_network_def maxDiscovered_def sol_network_def)
  ultimately have after: "snd (StateHandler (clock new_world) ?rq sol_registry) ''s'' = Some ?st'" by simp
  have "st_Protocol sol_network \<in> {''evm'', ''sol''}" "?adv \<in> set (sm_Networks \<lparr>sm_From = ''p'', sm_Networks = [?adv]\<rparr>)"
    "ad_Name ?adv = ''s''" "?a \<in> set (ad_Nodes ?adv)" "\<not> url_ok crash_env (na_URL ?a)" "length (st_Discovered ?st') < 20"
    by (simp_all add: crash_env_def sol_network_def)
  from gossip_crash [OF sol_at this(1) post d this(2-5) after this(6)] show ?thesis .
qed

theorem delete_race_witness:
  "\<exists>E s st. app_reached E ''k'' (app_start sol_registry (health_New []) new_world) s
     \<and> pa_reg (ap_pass s) ''s'' = Some st \<and> ''a'' \<in> URL ` set (st_Best st) \<and> ''a'' \<notin> URL ` set (st_All st)"
proof -
  let ?E = half_alive
  let ?rq = "admin_request\<lparr>in_escaped := ''/admin/s/nodes'', in_path := ''/admin/s/nodes'', in_body := url_text ''a''\<rparr>" and ?b = "mk_ping (plain_node ''a'' 1) True 0"
  obtain w' where "UpdateNetwork ?E (PruneAndMerge (clock new_world) sol_registry) ''sol''
      [plain_node ''a'' 1, plain_node ''b'' 2] (health_New []) new_world
    = Inr ([?b], (health_New [])\<lparr>dropURLs := {''b''}\<rparr>, w')"
    by (rule half_alive_run)
  then have u: "UpdateNetwork ?E (PruneAndMerge (clock new_world) sol_registry) (st_Protocol sol_network)
      (st_All sol_network) (health_New []) new_world
    = Inr ([?b], (health_New [])\<lparr>dropURLs := {''b''}\<rparr>, w')"
    by (simp add: sol_network_def)
  have d: "st_Discovered sol_network = []" "?b \<in> set [?b]" "URL ?b \<noteq> []" "auth ''k'' ?rq"
    by (simp_all add: sol_network_def auth_def admin_request_def EqualFold_def)
  have path: "admin_path ?rq = [''s'', ''nodes'']"
    unfolding admin_path_def admin_request_def incoming.simps by code_simp
  have "unmarshal_into d_url [] (admin_body ?E ?rq) = Some (URL ?b)"
    using length_url_text unmarshal_url [of "''a''"] by (simp add: admin_body_def)
  from delete_race [OF sol_at d(1) u d(2-4) path this] show ?thesis by (metis mk_ping_simps(1) plain_node_simps(1))
qed

definition only_http :: env where
  "only_http = answering (\<lambda>rq. if HasPrefix (rq_url rq) ''ws''
     then Failed \<lparr>as_dns = False, as_op = None, err_text = ''unsupported protocol scheme''\<rparr> else reply_with 200 [])"

theorem ws_never_upstream_witness:
  "\<exists>rs best. ws_upstream (SetBest ''s'' best sol_registry) ((get_root [])\<lparr>in_escaped := ''/ws/s'', in_path := ''/ws/s''\<rparr>) = Inl rs
     \<and> rs_status rs \<in> {502, 503}"
proof -
  have e: "http_only only_http" by (simp add: http_only_def only_http_def)
  obtain best c w where u: "UpdateNetwork only_http Map.empty ''sol'' [plain_node ''ws://a'' 1] (health_New []) new_world
      = Inr (best, c, w)"
    by (simp add: UpdateNetwork_def check_node_def checkSOL_def exchange_def only_http_def probe_request_def gostr)
  have "ws_network ((get_root [])\<lparr>in_escaped := ''/ws/s'', in_path := ''/ws/s''\<rparr>) = ''s''"
    unfolding ws_network_def get_root_def incoming.simps by code_simp
  from ws_never_upstream [OF e u this] sol_at show ?thesis by fastforce
qed

theorem routing_spec_witness:
  "\<exists>t. registerRoutes [''s''] sol_registry = Some t
     \<and> (\<exists>e. route t ((get_root [])\<lparr>in_escaped := ''/s/x'', in_path := ''/s/x''\<rparr>) = Reached e)
     \<and> route t ((get_root [])\<lparr>in_escaped := ''/x'', in_path := ''/x''\<rparr>) \<noteq> Reached Proxy_ep"
proof -
  let ?rq = "\<lambda>p. (get_root [])\<lparr>in_escaped := p, in_path := p\<rparr>"
  have r: "st_Route sol_network = ''/s''" "ran sol_registry = {sol_network}"
    by (simp_all add: sol_network_def sol_registry_def)
  have p: "proxy_routes [''s''] sol_registry = [(''/s'', Proxy_ep), (''/s/'', Proxy_ep)]"
    by (simp add: proxy_routes_def reg_All_def sol_at r gostr suffix_def)
  then obtain t where t: "registerRoutes [''s''] sol_registry = Some t"
    by (simp add: registerRoutes_def static_routes_def)
  with p have table: "t = static_routes @ [(''/s'', Proxy_ep), (''/s/'', Proxy_ep)]"
    by (simp add: registerRoutes_def Let_def split: if_splits)
  have c: "''/s/x'' = mux_path (in_escaped (?rq ''/s/x''))" "''/x'' = mux_path (in_escaped (?rq ''/x''))"
    "cleanPath (in_escaped (?rq ''/s/x'')) = in_escaped (?rq ''/s/x'')"
    unfolding get_root_def incoming.simps by code_simp+
  have "(''/s/'', Proxy_ep) \<in> set t" "pattern_match ''/s/'' ''/s/x''" "''/s/x'' @ ''/'' \<notin> fst ` set t"
    unfolding table by (simp_all add: pattern_match_def gostr suffix_def static_routes_def)
  with routing_spec [OF t sol_order t sol_order c(1)] c(3)
  have "\<exists>e. route t (?rq ''/s/x'') = Reached e" by blast
  moreover have "route t (?rq ''/x'') \<noteq> Reached Proxy_ep"
    using routing_spec [OF t sol_order t sol_order c(2)] by (auto simp: r gostr suffix_def)
  ultimately show ?thesis using t by blast
qed

end
