(* ===== verification/Server.thy ===== *)
theory Server
  imports App
begin

text \<open>
  The server as a whole: the state all handlers share, the handler behind each route, the two CORS
  wrappers and the mux around them, and \<open>main\<close> up to the moment it listens. A request is one step here;
  how requests interleave with the health passes is in theory App.
\<close>

section \<open>State and handlers\<close>

text \<open>
  What \<open>registerRoutes\<close> passes to the handlers, and what lies outside: \<open>si_swagger\<close> and \<open>si_metrics\<close> are
  the handlers of the Swagger user interface and of Prometheus, \<open>si_upgrade\<close> and \<open>si_dial\<close> tell whether
  a WebSocket can be set up.
\<close>

record site =
  si_env :: env
  si_mac :: "string \<Rightarrow> string \<Rightarrow> string"
  si_announce :: AnnounceHandler
  si_key :: string
  si_tor :: string
  si_environ :: "string list"
  si_spec :: "string option"
  si_swagger :: "incoming \<Rightarrow> response"
  si_moved :: "string \<Rightarrow> incoming \<Rightarrow> response"
  si_metrics :: "metrics \<Rightarrow> incoming \<Rightarrow> response"
  si_upgrade :: "incoming \<Rightarrow> bool"
  si_dial :: "string \<Rightarrow> bool"

record server =
  sv_reg :: registry
  sv_chk :: checker
  sv_peers :: peer_map
  sv_beats :: heartbeats
  sv_throttle :: throttle_state
  sv_gas :: gas_state
  sv_secrets :: secrets_state
  sv_world :: world

text \<open>A handler answers, panics, or has taken over the connection.\<close>

datatype answer = Answer response | Panicked panic | Hijacked ws_outcome

definition answer_of :: "panic + response \<Rightarrow> answer" where
  "answer_of res = (case res of Inl p \<Rightarrow> Panicked p | Inr rs \<Rightarrow> Answer rs)"

text \<open>\<open>JSONHandler\<close> of pkg/docs/openapi.go; the specification is an embedded file.\<close>

definition JSONHandler :: "string option \<Rightarrow> response" where
  "JSONHandler spec =
     (case spec of None \<Rightarrow> http_error ''swagger spec not found'' 404
      | Some data \<Rightarrow> json_reply 200 data)"

text \<open>
  A process that has started always has a specification to answer with. The answer is the embedded file
  as it is: \<open>SWAGGER_HOST\<close> only goes into the registered description, which \<open>JSONHandler\<close> does not read.
\<close>

theorem specification_served:
  assumes "docs_init getenv file = Some info"
  shows "JSONHandler file = json_reply 200 (sw_SwaggerTemplate info)
    \<and> sw_Host info = resolveSwaggerHost getenv
    \<and> (\<forall>getenv'. \<exists>info'. docs_init getenv' file = Some info' \<and> sw_SwaggerTemplate info' = sw_SwaggerTemplate info)"
  using assms by (auto simp: docs_init_def SwaggerInfo_def JSONHandler_def)

text \<open>Without \<open>SWAGGER_HOST\<close> the registered host is the address the server listens at, but for the ports of the web.\<close>

theorem swagger_host_listens:
  assumes "getenv ''SWAGGER_HOST'' = []" "getenv ''SERVER_PORT'' \<notin> {''80'', ''443''}"
  shows "resolveSwaggerHost getenv = listen_addr (Host (loadConfig getenv)) (Port (loadConfig getenv))"
  using assms by (auto simp: resolveSwaggerHost_def loadConfig_def getEnv_def listen_addr_def)

definition healthz :: response where
  "healthz = \<lparr>rs_status = 200, rs_hdr = hempty, rs_body = ''ok''\<rparr>"

definition public_done :: "handled \<Rightarrow> server \<Rightarrow> answer \<times> server" where
  "public_done h p = (case h of (res, t, w) \<Rightarrow> (answer_of res, p\<lparr>sv_throttle := t, sv_world := w\<rparr>))"

definition admin_done :: "admin_handled \<Rightarrow> server \<Rightarrow> answer \<times> server" where
  "admin_done h p =
     (case h of (res, r, c, w) \<Rightarrow> (answer_of res, p\<lparr>sv_reg := r, sv_chk := c, sv_world := w\<rparr>))"

definition serve_admin :: "site \<Rightarrow> incoming \<Rightarrow> server \<Rightarrow> answer \<times> server" where
  "serve_admin S rq p =
     (case admin_dispatch rq of
        List_nodes \<Rightarrow> (Answer (admin_ListNodes (si_key S) rq (sv_reg p)), p)
      | Delete_node \<Rightarrow> (case admin_DeleteNode (si_env S) (si_key S) rq (sv_reg p) of
                         (rs, r) \<Rightarrow> (Answer rs, p\<lparr>sv_reg := r\<rparr>))
      | Add_node \<Rightarrow> admin_done (admin_AddNode (si_env S) (si_key S) rq (sv_reg p) (sv_chk p) (sv_world p)) p
      | Admin_not_found \<Rightarrow> (Answer (http_error ''404 page not found'' 404), p))"

text \<open>
  The handler of an endpoint. \<open>pord\<close> and \<open>nord\<close> are the orders in which the loops over the peers and
  over the networks meet their maps during this request.
\<close>

definition handle ::
  "site \<Rightarrow> string list \<Rightarrow> string list \<Rightarrow> endpoint \<Rightarrow> incoming \<Rightarrow> server \<Rightarrow> answer \<times> server" where
  "handle S pord nord e rq p =
     (case e of
        Announce_ep \<Rightarrow>
          (case announce_ServeHTTP (si_mac S) (si_announce S) pord rq (sv_peers p) of
             (rs, s) \<Rightarrow> (Answer rs, p\<lparr>sv_peers := s\<rparr>))
      | Healthz \<Rightarrow> (Answer healthz, p)
      | Gossip_ep \<Rightarrow>
          (case gossip_Handler rq (sv_peers p) of (rs, s) \<Rightarrow> (Answer rs, p\<lparr>sv_peers := s\<rparr>))
      | Heartbeat_ep \<Rightarrow>
          (case leader_Handler rq (sv_beats p) of (rs, b) \<Rightarrow> (Answer rs, p\<lparr>sv_beats := b\<rparr>))
      | Swagger_ui \<Rightarrow> (Answer (si_swagger S rq), p)
      | Swagger_json \<Rightarrow> (Answer (JSONHandler (si_spec S)), p)
      | Gossip_state \<Rightarrow>
          (case StateHandler (clock (sv_world p)) rq (sv_reg p) of
             (rs, r) \<Rightarrow> (Answer rs, p\<lparr>sv_reg := r\<rparr>))
      | Active_nodes \<Rightarrow>
          (case ActiveNodes (si_environ S) nord (sv_reg p) rq (sv_secrets p) of
             (rs, s) \<Rightarrow> (Answer rs, p\<lparr>sv_secrets := s\<rparr>))
      | Btc_balance \<Rightarrow> public_done (BTCBalance (si_env S) (sv_reg p) rq (sv_throttle p) (sv_world p)) p
      | Nft_all \<Rightarrow> public_done (NFTGetAllNFTs (si_env S) (sv_reg p) rq (sv_throttle p) (sv_world p)) p
      | Nft_metadata \<Rightarrow>
          public_done (NFTGetNFTMetadata (si_env S) (sv_reg p) rq (sv_throttle p) (sv_world p)) p
      | Admin_networks \<Rightarrow>
          admin_done (admin_AddNetwork (si_env S) (si_key S) rq (sv_reg p) (sv_chk p) (sv_world p)) p
      | Admin_bulk \<Rightarrow>
          admin_done (admin_AddNetworksBulk (si_env S) (si_key S) rq (sv_reg p) (sv_chk p) (sv_world p)) p
      | Admin_sub \<Rightarrow> serve_admin S rq p
      | Websocket \<Rightarrow>
          (case ServeWS (si_upgrade S) (si_dial S) (sv_reg p) rq (sv_world p) of
             (out, w) \<Rightarrow> (case out of Ws_error rs \<Rightarrow> Answer rs | _ \<Rightarrow> Hijacked out, p\<lparr>sv_world := w\<rparr>))
      | Proxy_ep \<Rightarrow>
          (case Serve (si_env S) (sv_reg p) (si_tor S) rq (sv_gas p) (sv_world p) of
             (res, g, w) \<Rightarrow> (answer_of res, p\<lparr>sv_gas := g, sv_world := w\<rparr>))
      | Metrics \<Rightarrow> (Answer (si_metrics S (meters (sv_world p)) rq), p))"

text \<open>
  One request: the wrappers, the two muxes, the handler. The outer mux answers within the outer wrapper
  only. \<open>si_moved\<close> is the answer net/http writes for a redirect to a path, a 301.
\<close>

definition with_outer_cors :: "response \<Rightarrow> response" where
  "with_outer_cors rs = rs\<lparr>rs_hdr := add_headers (outer_cors hempty) (rs_hdr rs)\<rparr>"

definition not_found :: response where
  "not_found = http_error ''404 page not found'' 404"

definition serve ::
  "site \<Rightarrow> (string \<times> endpoint) list \<Rightarrow> string list \<Rightarrow> string list \<Rightarrow> incoming \<Rightarrow> server \<Rightarrow> answer \<times> server" where
  "serve S table pord nord rq p =
     (if in_method rq = ''OPTIONS'' then (Answer preflight, p)
      else case route table rq of
        Outside \<Rightarrow> (Answer (with_outer_cors not_found), p)
      | Cleaned path \<Rightarrow> (Answer (with_outer_cors (si_moved S path rq)), p)
      | Slashed path \<Rightarrow> (Answer (with_cors (si_moved S path rq)), p)
      | Nowhere \<Rightarrow> (Answer (with_cors not_found), p)
      | Reached e \<Rightarrow>
          (case handle S pord nord e rq p of
             (Answer rs, p') \<Rightarrow> (Answer (with_cors rs), p')
           | (a, p') \<Rightarrow> (a, p')))"

fun serve_all ::
  "site \<Rightarrow> (string \<times> endpoint) list \<Rightarrow> (string list \<times> string list \<times> incoming) list \<Rightarrow> server
     \<Rightarrow> answer list \<times> server" where
  "serve_all S table [] p = ([], p)"
| "serve_all S table ((pord, nord, rq) # rqs) p =
     (let (a, p') = serve S table pord nord rq p; (as, p'') = serve_all S table rqs p'
      in (a # as, p''))"

section \<open>What a request can change\<close>

text \<open>The parts of the state an endpoint may write.\<close>

lemma handle_reg:
  "handle S pord nord e rq p = (a, p') \<Longrightarrow> e \<notin> {Gossip_state, Admin_networks, Admin_bulk, Admin_sub} \<Longrightarrow>
     sv_reg p' = sv_reg p \<and> sv_chk p' = sv_chk p"
  by (cases e) (auto simp: handle_def public_done_def split: prod.splits ws_outcome.splits)

lemma handle_peers:
  "handle S pord nord e rq p = (a, p') \<Longrightarrow> e \<notin> {Announce_ep, Gossip_ep} \<Longrightarrow> sv_peers p' = sv_peers p"
  by (cases e) (auto simp: handle_def public_done_def admin_done_def serve_admin_def
      split: prod.splits ws_outcome.splits admin_call.splits)

lemma handle_beats:
  "handle S pord nord e rq p = (a, p') \<Longrightarrow> e \<noteq> Heartbeat_ep \<Longrightarrow> sv_beats p' = sv_beats p"
  by (cases e) (auto simp: handle_def public_done_def admin_done_def serve_admin_def
      split: prod.splits ws_outcome.splits admin_call.splits)

lemma handle_unauthorized:
  assumes "handle S pord nord e rq p = (a, p')" "\<not> auth (si_key S) rq" "e \<noteq> Gossip_state"
  shows "sv_reg p' = sv_reg p \<and> sv_chk p' = sv_chk p"
proof (cases "e \<in> {Admin_networks, Admin_bulk, Admin_sub}")
  case True
  with assms show ?thesis
    by (auto simp: handle_def admin_done_def serve_admin_def admin_AddNetwork_def admin_AddNetworksBulk_def
        admin_AddNode_def admin_DeleteNode_def split: prod.splits admin_call.splits)
next
  case False
  with assms(1,3) show ?thesis by (intro handle_reg) auto
qed

lemma serve_cases:
  assumes "serve S table pord nord rq p = (a, p')"
  obtains "p' = p" | e a' where "route table rq = Reached e" "handle S pord nord e rq p = (a', p')"
  using assms by (auto simp: serve_def split: if_splits routed.splits prod.splits answer.splits)

lemma serve_all_keeps:
  assumes "serve_all S table rqs p = (as, p')" "P p"
    and "\<And>pord nord rq p a p'. (pord, nord, rq) \<in> set rqs \<Longrightarrow> serve S table pord nord rq p = (a, p') \<Longrightarrow> P p \<Longrightarrow> P p'"
  shows "P p'"
  using assms
proof (induction rqs arbitrary: p as)
  case (Cons q rqs)
  obtain pord nord rq where q: "q = (pord, nord, rq)" by (cases q)
  obtain a t where t: "serve S table pord nord rq p = (a, t)" by fastforce
  with Cons.prems(1) q obtain as' where as': "serve_all S table rqs t = (as', p')"
    by (auto split: prod.splits)
  have "P t" using Cons.prems(3) [of pord nord rq p a t] t q Cons.prems(2) by simp
  show ?case
    by (rule Cons.IH [OF as' \<open>P t\<close>]) (blast intro: Cons.prems(3) list.set_intros(2))
qed simp

text \<open>What a path is dispatched to.\<close>

lemma dispatch_entry:
  assumes "registerRoutes ks r = Some table" "dispatch table path = Some e"
  obtains "e = Proxy_ep" | pat where "(pat, e) \<in> set static_routes" "pattern_match pat path"
proof -
  from assms(2) obtain f where f: "mux_match table path = Some f" "snd f = e"
    by (auto simp: dispatch_def)
  from mux_match_best [OF f(1)] have "f \<in> set table" "pattern_match (fst f) path"
    by (simp_all add: best_match_def)
  moreover have "set table \<subseteq> set static_routes \<union> {f. snd f = Proxy_ep}"
    using assms(1) by (auto simp: registerRoutes_def proxy_routes_def Let_def split: if_splits)
  ultimately have "f \<in> set static_routes \<union> {f. snd f = Proxy_ep}" "pattern_match (fst f) path" by blast+
  with that f(2) show thesis by (metis UnE mem_Collect_eq prod.collapse)
qed

lemma dispatch_exact:
  assumes "registerRoutes ks r = Some table" "dispatch table path = Some e"
  shows "e = Gossip_state \<Longrightarrow> path = ''/gossip-state''" "e = Gossip_ep \<Longrightarrow> path = ''/gossip''"
    "e = Announce_ep \<Longrightarrow> path = ''/announce''" "e = Heartbeat_ep \<Longrightarrow> path = ''/heartbeat''"
  by (rule dispatch_entry [OF assms]; simp add: static_routes_def pattern_match_def HasSuffix_def suffix_def; fail)+

section \<open>The invariant of the server\<close>

text \<open>
  The best nodes are nodes of their networks, no network has more than twenty learnt nodes, and each
  peer is stored under its ID.
\<close>

definition server_ok :: "server \<Rightarrow> bool" where
  "server_ok p \<longleftrightarrow> reg_wf (sv_reg p) \<and> discovered_bounded (sv_reg p) \<and> store_wf (sv_peers p)"

context registry_invariant begin

lemma after_admin_done: "admin_done (res, r, c, w) p = (a, p') \<Longrightarrow> P r \<Longrightarrow> P (sv_reg p')"
  by (auto simp: admin_done_def)

lemma after_handle:
  assumes "handle S pord nord e rq p = (a, p')" "P (sv_reg p)"
  shows "P (sv_reg p')"
proof -
  have keep: "e \<notin> {Gossip_state, Admin_networks, Admin_bulk, Admin_sub} \<Longrightarrow> ?thesis"
    using handle_reg [OF assms(1)] assms(2) by simp
  have 1: "admin_AddNetwork E key rq r c w = (res, r', c', w') \<Longrightarrow> P r \<Longrightarrow> P r'" for E key r c w res r' c' w'
    by (erule admin_AddNetwork_effect) (auto intro: keeps)
  have 2: "admin_AddNode E key rq r c w = (res, r', c', w') \<Longrightarrow> P r \<Longrightarrow> P r'" for E key r c w res r' c' w'
    by (erule admin_AddNode_effect) (auto intro: keeps)
  have 3: "admin_DeleteNode E key rq r = (res, r') \<Longrightarrow> P r \<Longrightarrow> P r'" for E key r res r'
    by (erule admin_DeleteNode_effect) (auto intro: keeps)
  show ?thesis
    using assms keep 1 2 3 after_gossip after_admin_bulk
    by (cases e) (auto simp: handle_def admin_done_def serve_admin_def split: prod.splits admin_call.splits)
qed

lemma after_serve: "serve S table pord nord rq p = (a, p') \<Longrightarrow> P (sv_reg p) \<Longrightarrow> P (sv_reg p')"
  by (erule serve_cases) (auto intro: after_handle)

lemma after_serve_all: "serve_all S table rqs p = (as, p') \<Longrightarrow> P (sv_reg p) \<Longrightarrow> P (sv_reg p')"
  by (erule serve_all_keeps [where P = "\<lambda>p. P (sv_reg p)"]) (auto intro: after_serve)

end

text \<open>Requests, one after the other, keep all three.\<close>

lemma handle_wf:
  assumes "handle S pord nord e rq p = (a, p')" "reg_wf (sv_reg p)"
  shows "reg_wf (sv_reg p')"
proof (cases "e \<in> {Gossip_state, Admin_networks, Admin_bulk, Admin_sub}")
  case True
  have 1: "StateHandler now rq r = (rs, r') \<Longrightarrow> reg_wf r \<Longrightarrow> reg_wf r'" for now r rs r'
    by (auto simp: StateHandler_def fold_merge_wf split: if_splits option.splits)
  note wf = admin_AddNetwork_wf admin_AddNode_wf admin_AddNetworksBulk_wf admin_DeleteNode_wf 1
  from True consider "e = Gossip_state" | "e = Admin_networks" | "e = Admin_bulk" | "e = Admin_sub" by blast
  then show ?thesis
    by cases (use assms in \<open>auto simp: handle_def admin_done_def serve_admin_def dest: wf
      split: prod.splits admin_call.splits\<close>)
next
  case False
  with handle_reg [OF assms(1)] assms(2) show ?thesis by simp
qed

lemma handle_store:
  assumes "handle S pord nord e rq p = (a, p')" "store_wf (sv_peers p)"
  shows "store_wf (sv_peers p')"
proof (cases "e \<in> {Announce_ep, Gossip_ep}")
  case True
  have "announce_ServeHTTP mac h ord rq s = (rs, s') \<Longrightarrow> store_wf s \<Longrightarrow> store_wf s'" for mac h ord s rs s'
    by (auto simp: announce_ServeHTTP_def Let_def split: if_splits option.splits)
  moreover have "gossip_Handler rq s = (rs, s') \<Longrightarrow> store_wf s \<Longrightarrow> store_wf s'" for s rs s'
    by (auto simp: gossip_Handler_def store_wf_fold split: if_splits option.splits)
  ultimately show ?thesis using True assms by (auto simp: handle_def split: prod.splits)
next
  case False
  with handle_peers [OF assms(1)] assms(2) show ?thesis by simp
qed

lemma handle_typed:
  assumes "handle S pord nord e rq p = (a, p')" "peers_typed (sv_peers p)"
  shows "peers_typed (sv_peers p')"
proof -
  have "e \<notin> {Announce_ep, Gossip_ep} \<or> e = Announce_ep \<or> e = Gossip_ep" by blast
  then show ?thesis
    using handle_peers [OF assms(1)] assms
    by (elim disjE) (auto simp: handle_def split: prod.splits intro: announce_typed gossip_Handler_typed)
qed

lemma serve_typed: "serve S table pord nord rq p = (a, p') \<Longrightarrow> peers_typed (sv_peers p) \<Longrightarrow> peers_typed (sv_peers p')"
  by (erule serve_cases) (auto intro: handle_typed)

lemma serve_all_typed:
  "serve_all S table rqs p = (as, p') \<Longrightarrow> peers_typed (sv_peers p) \<Longrightarrow> peers_typed (sv_peers p')"
  by (erule serve_all_keeps [where P = "\<lambda>p. peers_typed (sv_peers p)"]) (auto intro: serve_typed)

lemma serve_server_ok: "serve S table pord nord rq p = (a, p') \<Longrightarrow> server_ok p \<Longrightarrow> server_ok p'"
  by (erule serve_cases) (auto simp: server_ok_def intro: handle_wf handle_store bounded.after_handle)

lemma serve_all_server_ok: "serve_all S table rqs p = (as, p') \<Longrightarrow> server_ok p \<Longrightarrow> server_ok p'"
  by (erule serve_all_keeps [where P = server_ok]) (auto intro: serve_server_ok)

section \<open>main\<close>

text \<open>
  \<open>main\<close> up to \<open>startServer\<close>: the announcement, the configuration, the initial health pass with its
  goroutines until the last is done, the routes. A configuration that does not load ends the process
  (\<open>logger.Fatal\<close>), a pattern registered twice makes the mux panic: then nothing is listening.
  \<open>nodeID\<close> is the fresh identifier, \<open>ks\<close> the order of the networks in \<open>registerRoutes\<close>.
\<close>

inductive main_ready ::
  "env \<Rightarrow> (string \<Rightarrow> string \<Rightarrow> string) \<Rightarrow> (string \<Rightarrow> string) \<Rightarrow> (string \<Rightarrow> NetworkConfig option)
     \<Rightarrow> (string \<Rightarrow> string option) \<Rightarrow> dir_entry list option \<Rightarrow> string \<Rightarrow> world
     \<Rightarrow> (string \<times> endpoint) list \<Rightarrow> server \<Rightarrow> bool"
  for E mac getenv yaml files dir nodeID w where
  listening: "cfg = loadConfig getenv \<Longrightarrow>
    initBootstrap E mac nodeID (PodIP cfg) (Port cfg) (PodName cfg) (BootstrapURL cfg) (SharedSecret cfg) w
      = (peers, i, addr, w') \<Longrightarrow>
    initRegistry getenv yaml files dir = Inr reg \<Longrightarrow>
    reached E initial_domains (start_pass reg (health_New (TorSocks cfg)) w') s \<Longrightarrow>
    active s = {} \<Longrightarrow> \<not> pa_crash s \<Longrightarrow>
    is_order ks (pa_reg s) \<Longrightarrow> registerRoutes ks (pa_reg s) = Some table \<Longrightarrow>
    main_ready E mac getenv yaml files dir nodeID w table
      \<lparr>sv_reg = pa_reg s, sv_chk = pa_chk s, sv_peers = peers, sv_beats = Map.empty,
       sv_throttle = NewThrottler, sv_gas = gas_init, sv_secrets = ResetSensitiveEnvs,
       sv_world = pa_world s\<rparr>"

inductive_cases main_readyE: "main_ready E mac getenv yaml files dir nodeID w table p"

lemma initRegistry_at:
  assumes "initRegistry getenv yaml files dir = Inr reg" "LoadAll getenv yaml files dir = Inr (cfgs, log)"
  shows "reg k = map_option (\<lambda>c. \<lparr>st_Protocol = nc_Protocol c, st_Route = nc_Route c, st_All = nc_Nodes c,
    st_Best = [], st_Discovered = [], st_TimeoutMs = nc_TimeoutMs c, st_Gas = nc_Gas c\<rparr>) (cfgs k)"
  using assms by (auto simp: initRegistry_def InitFromConfigs_def reg_New_def split: option.split)

lemma initBootstrap_peers:
  assumes "initBootstrap E mac nodeID ip port name url secret w = (peers, i, addr, w')"
  shows "store_wf peers \<and> peers nodeID = Some \<lparr>ID = nodeID, Addr = ip @ '':'' @ port, Failures = 0\<rparr>"
proof -
  let ?p = "\<lparr>ID = nodeID, Addr = ip @ '':'' @ port, Failures = 0\<rparr>"
  have s: "store_wf (peers_Add ?p NewStore)" by (intro store_wf_simps)
  have s': "peers_Add ?p NewStore nodeID = Some ?p" by (simp add: peers_Add_def)
  have "store_wf (fold peers_Add (filter (\<lambda>p. ID p \<noteq> nodeID) ps) (peers_Add ?p NewStore))
      \<and> fold peers_Add (filter (\<lambda>p. ID p \<noteq> nodeID) ps) (peers_Add ?p NewStore) nodeID = Some ?p" for ps
    using self_stays [where s = "peers_Add ?p NewStore" and i = nodeID and p = ?p, OF s', of "filter (\<lambda>p. ID p \<noteq> nodeID) ps"]
      store_wf_fold [OF s] by simp
  with s s' assms show ?thesis
    by (auto simp: initBootstrap_def Let_def split: if_splits prod.splits sum.splits)
qed

lemma probed_best:
  assumes "checked st st'" "b \<in> set (st_Best st')"
  obtains n where "n \<in> set (st_All st)" "URL b = URL n" "Priority b = Priority n" "Alive b"
proof -
  from assms(1) obtain res where res: "list_all2 probed_as (st_All st) res" "st_Best st' = PickFastestPerPriority res"
    by (auto simp: checked_def)
  with assms(2) PickFastestPerPriority_subset have "b \<in> set res" "Alive b" by auto
  with res(1) obtain n where "n \<in> set (st_All st)" "probed_as n b"
    by (metis list_all2_conv_all_nth in_set_conv_nth)
  with \<open>Alive b\<close> that [of n] show thesis by (auto simp: probed_as_def)
qed

text \<open>The networks after the initial pass.\<close>

lemma started_networks:
  assumes "initRegistry getenv yaml files dir = Inr reg" "LoadAll getenv yaml files dir = Inr (cfgs, log)"
    and "reached E ds (start_pass reg ch w) s" "active s = {}"
  shows "dom (pa_reg s) = dom cfgs"
    and "cfgs k = Some c \<Longrightarrow> pa_reg s k = Some st \<Longrightarrow>
      st_Route st = nc_Route c \<and> st_All st = nc_Nodes c \<and> st_Discovered st = []
      \<and> (\<forall>b \<in> set (st_Best st). Alive b \<and> (\<exists>n \<in> set (nc_Nodes c). URL b = URL n \<and> Priority b = Priority n))"
proof -
  note at = initRegistry_at [OF assms(1,2)]
  have ch: "rel_option checked (reg k) (pa_reg s k)" for k by (rule pass_done [OF assms(3,4)])
  show "dom (pa_reg s) = dom cfgs"
  proof (rule set_eqI)
    fix k show "k \<in> dom (pa_reg s) \<longleftrightarrow> k \<in> dom cfgs"
      using ch [of k] at [of k] by (cases "cfgs k"; cases "pa_reg s k") auto
  qed
  assume "cfgs k = Some c" "pa_reg s k = Some st"
  with ch [of k] at [of k] obtain st0 where st0: "checked st0 st" "st_Route st0 = nc_Route c"
    "st_All st0 = nc_Nodes c" "st_Discovered st0 = []" by auto
  have "Alive b \<and> (\<exists>n \<in> set (nc_Nodes c). URL b = URL n \<and> Priority b = Priority n)" if "b \<in> set (st_Best st)" for b
    by (rule probed_best [OF st0(1) that]) (use st0(3) in auto)
  with st0 show "st_Route st = nc_Route c \<and> st_All st = nc_Nodes c \<and> st_Discovered st = []
      \<and> (\<forall>b \<in> set (st_Best st). Alive b \<and> (\<exists>n \<in> set (nc_Nodes c). URL b = URL n \<and> Priority b = Priority n))"
    by (auto simp: checked_def)
qed

text \<open>A path that is a pattern itself is dispatched to the entry of this pattern.\<close>

lemma mux_match_pattern:
  assumes "registerRoutes ks r = Some table" "(path, e) \<in> set table"
  shows "mux_match table path = Some (path, e)"
proof -
  have "mux_match table path \<noteq> None" using mux_match_None [of table path] assms(2) by force
  then obtain f where f: "mux_match table path = Some f" by blast
  from mux_match_best [OF f] assms(2) have m: "f \<in> set table" "prefix (fst f) path" "length path \<le> length (fst f)"
    by (auto simp: best_match_def dest: pattern_match_prefix)
  then have "fst f = path" by (auto simp: prefix_def)
  moreover have "distinct (map fst table)" using assms(1) by (auto simp: registerRoutes_def Let_def split: if_splits)
  ultimately have "f = (path, e)" using m(1) assms(2) by (metis eq_key_imp_eq_value prod.collapse)
  with f show ?thesis by simp
qed

text \<open>A clean path without escapes that is a pattern is not redirected.\<close>

definition plain_path :: "string \<Rightarrow> bool" where
  "plain_path path \<longleftrightarrow> cleanPath path = path \<and> CHR ''%'' \<notin> set path"

lemma route_pattern:
  assumes "registerRoutes ks r = Some table" "(path, e) \<in> set table"
  shows "dispatch table path = Some e" "plain_path path \<Longrightarrow> in_escaped rq = path \<Longrightarrow> route table rq = Reached e"
proof -
  note m = mux_match_pattern [OF assms]
  show d: "dispatch table path = Some e" by (simp add: dispatch_def m)
  assume "plain_path path" "in_escaped rq = path"
  then have p: "mux_path path = path" "cleanPath path = path" by (simp_all add: plain_path_def mux_path_def unescape_plain)
  then have "HasPrefix path ''/''" using HasPrefix_append [of "''/''"] append_Nil2 by (metis cleanPath_cases)
  with p d m \<open>in_escaped rq = path\<close> show "route table rq = Reached e" by (simp add: route_def wants_slash_def)
qed

lemma split_path_segment: "CHR ''/'' \<notin> set k \<Longrightarrow> split_path (CHR ''/'' # k) = (k, [])"
  using TrimPrefix_append [of "''/''" k] by (simp add: split_path_def Split_self)

section \<open>Properties\<close>

text \<open>
  (C3) Whatever sequence of requests the server gets, of whatever clients: the best nodes stay nodes
  of their networks, no network has more than twenty learnt nodes, each peer is stored under its ID,
  and no network disappears.
\<close>
theorem requests_keep_invariant:
  assumes "serve_all S table rqs p = (as, p')"
    and "reg_wf (sv_reg p)" "discovered_bounded (sv_reg p)" "store_wf (sv_peers p)"
  shows "reg_wf (sv_reg p') \<and> discovered_bounded (sv_reg p') \<and> store_wf (sv_peers p')
    \<and> dom (sv_reg p) \<subseteq> dom (sv_reg p')"
proof -
  have "server_ok p'" using serve_all_server_ok [OF assms(1)] assms(2-4) by (simp add: server_ok_def)
  then show ?thesis
    using lasting.after_serve_all [OF assms(1), of "dom (sv_reg p)"] by (simp add: server_ok_def)
qed

text \<open>
  (C4) The peers stay typed: whatever bytes clients send, every stored peer has UTF-8 texts and a
  counter in int64. So a list of peers that the process passes on is read by the receiver exactly as
  it was sent.
\<close>
theorem requests_keep_types:
  assumes "serve_all S table rqs p = (as, p')" "peers_typed (sv_peers p)" "valid_utf8 self"
  shows "(\<forall>i q. sv_peers p' i = Some q \<longrightarrow> valid_utf8 (ID q) \<and> valid_utf8 (Addr q) \<and> in_i64 (Failures q))
    \<and> decode_into d_gossip zero_gossip
        (Marshal (gossip_json \<lparr>gm_From = self, gm_Peers = peers_List ord (sv_peers p')\<rparr>))
      = Some \<lparr>gm_From = self, gm_Peers = peers_List ord (sv_peers p')\<rparr>"
proof -
  have t: "peers_typed (sv_peers p')" by (rule serve_all_typed [OF assms(1,2)])
  then show ?thesis
    using assms(3) peers_typed_List [OF t, of ord] decode_gossip [of "\<lparr>gm_From = self, gm_Peers = peers_List ord (sv_peers p')\<rparr>"]
    by (auto simp: peers_typed_def peer_ok_def)
qed

text \<open>
  (C5) Without the admin key a client can change the networks through the gossip of state only, and
  the peers through the announcement and the gossip of peers only: requests to all other paths leave
  both as they are, and the set of nodes to drop with them.
\<close>
theorem anonymous_footprint:
  assumes "registerRoutes ks r = Some table" "serve_all S table rqs p = (as, p')"
  shows "((\<forall>(pord, nord, rq) \<in> set rqs. \<not> auth (si_key S) rq \<and> mux_path (in_escaped rq) \<noteq> ''/gossip-state'') \<longrightarrow>
      sv_reg p' = sv_reg p \<and> sv_chk p' = sv_chk p)
    \<and> ((\<forall>(pord, nord, rq) \<in> set rqs. mux_path (in_escaped rq) \<noteq> ''/announce'' \<and> mux_path (in_escaped rq) \<noteq> ''/gossip'') \<longrightarrow>
      sv_peers p' = sv_peers p)"
proof (intro conjI impI)
  assume a: "\<forall>(pord, nord, rq) \<in> set rqs. \<not> auth (si_key S) rq \<and> mux_path (in_escaped rq) \<noteq> ''/gossip-state''"
  have "sv_reg q' = sv_reg q \<and> sv_chk q' = sv_chk q"
    if "serve S table pord nord rq q = (b, q')" "(pord, nord, rq) \<in> set rqs" for pord nord rq q b q'
    using that(1)
  proof (rule serve_cases)
    fix e a'
    assume e: "route table rq = Reached e" "handle S pord nord e rq q = (a', q')"
    from dispatch_exact(1) [OF assms(1) route_Reached(1) [OF e(1)]] a that(2) have "e \<noteq> Gossip_state" by auto
    with handle_unauthorized [OF e(2)] a that(2) show ?thesis by auto
  qed simp
  then show "sv_reg p' = sv_reg p" "sv_chk p' = sv_chk p"
    by (auto intro: serve_all_keeps [where P = "\<lambda>q. sv_reg q = sv_reg p \<and> sv_chk q = sv_chk p", OF assms(2), THEN conjunct1]
        serve_all_keeps [where P = "\<lambda>q. sv_reg q = sv_reg p \<and> sv_chk q = sv_chk p", OF assms(2), THEN conjunct2])
next
  assume a: "\<forall>(pord, nord, rq) \<in> set rqs. mux_path (in_escaped rq) \<noteq> ''/announce'' \<and> mux_path (in_escaped rq) \<noteq> ''/gossip''"
  have "sv_peers q' = sv_peers q"
    if "serve S table pord nord rq q = (b, q')" "(pord, nord, rq) \<in> set rqs" for pord nord rq q b q'
    using that(1)
  proof (rule serve_cases)
    fix e a'
    assume e: "route table rq = Reached e" "handle S pord nord e rq q = (a', q')"
    from dispatch_exact(2,3) [OF assms(1) route_Reached(1) [OF e(1)]] a that(2) have "e \<notin> {Announce_ep, Gossip_ep}" by auto
    then show ?thesis by (rule handle_peers [OF e(2)])
  qed simp
  then show "sv_peers p' = sv_peers p"
    by (intro serve_all_keeps [where P = "\<lambda>q. sv_peers q = sv_peers p", OF assms(2)]) auto
qed

text \<open>
  (C6) When \<open>main\<close> gets to listening, there is one network per configuration file; its best nodes are
  alive nodes of its configuration; its route reaches the proxy, past both muxes if it is a clean path
  without escapes, and the proxy takes the network's best nodes for it where the route is the name of the file; the process is among its own peers; and
  the invariant of the server holds.
\<close>
theorem main_serves:
  assumes "main_ready E mac getenv yaml files dir nodeID w table p"
    and "LoadAll getenv yaml files dir = Inr (cfgs, log)"
  shows "dom (sv_reg p) = dom cfgs \<and> server_ok p \<and> sv_peers p nodeID \<noteq> None
    \<and> (\<forall>k c. cfgs k = Some c \<longrightarrow> dispatch table (nc_Route c) = Some Proxy_ep
        \<and> (plain_path (nc_Route c) \<longrightarrow> (\<forall>rq. in_escaped rq = nc_Route c \<longrightarrow> route table rq = Reached Proxy_ep))
        \<and> (nc_Route c = CHR ''/'' # k \<and> CHR ''/'' \<notin> set k \<longrightarrow> split_path (nc_Route c) = (k, []))
        \<and> (\<forall>b \<in> set (reg_Best (sv_reg p) k). Alive b
             \<and> (\<exists>n \<in> set (nc_Nodes c). URL b = URL n \<and> Priority b = Priority n)))"
  using assms(1)
proof (rule main_readyE)
  fix cfg peers i addr w' reg s ks
  assume p: "p = \<lparr>sv_reg = pa_reg s, sv_chk = pa_chk s, sv_peers = peers, sv_beats = Map.empty,
       sv_throttle = NewThrottler, sv_gas = gas_init, sv_secrets = ResetSensitiveEnvs, sv_world = pa_world s\<rparr>"
    and b: "initBootstrap E mac nodeID (PodIP cfg) (Port cfg) (PodName cfg) (BootstrapURL cfg) (SharedSecret cfg) w
      = (peers, i, addr, w')"
    and r: "initRegistry getenv yaml files dir = Inr reg"
    and run: "reached E initial_domains (start_pass reg (health_New (TorSocks cfg)) w') s" "active s = {}"
    and t: "is_order ks (pa_reg s)" "registerRoutes ks (pa_reg s) = Some table"
  note dom = started_networks(1) [OF r assms(2) run] and state = started_networks(2) [OF r assms(2) run]
  have "reg_wf (pa_reg s)" "discovered_bounded (pa_reg s)"
    using state dom by (fastforce simp: reg_wf_def best_known_def discovered_bounded_def)+
  moreover from initBootstrap_peers [OF b] have "store_wf peers" "peers nodeID \<noteq> None" by simp_all
  moreover have tab: "(nc_Route c, Proxy_ep) \<in> set table" if "cfgs k = Some c" for k c
  proof -
    from that dom obtain st where st: "pa_reg s k = Some st" by blast
    with state that have "st_Route st = nc_Route c" by blast
    moreover have "st \<in> set (visit ks (reg_All (pa_reg s)))"
      using st t(1) by (auto simp: set_visit reg_All_def is_order_def)
    ultimately show ?thesis
      using t(2) by (force simp: registerRoutes_def proxy_routes_def Let_def split: if_splits)
  qed
  moreover have "\<forall>b \<in> set (reg_Best (pa_reg s) k). Alive b \<and> (\<exists>n \<in> set (nc_Nodes c). URL b = URL n \<and> Priority b = Priority n)"
    if "cfgs k = Some c" for k c
    using state [OF that] by (cases "pa_reg s k") (simp_all add: reg_Best_def)
  moreover have "dispatch table (nc_Route c) = Some Proxy_ep"
      "plain_path (nc_Route c) \<Longrightarrow> in_escaped rq = nc_Route c \<Longrightarrow> route table rq = Reached Proxy_ep"
    if "cfgs k = Some c" for k c rq
    using route_pattern [OF t(2) tab [OF that]] by blast+
  ultimately show ?thesis
    using dom split_path_segment by (simp add: p server_ok_def)
qed

text \<open>
  A network whose route is not the name of its file is never found: the proxy looks the path's first
  segment up among the file names and answers 503.
\<close>
theorem route_without_network:
  assumes "split_path (in_path rq) = (n, tail)" "r n = None" "in_method rq \<noteq> ''GET''"
  shows "Serve E r tor rq g w = (Inr (http_error ''no available nodes'' 503), g, w)"
  using assms by (simp add: Serve_def TryServeGasFee_def reg_Best_def)

subsection \<open>Instances\<close>

definition demo_site :: site where
  "demo_site =
     \<lparr>si_env = half_alive, si_mac = demo_mac, si_announce = demo_handler, si_key = ''k'', si_tor = [],
      si_environ = [], si_spec = None, si_swagger = (\<lambda>_. bare 200), si_moved = (\<lambda>_ _. bare 301),
      si_metrics = (\<lambda>_ _. bare 200), si_upgrade = (\<lambda>_. True), si_dial = (\<lambda>_. True)\<rparr>"

definition demo_server :: server where
  "demo_server =
     \<lparr>sv_reg = sol_registry, sv_chk = health_New [], sv_peers = NewStore, sv_beats = Map.empty,
      sv_throttle = NewThrottler, sv_gas = gas_init, sv_secrets = ResetSensitiveEnvs, sv_world = new_world\<rparr>"

lemma sol_routes: "registerRoutes [''s''] sol_registry
    = Some (static_routes @ [(''/s'', Proxy_ep), (''/s/'', Proxy_ep)])"
  by (simp add: registerRoutes_def static_routes_def proxy_routes_def reg_All_def sol_registry_def
      sol_network_def gostr suffix_def)

theorem requests_keep_invariant_witness:
  "reg_wf (sv_reg (snd (serve_all demo_site [(''/s'', Proxy_ep)] [([], [], get_root []), ([], [], admin_request)] demo_server)))"
proof -
  let ?R = "serve_all demo_site [(''/s'', Proxy_ep)] [([], [], get_root []), ([], [], admin_request)] demo_server"
  have "?R = (fst ?R, snd ?R)" by simp
  moreover have "reg_wf (sv_reg demo_server)" "discovered_bounded (sv_reg demo_server)" "store_wf (sv_peers demo_server)"
    by (auto simp: demo_server_def reg_wf_def best_known_def discovered_bounded_def sol_registry_def sol_network_def)
  ultimately show ?thesis by (blast dest: requests_keep_invariant)
qed

text \<open>A peer arrives by gossip; its name goes on as it came.\<close>

definition peer_gossip :: incoming where
  "peer_gossip = (get_root (Marshal (gossip_json \<lparr>gm_From = ''b'', gm_Peers = [\<lparr>ID = ''b'', Addr = ''h'', Failures = 0\<rparr>]\<rparr>)))
     \<lparr>in_method := ''POST'', in_escaped := ''/gossip'', in_path := ''/gossip''\<rparr>"

theorem requests_keep_types_witness:
  "\<exists>q. sv_peers (snd (serve_all demo_site [(''/gossip'', Gossip_ep)] [([], [], peer_gossip)] demo_server)) ''b'' = Some q
     \<and> valid_utf8 (Addr q)"
proof -
  let ?R = "serve_all demo_site [(''/gossip'', Gossip_ep)] [([], [], peer_gossip)] demo_server"
  let ?m = "\<lparr>gm_From = ''b'', gm_Peers = [\<lparr>ID = ''b'', Addr = ''h'', Failures = 0\<rparr>]\<rparr>"
  have R: "?R = (fst ?R, snd ?R)" by simp
  have "decode_into d_gossip zero_gossip (Marshal (gossip_json ?m)) = Some ?m"
    by (rule decode_gossip) (simp_all add: peer_ok_def in_i64_def)
  then have "gossip_Handler peer_gossip s = (bare 200, peers_Add \<lparr>ID = ''b'', Addr = ''h'', Failures = 0\<rparr> s)" for s
    by (simp add: gossip_Handler_def peer_gossip_def get_root_def del: Marshal.simps)
  moreover have "route [(''/gossip'', Gossip_ep)] peer_gossip = Reached Gossip_ep"
    unfolding peer_gossip_def get_root_def route_def Let_def incoming.simps by code_simp
  moreover have "in_method peer_gossip \<noteq> ''OPTIONS''" by (simp add: peer_gossip_def)
  ultimately have "sv_peers (snd ?R) ''b'' = Some \<lparr>ID = ''b'', Addr = ''h'', Failures = 0\<rparr>"
    by (simp add: serve_def handle_def peers_Add_def)
  moreover have "peers_typed (sv_peers demo_server)"
    by (auto simp: demo_server_def peers_typed_def NewStore_def)
  ultimately show ?thesis using requests_keep_types [OF R, of "[]" "[]"] by fastforce
qed

theorem anonymous_footprint_witness:
  "sv_reg (snd (serve_all demo_site (static_routes @ [(''/s'', Proxy_ep), (''/s/'', Proxy_ep)])
      [([], [], get_root [])] demo_server)) = sol_registry"
proof -
  let ?R = "serve_all demo_site (static_routes @ [(''/s'', Proxy_ep), (''/s/'', Proxy_ep)])
      [([], [], get_root [])] demo_server"
  have R: "?R = (fst ?R, snd ?R)" by simp
  have "\<forall>(pord, nord, rq) \<in> set [([], [], get_root [])]. \<not> auth (si_key demo_site) rq \<and> mux_path (in_escaped rq) \<noteq> ''/gossip-state''"
    by (simp add: auth_def get_root_def demo_site_def mux_path_def)
  with anonymous_footprint [OF sol_routes R] have "sv_reg (snd ?R) = sv_reg demo_server" by blast
  then show ?thesis by (simp add: demo_server_def)
qed

definition boot_config :: NetworkConfig where
  "boot_config =
     \<lparr>nc_Route = ''/s'', nc_Protocol = ''sol'', nc_Nodes = [(plain_node ''a'' 1)\<lparr>Headers := Some []\<rparr>],
      nc_TimeoutMs = 0, nc_Gas = None\<rparr>"

definition boot_registry :: registry where
  "boot_registry = InitFromConfigs [''s'' \<mapsto> boot_config] reg_New"

lemma boot_load:
  "\<exists>log. LoadAll (\<lambda>_. []) (\<lambda>_. Some boot_config) [''s.yaml'' \<mapsto> ''route: /s'']
     (Some [\<lparr>de_name = ''s.yaml'', de_isdir = False\<rparr>]) = Inr ([''s'' \<mapsto> boot_config], log)"
proof -
  have v: "\<not> has_var ''route: /s''" by simp
  have s: "HasSuffix ''s.yaml'' ''.yaml''" "TrimSuffix ''s.yaml'' ''.yaml'' = ''s''"
    by (simp_all add: HasSuffix_def TrimSuffix_def suffix_def)
  have "boot_config\<lparr>nc_Nodes := map norm_node (nc_Nodes boot_config)\<rparr> = boot_config" "nc_Route boot_config \<noteq> []"
    "nc_Protocol boot_config \<noteq> []"
    by (simp_all add: boot_config_def norm_node_def)
  then show ?thesis by (simp add: LoadAll_def s load_one_def expand_no_var [OF v] v)
qed

lemma boot_pass:
  obtains r' c' w' where "health_pass half_alive [''s''] boot_registry (health_New []) new_world = Inr (r', c', w')"
    "st_Route (the (r' ''s'')) = ''/s''"
proof -
  let ?n = "(plain_node ''a'' 1)\<lparr>Headers := Some []\<rparr>"
  obtain w' where "UpdateNetwork half_alive boot_registry ''sol'' [?n] (health_New []) new_world
     = Inr ([mk_ping ?n True 0], health_New [], w')"
    by (simp add: UpdateNetwork_def check_node_def checkSOL_def exchange_def half_alive_def reply_with_def
      probe_request_def Milliseconds_def health_New_def send_def client_do_def
      PickFastestPerPriority_def PickFastest_def fastest_of_def)
  moreover have at: "boot_registry ''s'' = Some \<lparr>st_Protocol = ''sol'', st_Route = ''/s'', st_All = [?n],
      st_Best = [], st_Discovered = [], st_TimeoutMs = 0, st_Gas = None\<rparr>"
    by (simp add: boot_registry_def InitFromConfigs_def boot_config_def)
  ultimately have "health_pass half_alive [''s''] boot_registry (health_New []) new_world
      = Inr (SetBest ''s'' [mk_ping ?n True 0] boot_registry, health_New [],
          set_gauges ''s'' (the (boot_registry ''s'')) 1 w')" by simp
  moreover have "st_Route (the (SetBest ''s'' [mk_ping ?n True 0] boot_registry ''s'')) = ''/s''"
    by (simp add: SetBest_def modify_def at)
  ultimately show thesis by (rule that)
qed

theorem main_serves_witness:
  "\<exists>table p. main_ready half_alive demo_mac (\<lambda>_. []) (\<lambda>_. Some boot_config) [''s.yaml'' \<mapsto> ''route: /s'']
      (Some [\<lparr>de_name = ''s.yaml'', de_isdir = False\<rparr>]) ''id'' new_world table p
    \<and> route table ((get_root [])\<lparr>in_escaped := ''/s''\<rparr>) = Reached Proxy_ep \<and> dom (sv_reg p) = {''s''}"
proof -
  let ?getenv = "\<lambda>_ :: string. [] :: string"
  let ?cfg = "loadConfig ?getenv"
  obtain log where l: "LoadAll ?getenv (\<lambda>_. Some boot_config) [''s.yaml'' \<mapsto> ''route: /s'']
     (Some [\<lparr>de_name = ''s.yaml'', de_isdir = False\<rparr>]) = Inr ([''s'' \<mapsto> boot_config], log)"
    using boot_load by blast
  then have r: "initRegistry ?getenv (\<lambda>_. Some boot_config) [''s.yaml'' \<mapsto> ''route: /s'']
     (Some [\<lparr>de_name = ''s.yaml'', de_isdir = False\<rparr>]) = Inr boot_registry"
    by (simp add: initRegistry_def boot_registry_def)
  have c: "health_New (TorSocks ?cfg) = health_New []"
    by (simp add: loadConfig_def getEnv_def health_New_def)
  obtain r' c' w' where hp: "health_pass half_alive [''s''] boot_registry (health_New []) new_world = Inr (r', c', w')"
    "st_Route (the (r' ''s'')) = ''/s''" by (rule boot_pass)
  have o: "is_order [''s''] boot_registry"
    by (auto simp: is_order_def boot_registry_def InitFromConfigs_def reg_New_def split: option.splits if_splits)
  obtain s where s: "reached half_alive initial_domains (start_pass boot_registry (health_New []) new_world) s"
    "active s = {}" "\<not> pa_crash s" "pa_reg s = r'"
    by (rule health_pass_reached [OF hp(1) o, of initial_domains]) (simp_all add: initial_domains_def)
  have k: "rel_option checked (boot_registry k) (r' k)" for k using pass_done [OF s(1,2)] s(4) by simp
  have d: "dom r' = dom boot_registry"
  proof (rule set_eqI)
    fix k show "k \<in> dom r' \<longleftrightarrow> k \<in> dom boot_registry"
      using k [of k] by (cases "r' k"; cases "boot_registry k") auto
  qed
  have "''s'' \<in> dom r'" using o d unfolding is_order_def by (metis list.set_intros(1))
  then obtain st where st: "r' ''s'' = Some st" by blast
  have o': "is_order [''s''] (pa_reg s)" using o d s(4) by (simp add: is_order_def)
  have "proxy_routes [''s''] r' = [(''/s'', Proxy_ep), (''/s/'', Proxy_ep)]"
    using hp(2) st by (simp add: proxy_routes_def reg_All_def gostr suffix_def)
  then obtain table where t: "registerRoutes [''s''] (pa_reg s) = Some table"
    by (simp add: registerRoutes_def static_routes_def s(4))
  obtain peers i addr where b: "initBootstrap half_alive demo_mac ''id'' (PodIP ?cfg) (Port ?cfg) (PodName ?cfg)
      (BootstrapURL ?cfg) (SharedSecret ?cfg) new_world = (peers, i, addr, new_world)"
    by (simp add: initBootstrap_def loadConfig_def getEnv_def Let_def)
  have run: "reached half_alive initial_domains (start_pass boot_registry (health_New (TorSocks ?cfg)) new_world) s"
    using s(1) by (simp only: c)
  have "\<exists>p. main_ready half_alive demo_mac ?getenv (\<lambda>_. Some boot_config) [''s.yaml'' \<mapsto> ''route: /s'']
      (Some [\<lparr>de_name = ''s.yaml'', de_isdir = False\<rparr>]) ''id'' new_world table p"
    by (rule exI, rule listening [OF refl b r run s(2,3) o' t])
  then obtain p where m: "main_ready half_alive demo_mac ?getenv (\<lambda>_. Some boot_config) [''s.yaml'' \<mapsto> ''route: /s'']
      (Some [\<lparr>de_name = ''s.yaml'', de_isdir = False\<rparr>]) ''id'' new_world table p" by blast
  have "[''s'' \<mapsto> boot_config] ''s'' = Some boot_config" by simp
  moreover have "plain_path (nc_Route boot_config)" unfolding plain_path_def boot_config_def NetworkConfig.simps by code_simp
  moreover have "in_escaped ((get_root [])\<lparr>in_escaped := ''/s''\<rparr>) = nc_Route boot_config" by (simp add: boot_config_def)
  ultimately have "route table ((get_root [])\<lparr>in_escaped := ''/s''\<rparr>) = Reached Proxy_ep"
    using main_serves [OF m l] by blast
  moreover from main_serves [OF m l] have "dom (sv_reg p) = {''s''}" by simp
  ultimately show ?thesis using m by blast
qed

end
