(* ===== verification/GasClients.thy ===== *)
theory GasClients
  imports GasCache
begin

text \<open>
  The gas handler of one of the five named networks with many clients at a time. Each client runs in a goroutine of its
  own; the oracle is behind a \<open>sync.Once\<close>, the cache behind a lock that is held for a look at it and
  for a store, and not while fees are fetched. \<open>gas_step\<close> is one step of one client, or the passing of
  time.
\<close>

text \<open>
  The part of a handler between the look at the cache and the store, without either: its answer, and
  the world afterwards.
\<close>

definition fetched ::
  "oracle_kind \<Rightarrow> env \<Rightarrow> registry \<Rightarrow> gas_oracle \<Rightarrow> world \<Rightarrow> (panic + response) \<times> world" where
  "fetched k E r orc w =
     (case refresh E orc (reg_Best r (network_of k)) (''no '' @ network_of k @ '' nodes'') (\<lambda>_ g. g) gas_init w of
        (Inl p, _, w') \<Rightarrow> (Inl p, w')
      | (Inr (Some rs), _, w') \<Rightarrow> (Inr rs, w')
      | (Inr None, _, w') \<Rightarrow> (Inl NilDeref, w'))"

text \<open>
  Where a client is: not there yet, before the initialisation, before the cache, fetching since the
  world it started in, about to store; answered from the cache at a time, answered with what it
  fetched, or ended by a panic.
\<close>

datatype gas_client =
    Absent | Entered | Looking gas_oracle | Fetching gas_oracle world | Storing gas_oracle response
  | Hit int string | Answered response | Broken panic

record gas_run =
  gr_gas :: gas_state
  gr_now :: int
  gr_client :: "nat \<Rightarrow> gas_client"

definition at :: "nat \<Rightarrow> gas_client \<Rightarrow> gas_run \<Rightarrow> gas_run" where
  "at i c s = s\<lparr>gr_client := (gr_client s)(i := c)\<rparr>"

text \<open>A client stores what it fetched, to expire when the oracle's time to live is over, and leaves.\<close>

definition stores :: "oracle_kind \<Rightarrow> nat \<Rightarrow> gas_oracle \<Rightarrow> response \<Rightarrow> gas_run \<Rightarrow> gas_run" where
  "stores k i orc rs s = at i (Answered rs)
     (s\<lparr>gr_gas := put_cache k (rs_body rs, gr_now s + TTLDuration orc) (gr_gas s)\<rparr>)"

text \<open>
  The registry may change at any time, so each step that reads it does so in any state \<open>r\<close>. A fetch
  takes its time: it is over when the clock has reached the time at which its last answer came.
\<close>

inductive gas_step :: "oracle_kind \<Rightarrow> env \<Rightarrow> gas_run \<Rightarrow> gas_run \<Rightarrow> bool" for k E where
  enter: "gr_client s i = Absent \<Longrightarrow> gas_step k E s (at i Entered s)"
| init: "gr_client s i = Entered \<Longrightarrow> once_init k r (gr_gas s) = (orc, g) \<Longrightarrow>
    gas_step k E s (at i (Looking orc) (s\<lparr>gr_gas := g\<rparr>))"
| hit: "gr_client s i = Looking orc \<Longrightarrow> fresh (gs_cache (gr_gas s) k) (gr_now s) = Some b \<Longrightarrow>
    gas_step k E s (at i (Hit (gr_now s) b) s)"
| miss: "gr_client s i = Looking orc \<Longrightarrow> fresh (gs_cache (gr_gas s) k) (gr_now s) = None \<Longrightarrow>
    clock w = gr_now s \<Longrightarrow> gas_step k E s (at i (Fetching orc w) s)"
| answer: "gr_client s i = Fetching orc w \<Longrightarrow> fetched k E r orc w = (Inr rs, w') \<Longrightarrow> clock w' \<le> gr_now s \<Longrightarrow>
    gas_step k E s (at i (if is_2xx (rs_status rs) then Storing orc rs else Answered rs) s)"
| panic: "gr_client s i = Fetching orc w \<Longrightarrow> fetched k E r orc w = (Inl p, w') \<Longrightarrow> clock w' \<le> gr_now s \<Longrightarrow>
    gas_step k E s (at i (Broken p) s)"
| store: "gr_client s i = Storing orc rs \<Longrightarrow> gas_step k E s (stores k i orc rs s)"
| tick: "gr_now s \<le> now \<Longrightarrow> gas_step k E s (s\<lparr>gr_now := now\<rparr>)"

inductive gas_reached :: "oracle_kind \<Rightarrow> env \<Rightarrow> gas_run \<Rightarrow> gas_run \<Rightarrow> bool" for k E where
  here: "gas_reached k E s s"
| onward: "gas_step k E s t \<Longrightarrow> gas_reached k E t u \<Longrightarrow> gas_reached k E s u"

definition gas_start :: "int \<Rightarrow> gas_run" where
  "gas_start now = \<lparr>gr_gas = gas_init, gr_now = now, gr_client = (\<lambda>_. Absent)\<rparr>"

lemma at_simps [simp]:
  "gr_gas (at i c s) = gr_gas s" "gr_now (at i c s) = gr_now s"
  "gr_client (at i c s) = (gr_client s)(i := c)"
  by (simp_all add: at_def)

lemma gas_reached_trans: "gas_reached k E s t \<Longrightarrow> gas_reached k E t u \<Longrightarrow> gas_reached k E s u"
  by (induction rule: gas_reached.induct) (auto intro: gas_reached.onward)

lemma gas_one: "gas_step k E s t \<Longrightarrow> gas_reached k E s t"
  by (blast intro: gas_reached.intros)

lemma gas_then: "gas_step k E s t \<Longrightarrow> gas_step k E t u \<Longrightarrow> gas_reached k E s u"
  by (blast intro: gas_reached.intros)

section \<open>The invariant\<close>

text \<open>
  What happened on the way from \<open>s0\<close> to \<open>s\<close>: client \<open>i\<close> was fetching with the oracle \<open>orc\<close>, and its
  fetch brought the success \<open>rs\<close> by the time it was over; and it stored what it had so fetched at
  the time \<open>t0\<close>.
\<close>

definition has_fetched ::
  "oracle_kind \<Rightarrow> env \<Rightarrow> gas_run \<Rightarrow> gas_run \<Rightarrow> nat \<Rightarrow> gas_oracle \<Rightarrow> response \<Rightarrow> bool" where
  "has_fetched k E s0 s i orc rs \<longleftrightarrow>
     (\<exists>s1 r w w'. gas_reached k E s0 s1 \<and> gr_client s1 i = Fetching orc w
        \<and> fetched k E r orc w = (Inr rs, w') \<and> is_2xx (rs_status rs) \<and> clock w' \<le> gr_now s1
        \<and> gas_reached k E s1 s)"

definition has_stored ::
  "oracle_kind \<Rightarrow> env \<Rightarrow> gas_run \<Rightarrow> gas_run \<Rightarrow> nat \<Rightarrow> gas_oracle \<Rightarrow> response \<Rightarrow> int \<Rightarrow> bool" where
  "has_stored k E s0 s i orc rs t0 \<longleftrightarrow>
     (\<exists>s1. has_fetched k E s0 s1 i orc rs \<and> gr_client s1 i = Storing orc rs \<and> gr_now s1 = t0
        \<and> gas_step k E s1 (stores k i orc rs s1) \<and> gas_reached k E (stores k i orc rs s1) s)"

lemma has_later:
  assumes "gas_step k E s t"
  shows "has_fetched k E s0 s i orc rs \<Longrightarrow> has_fetched k E s0 t i orc rs"
    and "has_stored k E s0 s i orc rs t0 \<Longrightarrow> has_stored k E s0 t i orc rs t0"
  unfolding has_fetched_def has_stored_def using gas_reached_trans [OF _ gas_one [OF assms]] by blast+

text \<open>The oracle a client works with, and what a client may hold; what the cache may hold.\<close>

definition client_ok :: "oracle_kind \<Rightarrow> env \<Rightarrow> gas_run \<Rightarrow> gas_run \<Rightarrow> nat \<Rightarrow> gas_client \<Rightarrow> bool" where
  "client_ok k E s0 s i c =
     (case c of
        Looking orc \<Rightarrow> gs_oracle (gr_gas s) k = Some orc
      | Fetching orc w \<Rightarrow> gs_oracle (gr_gas s) k = Some orc
      | Storing orc rs \<Rightarrow> gs_oracle (gr_gas s) k = Some orc \<and> has_fetched k E s0 s i orc rs
      | Hit t b \<Rightarrow> (\<exists>orc j rs t0. gs_oracle (gr_gas s) k = Some orc \<and> has_stored k E s0 s j orc rs t0
          \<and> rs_body rs = b \<and> t0 \<le> t \<and> t < t0 + TTL orc)
      | _ \<Rightarrow> True)"

definition entry_ok :: "oracle_kind \<Rightarrow> env \<Rightarrow> gas_run \<Rightarrow> gas_run \<Rightarrow> string \<times> int \<Rightarrow> bool" where
  "entry_ok k E s0 s = (\<lambda>(b, e). \<exists>orc j rs t0. gs_oracle (gr_gas s) k = Some orc
     \<and> has_stored k E s0 s j orc rs t0 \<and> rs_body rs = b \<and> t0 \<le> gr_now s \<and> e = t0 + TTL orc)"

definition gas_ok :: "oracle_kind \<Rightarrow> env \<Rightarrow> gas_run \<Rightarrow> gas_run \<Rightarrow> bool" where
  "gas_ok k E s0 s \<longleftrightarrow> gas_reached k E s0 s \<and> (\<forall>i. client_ok k E s0 s i (gr_client s i))
     \<and> pred_option (entry_ok k E s0 s) (gs_cache (gr_gas s) k)"

lemma gas_okD:
  assumes "gas_ok k E s0 s"
  shows "gas_reached k E s0 s" "gr_client s i = c \<Longrightarrow> client_ok k E s0 s i c"
    "gs_cache (gr_gas s) k = Some be \<Longrightarrow> entry_ok k E s0 s be"
  using assms by (auto simp: gas_ok_def)

lemma stores_simps [simp]:
  "gr_client (stores k i orc rs s) = (gr_client s)(i := Answered rs)" "gr_now (stores k i orc rs s) = gr_now s"
  "gs_oracle (gr_gas (stores k i orc rs s)) = gs_oracle (gr_gas s)"
  "gs_cache (gr_gas (stores k i orc rs s)) k = Some (rs_body rs, gr_now s + TTL orc)"
  by (simp_all add: stores_def put_cache_def TTLDuration_def)

text \<open>Time goes on, and the oracle, once made, stays.\<close>

lemma gas_step_grows:
  "gas_step k E s t \<Longrightarrow> gs_oracle (gr_gas s) k \<in> {None, gs_oracle (gr_gas t) k} \<and> gr_now s \<le> gr_now t"
proof (induction rule: gas_step.induct)
  case (init s i r orc g)
  then show ?case by (auto simp: once_init_def Let_def split: option.splits)
qed simp_all

lemma client_ok_later:
  assumes "gas_step k E s t" "client_ok k E s0 s i c"
  shows "client_ok k E s0 t i c"
proof (cases c)
  case (Hit u b)
  with assms gas_step_grows [OF assms(1)] has_later(2) [OF assms(1)] show ?thesis
    by (simp add: client_ok_def) (metis option.distinct(1))
qed (use assms gas_step_grows [OF assms(1)] has_later(1) [OF assms(1)] in \<open>auto simp: client_ok_def\<close>)

lemma entry_ok_later:
  assumes "gas_step k E s t" "entry_ok k E s0 s be"
  shows "entry_ok k E s0 t be"
  using assms gas_step_grows [OF assms(1)] has_later(2) [OF assms(1)]
  by (cases be) (simp add: entry_ok_def, metis option.distinct(1) order_trans)

text \<open>A step that moves one client keeps the invariant if it leaves that client and the cache well.\<close>

lemma gas_ok_moves:
  assumes "gas_ok k E s0 s" "gas_step k E s t" "\<forall>j. j \<noteq> i \<longrightarrow> gr_client t j = gr_client s j"
    "client_ok k E s0 t i (gr_client t i)"
    "gs_cache (gr_gas t) k = gs_cache (gr_gas s) k \<or> pred_option (entry_ok k E s0 t) (gs_cache (gr_gas t) k)"
  shows "gas_ok k E s0 t"
proof -
  have "client_ok k E s0 t j (gr_client t j)" for j
    using assms(3,4) client_ok_later [OF assms(2) gas_okD(2) [OF assms(1)]] by (cases "j = i") auto
  moreover have "pred_option (entry_ok k E s0 t) (gs_cache (gr_gas s) k)"
    using entry_ok_later [OF assms(2) gas_okD(3) [OF assms(1)]] by (cases "gs_cache (gr_gas s) k") simp_all
  ultimately show ?thesis
    using assms(5) gas_reached_trans [OF gas_okD(1) [OF assms(1)] gas_one [OF assms(2)]]
    by (auto simp: gas_ok_def)
qed

lemma gas_ok_hit:
  assumes "gas_ok k E s0 s" "fresh (gs_cache (gr_gas s) k) (gr_now s) = Some b"
    "gas_step k E s (at i (Hit (gr_now s) b) s)"
  shows "gas_ok k E s0 (at i (Hit (gr_now s) b) s)"
proof -
  from assms(2) obtain e where "gs_cache (gr_gas s) k = Some (b, e)" "gr_now s < e"
    by (auto simp: fresh_def split: option.splits if_splits)
  with entry_ok_later [OF assms(3) gas_okD(3) [OF assms(1)]] show ?thesis
    by (intro gas_ok_moves [OF assms(1,3), of i]) (auto simp: entry_ok_def client_ok_def)
qed

lemma gas_ok_answer:
  assumes "gas_ok k E s0 s" "gr_client s i = Fetching orc w" "fetched k E r orc w = (Inr rs, w')" "clock w' \<le> gr_now s"
    "gas_step k E s (at i (if is_2xx (rs_status rs) then Storing orc rs else Answered rs) s)" (is "gas_step k E s ?t")
  shows "gas_ok k E s0 ?t"
proof -
  have "has_fetched k E s0 ?t i orc rs" if "is_2xx (rs_status rs)"
    unfolding has_fetched_def
    using gas_okD(1) [OF assms(1)] assms(2,3,4) that gas_one [OF assms(5)] by blast
  moreover have "gs_oracle (gr_gas s) k = Some orc"
    using gas_okD(2) [OF assms(1,2)] by (simp add: client_ok_def)
  ultimately show ?thesis by (intro gas_ok_moves [OF assms(1,5), of i]) (simp_all add: client_ok_def)
qed

lemma gas_ok_store:
  assumes "gas_ok k E s0 s" "gr_client s i = Storing orc rs"
  shows "gas_ok k E s0 (stores k i orc rs s)"
proof -
  have t: "gas_step k E s (stores k i orc rs s)" by (rule store [OF assms(2)])
  from gas_okD(2) [OF assms] have "gs_oracle (gr_gas s) k = Some orc" "has_fetched k E s0 s i orc rs"
    by (simp_all add: client_ok_def)
  then have "gs_oracle (gr_gas s) k = Some orc" "has_stored k E s0 (stores k i orc rs s) i orc rs (gr_now s)"
    unfolding has_stored_def using assms(2) t gas_reached.here by blast+
  then have "entry_ok k E s0 (stores k i orc rs s) (rs_body rs, gr_now s + TTL orc)"
    by (auto simp: entry_ok_def)
  then show ?thesis by (intro gas_ok_moves [OF assms(1) t, of i]) (simp_all add: client_ok_def)
qed

lemma gas_ok_step: "gas_step k E s t \<Longrightarrow> gas_ok k E s0 s \<Longrightarrow> gas_ok k E s0 t"
proof (induction rule: gas_step.induct)
  case (enter s i)
  from gas_ok_moves [OF enter(2) gas_step.enter [OF enter(1)], of i] show ?case by (simp add: client_ok_def)
next
  case (init s i r orc g)
  have "gs_oracle g k = Some orc" "gs_cache g = gs_cache (gr_gas s)"
    using once_init_simps [of k r "gr_gas s"] init(2) by simp_all
  with gas_ok_moves [OF init(3) gas_step.init [OF init(1,2)], of i] show ?case by (simp add: client_ok_def)
next
  case (hit s i orc b)
  show ?case by (rule gas_ok_hit [OF hit(3,2) gas_step.hit [OF hit(1,2)]])
next
  case (miss s i orc w)
  from gas_okD(2) [OF miss(4,1)] gas_ok_moves [OF miss(4) gas_step.miss [OF miss(1-3)], of i]
  show ?case by (simp add: client_ok_def)
next
  case (answer s i orc w r rs w')
  show ?case by (rule gas_ok_answer [OF answer(4,1-3) gas_step.answer [OF answer(1-3)]])
next
  case (panic s i orc w r p w')
  from gas_ok_moves [OF panic(4) gas_step.panic [OF panic(1-3)], of i] show ?case by (simp add: client_ok_def)
next
  case (store s i orc rs)
  show ?case by (rule gas_ok_store [OF store(2,1)])
next
  case (tick s now)
  from client_ok_later [OF gas_step.tick [OF tick(1)] gas_okD(2) [OF tick(2) refl]]
    gas_ok_moves [OF tick(2) gas_step.tick [OF tick(1)], of 0]
  show ?case by simp
qed

lemma gas_ok_reached: "gas_reached k E s t \<Longrightarrow> gas_ok k E s0 s \<Longrightarrow> gas_ok k E s0 t"
  by (induction rule: gas_reached.induct) (auto intro: gas_ok_step)

lemma gas_ok_start: "gas_ok k E (gas_start now) (gas_start now)"
  by (simp add: gas_ok_def gas_start_def gas_init_def client_ok_def gas_reached.here)

section \<open>Steps of one client\<close>

lemma refresh_fetched:
  assumes "fetched k E r orc w = (x, w')"
  shows "refresh E orc (reg_Best r (network_of k)) (''no '' @ network_of k @ '' nodes'') put_entry g w =
    (case x of Inl p \<Rightarrow> (Inl p, g, w')
     | Inr rs \<Rightarrow> (served rs, if is_2xx (rs_status rs)
                       then put_entry (rs_body rs, clock w' + TTLDuration orc) g else g, w'))"
proof -
  obtain o1 w1 where f: "FetchFromOfficial orc E w = (o1, w1)" by fastforce
  obtain c w2 where c: "first_report (ComputeFromRPCBytes orc E) (reg_Best r (network_of k)) w1 = (c, w2)" by fastforce
  have codes: "\<not> is_2xx 503" "\<not> is_2xx 502" "is_2xx 200" by (simp_all add: is_2xx_iff)
  show ?thesis
  proof (cases o1)
    case (Inl p)
    with assms f show ?thesis by (auto simp: fetched_def refresh_def)
  next
    case (Inr o2)
    show ?thesis
    proof (cases "\<exists>b code. o2 = Some (b, code) \<and> is_2xx code")
      case True
      with assms f Inr show ?thesis by (auto simp: fetched_def refresh_def served_def json_reply_def)
    next
      case False
      then have "(case o2 of Some (b, code) \<Rightarrow> if is_2xx code then Some (b, code) else None | None \<Rightarrow> None) = None"
        by (auto split: option.split)
      with assms f Inr c codes show ?thesis
        by (cases c) (auto simp: fetched_def refresh_def served_def json_reply_def http_error_def
            split: if_splits option.splits)
    qed
  qed
qed

lemma fetched_clock: "fetched k E r orc w = (x, w') \<Longrightarrow> clock w \<le> clock w'"
  using refresh_fetched [of k E r orc w x w' "\<lambda>_ g. g" gas_init]
  by (auto dest: refresh_clock split: sum.splits)

text \<open>What a fetch that is over leads to: its client leaves, having stored a success.\<close>

definition after_fetch ::
  "oracle_kind \<Rightarrow> nat \<Rightarrow> gas_oracle \<Rightarrow> panic + response \<Rightarrow> gas_run \<Rightarrow> gas_run" where
  "after_fetch k i orc x s =
     (case x of Inl p \<Rightarrow> at i (Broken p) s
      | Inr rs \<Rightarrow> if is_2xx (rs_status rs) then stores k i orc rs s else at i (Answered rs) s)"

lemma at_at [simp]: "at i c (at i c' s) = at i c s"
  by (simp add: at_def)

lemma at_update [simp]:
  "(at i c s)\<lparr>gr_gas := g\<rparr> = at i c (s\<lparr>gr_gas := g\<rparr>)" "(at i c s)\<lparr>gr_now := n\<rparr> = at i c (s\<lparr>gr_now := n\<rparr>)"
  by (simp_all add: at_def)

lemma fetch_ends:
  assumes "gr_client s i = Fetching orc w" "fetched k E r orc w = (x, w')"
  shows "gas_reached k E s (after_fetch k i orc x (s\<lparr>gr_now := max (gr_now s) (clock w')\<rparr>))"
proof -
  let ?s = "s\<lparr>gr_now := max (gr_now s) (clock w')\<rparr>"
  have t: "gas_step k E s ?s" by (rule tick) simp
  have c: "gr_client ?s i = Fetching orc w" "clock w' \<le> gr_now ?s" using assms(1) by simp_all
  show ?thesis
  proof (cases x)
    case (Inl p)
    with panic [OF c(1) _ c(2)] assms(2) gas_then [OF t] show ?thesis by (simp add: after_fetch_def)
  next
    case (Inr rs)
    from answer [OF c(1) assms(2) [unfolded Inr] c(2)]
    have a: "gas_step k E ?s (at i (if is_2xx (rs_status rs) then Storing orc rs else Answered rs) ?s)" .
    have "gas_reached k E ?s (after_fetch k i orc (Inr rs) ?s)"
    proof (cases "is_2xx (rs_status rs)")
      case True
      from gas_then [OF a store [of _ i orc rs]] True show ?thesis by (simp add: after_fetch_def stores_def)
    next
      case False
      with gas_one [OF a] show ?thesis by (simp add: after_fetch_def)
    qed
    with Inr t show ?thesis by (blast intro: gas_reached.onward)
  qed
qed

text \<open>A client comes and finds the oracle made, or makes it.\<close>

lemma gas_looking:
  assumes "gr_client s i = Absent" "once_init k r (gr_gas s) = (orc, g)"
  shows "gas_reached k E s (at i (Looking orc) (s\<lparr>gr_gas := g\<rparr>))"
proof -
  have "gas_step k E (at i Entered s) (at i (Looking orc) ((at i Entered s)\<lparr>gr_gas := g\<rparr>))"
    by (rule init [where r = r]) (simp_all add: assms(2))
  with enter [OF assms(1)] show ?thesis by (auto intro: gas_then)
qed

section \<open>Properties\<close>

text \<open>
  (C23) However the clients of the gas endpoint of one of the five named networks interleave: a client
  that is answered from the cache at the time \<open>t\<close> gets the body that a client stored in this run, not
  later than \<open>t\<close> and less than the oracle's time to live before; that client had got it from a fetch
  of its own in this run, which ended in a success; and both used the oracle the network still has.
\<close>
theorem gas_hits_fresh:
  assumes "gas_reached k E (gas_start now) s" "gr_client s i = Hit t b"
  shows "\<exists>orc j rs t0. gs_oracle (gr_gas s) k = Some orc \<and> t0 \<le> t \<and> t < t0 + TTL orc
    \<and> rs_body rs = b \<and> has_stored k E (gas_start now) s j orc rs t0"
  using gas_okD(2) [OF gas_ok_reached [OF assms(1) gas_ok_start] assms(2)]
  by (auto simp: client_ok_def)

text \<open>
  A client that is alone is served as by the handler: the steps lead to the handler's answer, to
  its state and to its time. So every run of the handler is one of the interleavings.
\<close>
theorem gas_alone:
  assumes "serve_network_gas k E r (gr_gas s) w = (res, g', w')" "clock w = gr_now s" "gr_client s i = Absent"
  shows "\<exists>t. gas_reached k E s t \<and> gr_gas t = g' \<and> gr_now t = clock w' \<and>
    (case res of Inl p \<Rightarrow> gr_client t i = Broken p
     | Inr None \<Rightarrow> False
     | Inr (Some rs) \<Rightarrow> gr_client t i = Answered rs
         \<or> (\<exists>b. rs = json_reply 200 b \<and> gr_client t i = Hit (gr_now s) b))"
proof -
  let ?orc = "fst (once_init k r (gr_gas s))" and ?g = "snd (once_init k r (gr_gas s))"
  let ?s = "at i (Looking ?orc) (s\<lparr>gr_gas := ?g\<rparr>)"
  have looking: "gas_reached k E s ?s" by (rule gas_looking [OF assms(3)]) simp
  have c: "gs_cache (gr_gas ?s) = gs_cache (gr_gas s)" by (simp add: once_init_simps)
  have l: "gr_client ?s i = Looking ?orc" by simp
  show ?thesis
  proof (cases "fresh (gs_cache (gr_gas s) k) (gr_now s)")
    case (Some b)
    with hit [OF l] c have "gas_step k E ?s (at i (Hit (gr_now s) b) ?s)" by simp
    from gas_reached_trans [OF looking gas_one [OF this]] Some serve_fresh [of "gr_gas s" k w b E r] assms(1,2)
    show ?thesis by (intro exI [of _ "at i (Hit (gr_now s) b) ?s"]) (auto simp: served_def)
  next
    case None
    let ?f = "at i (Fetching ?orc w) ?s"
    from None miss [OF l] c assms(2) have f: "gas_reached k E s ?f"
      by (intro gas_reached_trans [OF looking gas_one]) simp
    obtain x v where x: "fetched k E r ?orc w = (x, v)" by fastforce
    let ?t = "after_fetch k i ?orc x (?f\<lparr>gr_now := max (gr_now ?f) (clock v)\<rparr>)"
    have "gas_reached k E s ?t"
      by (rule gas_reached_trans [OF f fetch_ends [OF _ x]]) simp
    moreover have "max (gr_now ?f) (clock v) = clock v" using fetched_clock [OF x] assms(2) by simp
    moreover have "(case x of Inl p \<Rightarrow> (Inl p, ?g, v) | Inr rs \<Rightarrow> (served rs, if is_2xx (rs_status rs)
        then put_cache k (rs_body rs, clock v + TTLDuration ?orc) ?g else ?g, v)) = (res, g', w')"
      using assms(1,2) None serve_stale [of "gr_gas s" k w E r] refresh_fetched [OF x] by simp
    ultimately show ?thesis
      by (intro exI [of _ ?t]) (cases x; auto simp: after_fetch_def stores_def served_def)
  qed
qed

text \<open>
  No client waits for another: from every state in which a client has entered, its own steps and
  the passing of time bring it to an answer, while the others stay where they are.
\<close>
theorem gas_client_leaves:
  assumes "gr_client s i \<noteq> Absent"
  shows "\<exists>t. gas_reached k E s t \<and> (\<exists>rs b u p. gr_client t i \<in> {Answered rs, Hit u b, Broken p})
    \<and> (\<forall>j. j \<noteq> i \<longrightarrow> gr_client t j = gr_client s j)"
proof -
  let ?leaves = "\<lambda>s. \<exists>t. gas_reached k E s t \<and> (\<exists>rs b u p. gr_client t i \<in> {Answered rs, Hit u b, Broken p})
    \<and> (\<forall>j. j \<noteq> i \<longrightarrow> gr_client t j = gr_client s j)"
  have on: "?leaves s" if "gas_step k E s t" "?leaves t" "\<forall>j. j \<noteq> i \<longrightarrow> gr_client t j = gr_client s j" for s t
    using that by (metis gas_reached.onward)
  have here: "?leaves s" if "gr_client s i \<in> {Answered rs, Hit u b, Broken p}" for s rs u b p
    using that by (blast intro: gas_reached.here)
  have storing: "?leaves s" if "gr_client s i = Storing orc rs" for s orc rs
    by (rule on [OF store [OF that] here]) auto
  have fetching: "?leaves s" if f: "gr_client s i = Fetching orc w" for s orc w
  proof -
    obtain x w' where x: "fetched k E Map.empty orc w = (x, w')" by fastforce
    have "\<exists>rs b u p. gr_client (after_fetch k i orc x v) i \<in> {Answered rs, Hit u b, Broken p}"
      "\<forall>j. j \<noteq> i \<longrightarrow> gr_client (after_fetch k i orc x v) j = gr_client v j" for v
      by (cases x; simp add: after_fetch_def)+
    with fetch_ends [OF f x] show ?thesis by (metis gas_run.select_convs(3) gas_run.surjective gas_run.update_convs(2))
  qed
  have looking: "?leaves s" if l: "gr_client s i = Looking orc" for s orc
  proof (cases "fresh (gs_cache (gr_gas s) k) (gr_now s)")
    case (Some b)
    show ?thesis by (rule on [OF hit [OF l Some] here]) auto
  next
    case None
    show ?thesis
      by (rule on [OF miss [OF l None, of "new_world\<lparr>clock := gr_now s\<rparr>"] fetching]) auto
  qed
  have entered: "?leaves s" if "gr_client s i = Entered" for s
  proof (rule on)
    let ?x = "once_init k Map.empty (gr_gas s)"
    show "gas_step k E s (at i (Looking (fst ?x)) (s\<lparr>gr_gas := snd ?x\<rparr>))" by (rule init [OF that]) simp
    show "?leaves (at i (Looking (fst ?x)) (s\<lparr>gr_gas := snd ?x\<rparr>))" by (rule looking) simp
  qed simp
  show ?thesis
    using assms by (cases "gr_client s i") (blast intro: entered looking fetching storing here)+
qed

text \<open>
  Nothing keeps clients that find the entry expired from fetching at the same time: all that come
  before the first of them has stored do.
\<close>
theorem gas_stampede:
  assumes "fresh (gs_cache (gr_gas s) k) (gr_now s) = None" "\<forall>i < n. gr_client s i = Absent"
  shows "\<exists>t. gas_reached k E s t \<and> (\<forall>i < n. \<exists>orc w. gr_client t i = Fetching orc w) \<and> gr_now t = gr_now s"
proof -
  have "\<exists>t. gas_reached k E s t \<and> (\<forall>i < m. \<exists>orc w. gr_client t i = Fetching orc w) \<and> gr_now t = gr_now s
      \<and> gs_cache (gr_gas t) = gs_cache (gr_gas s) \<and> (\<forall>i \<ge> m. gr_client t i = gr_client s i)" if "m \<le> n" for m
    using that
  proof (induction m)
    case 0
    then show ?case by (blast intro: gas_reached.here)
  next
    case (Suc m)
    then obtain t where t: "gas_reached k E s t" "\<forall>i < m. \<exists>orc w. gr_client t i = Fetching orc w"
      "gr_now t = gr_now s" "gs_cache (gr_gas t) = gs_cache (gr_gas s)" "\<forall>i \<ge> m. gr_client t i = gr_client s i"
      by auto
    let ?orc = "fst (once_init k Map.empty (gr_gas t))" and ?g = "snd (once_init k Map.empty (gr_gas t))"
    let ?w = "new_world\<lparr>clock := gr_now t\<rparr>"
    have "gr_client t m = Absent" using t(5) assms(2) Suc.prems by simp
    then have "gas_reached k E t (at m (Looking ?orc) (t\<lparr>gr_gas := ?g\<rparr>))" by (rule gas_looking) simp
    moreover have "gas_step k E (at m (Looking ?orc) (t\<lparr>gr_gas := ?g\<rparr>)) (at m (Fetching ?orc ?w) (t\<lparr>gr_gas := ?g\<rparr>))"
      using miss [of "at m (Looking ?orc) (t\<lparr>gr_gas := ?g\<rparr>)" m ?orc k ?w E] t(3,4) assms(1)
      by (simp add: once_init_simps)
    ultimately have "gas_reached k E s (at m (Fetching ?orc ?w) (t\<lparr>gr_gas := ?g\<rparr>))"
      using gas_reached_trans [OF t(1) gas_reached_trans [OF _ gas_one]] by blast
    moreover have "\<forall>i < Suc m. \<exists>orc w. ((gr_client t)(m := Fetching ?orc ?w)) i = Fetching orc w"
      using t(2) by (simp add: less_Suc_eq)
    moreover have "\<forall>i \<ge> Suc m. ((gr_client t)(m := Fetching ?orc ?w)) i = gr_client s i"
      using t(5) by simp
    moreover have "gs_cache ?g = gs_cache (gr_gas s)" using t(4) by (simp add: once_init_simps)
    ultimately show ?case using t(3) by (intro exI [of _ "at m (Fetching ?orc ?w) (t\<lparr>gr_gas := ?g\<rparr>)"]) simp
  qed
  from this [of n] show ?thesis by auto
qed

subsection \<open>Instances\<close>

text \<open>One client fetches, the next is answered from the cache.\<close>

lemma two_clients:
  obtains s where "gas_reached Eth gas_env (gas_start 0) s" "gr_client s 1 = Hit 0 ''{}''"
proof -
  let ?orc = "\<lparr>ora_kind = Eth, MinPrioGwei = 2, ora_URL = ''u'', TTL = sec 10\<rparr>"
  let ?k = Eth and ?E = gas_env and ?s = "gas_start 0"
  obtain g where o: "once_init Eth gas_registry gas_init = (?orc, g)" and g: "gs_oracle g Eth = Some ?orc" "gs_cache g = gs_cache gas_init"
    by (simp add: once_init_def gas_init_def gas_registry_def New_oracle_defs reg_All_def network_of_def
        sample_network_def Let_def)
  let ?t = "?s\<lparr>gr_gas := g\<rparr>"
  have 1: "gas_reached ?k ?E ?s (at 0 (Looking ?orc) ?t)"
    by (rule gas_looking [of _ _ _ gas_registry]) (simp_all add: gas_start_def o)
  have 2: "gas_step ?k ?E (at 0 (Looking ?orc) ?t) (at 0 (Fetching ?orc new_world) (at 0 (Looking ?orc) ?t))"
    by (rule miss [of _ _ ?orc]) (simp_all add: g fresh_def gas_init_def gas_start_def)
  obtain w where w: "fetched ?k ?E gas_registry ?orc new_world = (Inr (json_reply 200 ''{}''), w)" "clock w = 0"
    by (simp add: fetched_def refresh_def FetchFromOfficial_eq official_answer_def gas_env_def send_def client_do_def
        reply_with_def is_2xx_iff served_def)
  let ?u = "at 0 (Answered (json_reply 200 ''{}'')) (?t\<lparr>gr_gas := put_cache ?k (''{}'', sec 10) g\<rparr>)"
  have 3: "gas_reached ?k ?E (at 0 (Fetching ?orc new_world) (at 0 (Looking ?orc) ?t)) ?u"
    using fetch_ends [of "at 0 (Fetching ?orc new_world) (at 0 (Looking ?orc) ?t)" 0 ?orc new_world ?k ?E, OF _ w(1)]
    by (simp add: after_fetch_def stores_def w(2) json_reply_def is_2xx_iff gas_start_def TTLDuration_def at_def)
  let ?v = "at 1 (Looking ?orc) ?u"
  have "once_init ?k gas_registry (gr_gas ?u) = (?orc, gr_gas ?u)"
    by (rule once_init_known) (simp add: put_cache_def g)
  from gas_looking [OF _ this, of 1 ?E] have 4: "gas_reached ?k ?E ?u ?v" by (simp add: gas_start_def)
  have "gas_step ?k ?E ?v (at 1 (Hit (gr_now ?v) ''{}'') ?v)"
    by (rule hit [of _ _ ?orc]) (simp_all add: put_cache_def fresh_def gas_start_def sec_def)
  from gas_reached_trans [OF gas_reached_trans [OF gas_reached_trans [OF 1 gas_one [OF 2]]
      gas_reached_trans [OF 3 4]] gas_one [OF this]]
  show thesis by (rule that) (simp add: gas_start_def)
qed

theorem gas_hits_fresh_witness:
  "\<exists>s j orc rs t0. gas_reached Eth gas_env (gas_start 0) s \<and> gr_client s 1 = Hit 0 ''{}''
     \<and> has_stored Eth gas_env (gas_start 0) s j orc rs t0 \<and> rs_body rs = ''{}'' \<and> t0 \<le> 0 \<and> 0 < t0 + TTL orc"
proof -
  obtain s where s: "gas_reached Eth gas_env (gas_start 0) s" "gr_client s 1 = Hit 0 ''{}''" by (rule two_clients)
  with gas_hits_fresh [OF s] show ?thesis by blast
qed

end
