(* ===== verification/Confinement.thy ===== *)
theory Confinement
  imports Proxy Mux
begin

text \<open>
  The muxes, the proxy and the adapters together: which paths of a node's host a client can reach. A
  node's URL often ends in a path that holds an API key; the proxy appends the client's path to it.
  A segment \<open>..\<close> would lead out of the node's path.
\<close>

definition climbs :: "string \<Rightarrow> bool" where
  "climbs s \<longleftrightarrow> ''..'' \<in> set (Split s (CHR ''/''))"

section \<open>Segments\<close>

lemma Split_append: "Split (s @ c # t) c = Split s c @ Split t c"
  by (induction s) (auto split: list.split)

lemma climbs_Nil [simp]: "\<not> climbs []"
  by (simp add: climbs_def)

lemma climbs_append [simp]: "climbs (s @ CHR ''/'' # t) \<longleftrightarrow> climbs s \<or> climbs t"
  by (simp add: climbs_def Split_append)

lemma climbs_slash [simp]: "climbs (CHR ''/'' # s) \<longleftrightarrow> climbs s"
  using climbs_append [of "[]" s] by simp

lemma climbs_plain: "CHR ''/'' \<notin> set s \<Longrightarrow> climbs s \<longleftrightarrow> s = ''..''"
  by (auto simp: climbs_def Split_self)

lemma climbs_TrimLeft: "climbs (TrimLeft s ''/'') \<Longrightarrow> climbs s"
  by (induction s) (auto simp: TrimLeft_def split: if_splits)

lemma climbs_TrimPrefix: "climbs (TrimPrefix s (p @ ''/'')) \<Longrightarrow> climbs s"
  by (auto simp: TrimPrefix_def prefix_def split: if_splits)

lemma lower_dots: "ToLower s = ''..'' \<longleftrightarrow> s = ''..''"
proof -
  have "lower_char c = CHR ''.'' \<longleftrightarrow> c = CHR ''.''" for c by (cases c) (auto split: if_splits)
  then show ?thesis by (auto simp: ToLower_def map_eq_Cons_conv)
qed

lemma Split_ToLower: "Split (ToLower s) (CHR ''/'') = map ToLower (Split s (CHR ''/''))"
  by (induction s) (auto simp: ToLower_def lower_char_slash split: list.split)

lemma climbs_ToLower [simp]: "climbs (ToLower s) \<longleftrightarrow> climbs s"
proof -
  have "''..'' = ToLower w \<longleftrightarrow> w = ''..''" for w using lower_dots [of w] by metis
  then show ?thesis by (simp add: climbs_def Split_ToLower image_iff)
qed

lemma climbs_split_path:
  assumes "split_path path = (network, tail)" "climbs tail"
  shows "climbs path"
proof -
  let ?parts = "Split (TrimPrefix path ''/'') (CHR ''/'')"
  have t: "tail = (if 1 < length ?parts then Join (tl ?parts) ''/'' else [])"
    using assms(1) by (auto simp: split_path_def Let_def)
  with assms(2) have l: "tl ?parts \<noteq> []" "tail = Join (tl ?parts) ''/''"
    by (cases ?parts; auto split: if_splits)+
  have "list_all (\<lambda>s. CHR ''/'' \<notin> set s) (tl ?parts)"
    by (auto simp: list_all_iff dest: list.set_sel(2) [rotated] Split_no_sep)
  from Split_Join [OF l(1) this] have "Split tail (CHR ''/'') = tl ?parts" using l(2) by simp
  with assms(2) have "climbs (TrimPrefix path ''/'')" by (auto simp: climbs_def dest: list.set_sel(2) [rotated])
  with climbs_TrimPrefix [of path "[]"] show ?thesis by simp
qed

section \<open>What the adapters make of the path\<close>

lemma climbs_low_tail: "climbs (low_tail tail) \<Longrightarrow> climbs tail"
  using climbs_TrimPrefix [of tail "[]"] by (simp add: low_tail_def)

lemma climbs_address: "climbs (TrimPrefix (low_tail tail) ''balance/'') \<Longrightarrow> climbs tail"
  using climbs_TrimPrefix [of "low_tail tail" "''balance''"] climbs_low_tail by simp

text \<open>The paths that are written into the adapters.\<close>

definition own_tails :: "string set" where
  "own_tails = {[], ''blocks/tip/height'', ''v3/blockchain/fee/BTC'', ''api/v1/block/count'', ''api/v2'',
     ''rest/chaininfo.json'', ''api/v2/get_info/LTC''}"

lemma own_tails: "t \<in> own_tails \<Longrightarrow> \<not> climbs t"
  by (auto simp: own_tails_def climbs_def)

lemma adapted_tails:
  "ad_Tail (adaptTRX tail m body) \<in> {tail, ''v1/accounts/'' @ TrimPrefix (low_tail tail) ''balance/''}"
  "ad_Tail (adaptBTC tail m body)
     \<in> {tail, ''v3/bitcoin/address/balance/'' @ TrimPrefix (low_tail tail) ''balance/''} \<union> own_tails"
  "ad_Tail (adaptSOL tail m body) \<in> {tail} \<union> own_tails"
  "ad_Tail (adaptDOGE tail m body burl) \<in> {tail} \<union> own_tails"
  "ad_Tail (adaptLTC tail m body burl) \<in> {tail} \<union> own_tails"
proof -
  note d = own_tails_def passed_def get_only_def rpc_post_def Let_def
  show "ad_Tail (adaptTRX tail m body) \<in> {tail, ''v1/accounts/'' @ TrimPrefix (low_tail tail) ''balance/''}"
    by (simp add: adaptTRX_def d)
  show "ad_Tail (adaptBTC tail m body)
     \<in> {tail, ''v3/bitcoin/address/balance/'' @ TrimPrefix (low_tail tail) ''balance/''} \<union> own_tails"
    by (simp add: adaptBTC_def d)
  show "ad_Tail (adaptSOL tail m body) \<in> {tail} \<union> own_tails"
    by (simp add: adaptSOL_def d split: option.split)
  show "ad_Tail (adaptDOGE tail m body burl) \<in> {tail} \<union> own_tails"
    by (simp add: adaptDOGE_def d)
  show "ad_Tail (adaptLTC tail m body burl) \<in> {tail} \<union> own_tails"
    by (simp add: adaptLTC_def d)
qed

lemma evm_get_tail: "evm_get ltail = Some ad \<Longrightarrow> ad_Tail ad = []"
proof -
  have "evm_get ltail \<in> insert None (range (Some \<circ> rpc_post))" by (simp add: evm_get_def Let_def)
  then show "evm_get ltail = Some ad \<Longrightarrow> ad_Tail ad = []" by (auto simp: rpc_post_def)
qed

lemma adaptEVM_tail: "adaptEVM tail m body = Inr ad \<Longrightarrow> ad_Tail ad \<in> {tail, []}"
proof (cases "nft_parts (low_tail tail)")
  case None
  then show "adaptEVM tail m body = Inr ad \<Longrightarrow> ad_Tail ad \<in> {tail, []}"
    by (cases "if m = ''GET'' then evm_get (low_tail tail) else None")
      (auto simp: adaptEVM_def passed_def dest: evm_get_tail split: if_splits)
next
  case (Some parts)
  then show "adaptEVM tail m body = Inr ad \<Longrightarrow> ad_Tail ad \<in> {tail, []}"
    by (cases parts) (auto simp: adaptEVM_def rpc_post_def and_then_Inr)
qed

lemma climbs_balance:
  "climbs (''v1/accounts/'' @ addr) \<longleftrightarrow> climbs addr"
  "climbs (''v3/bitcoin/address/balance/'' @ addr) \<longleftrightarrow> climbs addr"
  using climbs_append [of "''v1/accounts''" addr] climbs_append [of "''v3/bitcoin/address/balance''" addr]
  by (simp_all add: climbs_def)

lemma adapted_climbs:
  "climbs (ad_Tail (adaptTRX tail m body)) \<Longrightarrow> climbs tail"
  "climbs (ad_Tail (adaptBTC tail m body)) \<Longrightarrow> climbs tail"
  "climbs (ad_Tail (adaptSOL tail m body)) \<Longrightarrow> climbs tail"
  "climbs (ad_Tail (adaptDOGE tail m body burl)) \<Longrightarrow> climbs tail"
  "climbs (ad_Tail (adaptLTC tail m body burl)) \<Longrightarrow> climbs tail"
  "adaptEVM tail m body = Inr ad \<Longrightarrow> climbs (ad_Tail ad) \<Longrightarrow> climbs tail"
  using adapted_tails [of tail m body] adapted_tails(4,5) [of tail m body burl] adaptEVM_tail [of tail m body ad]
    own_tails climbs_balance climbs_address climbs_Nil
  by (metis (no_types) Un_iff insertE singletonD)+

lemma Adapt_climbs:
  assumes "Adapt network protocol burl tail m body = Inr ad" "climbs (ad_Tail ad)"
  shows "climbs tail"
proof -
  have "Adapt network protocol burl tail m body \<in> {Inr (adaptTRX tail m body), Inr (adaptBTC tail m body),
      Inr (adaptSOL tail m body), Inr (adaptDOGE tail m body burl), Inr (adaptLTC tail m body burl),
      adaptEVM tail m body, Inr (passed tail m body [])}"
    by (simp add: Adapt_def Let_def)
  then consider "ad = adaptTRX tail m body" | "ad = adaptBTC tail m body" | "ad = adaptSOL tail m body"
    | "ad = adaptDOGE tail m body burl" | "ad = adaptLTC tail m body burl" | "Inr ad = adaptEVM tail m body"
    | "ad = passed tail m body []"
    unfolding assms(1) insert_iff empty_iff sum.inject by blast
  then show ?thesis
  proof cases
    case 6
    from adapted_climbs(6) [OF this [symmetric] assms(2)] show ?thesis .
  next
    case 7
    with assms(2) show ?thesis by (simp add: passed_def)
  qed (use assms(2) adapted_climbs(1-5) in blast)+
qed

lemma buildUpstreamURL_parts:
  obtains path query where "buildUpstreamURL b tail q = TrimRight b ''/'' @ path @ query"
    "query = [] \<or> hd query = CHR ''?''" "path = [] \<or> hd path = CHR ''/''" "climbs path \<Longrightarrow> climbs tail"
proof
  show "buildUpstreamURL b tail q = TrimRight b ''/'' @ (if tail \<noteq> [] then ''/'' @ TrimLeft tail ''/'' else [])
      @ (if q \<noteq> [] then ''?'' @ q else [])"
    by (simp add: buildUpstreamURL_def Let_def)
qed (auto split: if_splits dest: climbs_TrimLeft)

section \<open>Properties\<close>

text \<open>
  (C17) A path without escapes does not lead out of a node's path: when a request with such a path, other
  than by CONNECT, reaches the proxy, each request it causes goes to the URL of a best node, followed by nothing or by a
  slash and further segments, none of which climbs, and perhaps a query. The muxes have sent clients with
  other paths away, and no adapter brings such a segment in. (The path of a CONNECT request is not
  cleaned by a mux.)
\<close>
theorem proxied_path_confined:
  assumes "route table rq = Reached e" "in_method rq \<noteq> ''CONNECT''"
    and "CHR ''%'' \<notin> set (in_escaped rq)" "in_path rq = PathUnescape (in_escaped rq)"
    and "split_path (in_path rq) = (network, tail)"
    and "proxy_forward E r tor network tail (reg_Best r network) rq w = (res, w')"
    and "q \<in> set (sent w')" "q \<notin> set (sent w)"
  shows "\<exists>n \<in> set (reg_Best r network). \<exists>path query.
    rq_url q = TrimRight (URL n) ''/'' @ path @ query \<and> \<not> climbs path
    \<and> (path = [] \<or> hd path = CHR ''/'') \<and> (query = [] \<or> hd query = CHR ''?'')"
proof -
  have "\<not> climbs (in_path rq)" using reached_segments [OF assms(1-4)] by (auto simp: climbs_def)
  with climbs_split_path [OF assms(5)] have tail: "\<not> climbs tail" by blast
  from proxy_forward_calls [OF assms(6,7)] assms(8) obtain ad n query where
    a: "Adapt network (ProtocolOf r network) (URL (hd (reg_Best r network))) tail (in_method rq)
        (after_log (read_cap E) (in_body rq)) = Inr ad" "n \<in> set (reg_Best r network)"
      "rq_url q = buildUpstreamURL (URL n) (ad_Tail ad) query"
    by blast
  from buildUpstreamURL_parts [of "URL n" "ad_Tail ad" query] obtain path query' where
    "rq_url q = TrimRight (URL n) ''/'' @ path @ query'" "query' = [] \<or> hd query' = CHR ''?''"
    "path = [] \<or> hd path = CHR ''/''" "climbs path \<Longrightarrow> climbs (ad_Tail ad)" unfolding a(3) by metis
  with Adapt_climbs [OF a(1)] tail a(2) show ?thesis by blast
qed

text \<open>A path of proper segments is clean.\<close>

lemma cleanPath_proper:
  assumes "ss \<noteq> []" "list_all proper ss"
  shows "cleanPath (''/'' @ Join ss ''/'') = ''/'' @ Join ss ''/''"
proof -
  have "path_Clean (''/'' @ Join ss ''/'') = ''/'' @ Join ss ''/''"
    using Split_clean(1) [OF assms] clean_segments_id [OF assms(2), of "[]"] by (simp add: path_Clean_def)
  with Join_end [OF assms] show ?thesis
    by (simp add: cleanPath_def HasPrefix_def HasSuffix_def suffix_slash)
qed

lemma unescape_append: "CHR ''%'' \<notin> set s \<Longrightarrow> unescape keep (s @ t) = s @ unescape keep t"
proof (induction s)
  case (Cons c s)
  have "unescape keep (c # u) = c # unescape keep u" if "c \<noteq> CHR ''%''" for u
    using that by (cases u; cases "tl u") (auto simp: neq_Nil_conv)
  moreover have "c \<noteq> CHR ''%''" "CHR ''%'' \<notin> set s" using Cons.prems by auto
  ultimately show ?case using Cons.IH by simp
qed simp

lemma unescape_dot: "\<not> keep (CHR ''.'') \<Longrightarrow> unescape keep (''%2e'' @ r) = CHR ''.'' # unescape keep r"
proof -
  have "char_of (46 :: nat) = CHR ''.''" by (simp add: char_eq_nat)
  then show "\<not> keep (CHR ''.'') \<Longrightarrow> unescape keep (''%2e'' @ r) = CHR ''.'' # unescape keep r"
    by (simp add: digit_val_def Let_def)
qed

lemma proxy_loop_sends:
  assumes "url_ok E (rq_url (mk n))"
  shows "mk n \<in> set (sent (snd (proxy_loop E network mk (n # ns) w)))"
proof -
  obtain rp v where cd: "client_do E (mk n) w = (rp, v)" by fastforce
  then have v: "mk n \<in> set (sent v)" using client_do_sent [of E "mk n" w] by simp
  have more: "mk n \<in> set (sent u) \<Longrightarrow> mk n \<in> set (sent (snd (proxy_loop E network mk ns u)))" for u
    using proxy_loop_calls [of E network mk ns u "fst (proxy_loop E network mk ns u)" "snd (proxy_loop E network mk ns u)"]
    by auto
  show ?thesis
    unfolding proxy_loop_step [of E mk n w rp v, OF assms cd] by (auto simp: v more split: reply.split)
qed

text \<open>A pattern \<open>/k/\<close> without patterns below it takes all paths below it.\<close>

lemma route_below:
  assumes "(''/'' @ k @ ''/'', e) \<in> set table" "distinct (map fst table)"
    and "\<forall>p \<in> fst ` set table. \<not> strict_prefix (''/'' @ k @ ''/'') p"
    and "cleanPath (in_escaped rq) = in_escaped rq" "HasPrefix (in_escaped rq) ''/''"
    and "mux_path (in_escaped rq) = ''/'' @ k @ ''/'' @ t" "t \<noteq> []"
  shows "route table rq = Reached e"
proof -
  define pat where "pat = ''/'' @ k @ ''/''"
  define path where "path = pat @ t"
  have pat: "(pat, e) \<in> set table" "\<forall>p \<in> fst ` set table. \<not> strict_prefix pat p" "HasSuffix pat ''/''"
    using assms(1,3) by (simp_all add: pat_def HasSuffix_def suffix_slash)
  have pm: "pattern_match pat path" using pat(3) by (simp add: pattern_match_def HasPrefix_def path_def)
  then obtain f where f: "mux_match table path = Some f"
    using mux_match_None [of table path] pat(1) by fastforce
  have "length (fst e') \<le> length pat" if "e' \<in> set table" "pattern_match (fst e') path" for e'
  proof -
    have "prefix (fst e') path" by (rule pattern_match_prefix [OF that(2)])
    moreover have "prefix pat path" by (simp add: path_def)
    ultimately have "prefix (fst e') pat \<or> prefix pat (fst e')" by (rule prefix_same_cases)
    then show ?thesis using pat(2) that(1) by (auto simp: strict_prefix_def dest: prefix_length_le)
  qed
  with pm pat(1) have "best_match table path (pat, e)" by (simp add: best_match_def)
  with best_match_unique [OF assms(2) mux_match_best [OF f]] f have m: "mux_match table path = Some (pat, e)" by simp
  have "strict_prefix pat (path @ ''/'')" by (simp add: strict_prefix_def path_def)
  with pat(2) have "\<not> wants_slash table path" by (auto simp: wants_slash_def)
  moreover have "mux_path (in_escaped rq) = path" using assms(6) by (simp add: path_def pat_def)
  ultimately show ?thesis using m assms(4,5) by (simp add: route_def dispatch_def)
qed

text \<open>A segment \<open>..\<close> in the tail reaches the nodes of a network without an adapter.\<close>

lemma Serve_climbs:
  assumes "split_path (in_path rq) = (k, ''../'' @ t)" "in_method rq = ''POST''" "in_query rq = []"
    and "reg_Best r k = n # ns" "ToLower k \<notin> {''trx'', ''btc'', ''sol'', ''doge'', ''ltc''}"
    and "url_ok E (TrimRight (URL n) ''/'' @ ''/../'' @ t)"
  shows "\<exists>q \<in> set (sent (snd (snd (Serve E r tor rq g w)))). rq_url q = TrimRight (URL n) ''/'' @ ''/../'' @ t"
proof -
  have "\<not> HasPrefix (ToLower (''../'' @ t)) ''nft/''" by (simp add: ToLower_def lower_char_def HasPrefix_def)
  then have "nft_parts (low_tail (''../'' @ t)) = None"
    by (simp add: nft_parts_def low_tail_def TrimPrefix_def)
  then have ad: "Adapt k protocol b (''../'' @ t) ''POST'' body = Inr (passed (''../'' @ t) ''POST'' body [])" for protocol b body
    using assms(5) by (simp add: Adapt_def adaptEVM_def Let_def)
  let ?mk = "upstream_request tor (proxy_timeout r k (ProtocolOf r k))
    (passed (''../'' @ t) ''POST'' (after_log (read_cap E) (in_body rq)) []) (hset_all (in_hdr rq) []) []"
  have url: "rq_url (?mk n) = TrimRight (URL n) ''/'' @ ''/../'' @ t"
    by (simp add: buildUpstreamURL_def passed_def TrimLeft_def Let_def)
  have "TryServeGasFee E r rq k (''../'' @ t) g w = (Inr None, g, w)"
    using assms(2) by (simp add: TryServeGasFee_def)
  then have "Serve E r tor rq g w = (case proxy_forward E r tor k (''../'' @ t) (n # ns) rq w of (res, v) \<Rightarrow> (res, g, v))"
    by (simp add: Serve_def assms(1) assms(4) Let_def)
  moreover have "?mk n \<in> set (sent (snd (proxy_forward E r tor k (''../'' @ t) (n # ns) rq w)))"
  proof -
    have "snd (proxy_forward E r tor k (''../'' @ t) (n # ns) rq w)
        \<in> {snd (proxy_loop E k ?mk (n # ns) w), count ProxyFail k (snd (proxy_loop E k ?mk (n # ns) w))}"
      unfolding proxy_forward_def Let_def assms(2) ad sum.case passed_def adapted.simps
      by (simp add: assms(3) split: prod.split sum.split option.split)
    then show ?thesis using proxy_loop_sends [of E ?mk n k ns w] url assms(6) by auto
  qed
  ultimately have "?mk n \<in> set (sent (snd (snd (Serve E r tor rq g w))))" by (simp only: case_prod_beta prod.sel)
  with url show "\<exists>q \<in> set (sent (snd (snd (Serve E r tor rq g w)))). rq_url q = TrimRight (URL n) ''/'' @ ''/../'' @ t"
    by (rule bexI)
qed

text \<open>
  With escapes it does: the muxes do not look behind \<open>%2e\<close>, and the proxy uses the path without escapes.
  So a client reaches a sibling of the node's path on the node's host, with the node's headers.
\<close>
theorem encoded_dots_climb:
  assumes "proper k" "CHR ''%'' \<notin> set k" "proper t" "CHR ''%'' \<notin> set t"
    and "(''/'' @ k @ ''/'', e) \<in> set table" "distinct (map fst table)"
    and "\<forall>p \<in> fst ` set table. \<not> strict_prefix (''/'' @ k @ ''/'') p"
    and "in_method rq = ''POST''" "in_query rq = []"
    and "in_escaped rq = ''/'' @ k @ ''/%2e%2e/'' @ t" "in_path rq = ''/'' @ k @ ''/../'' @ t"
    and "reg_Best r k = n # ns" "ToLower k \<notin> {''trx'', ''btc'', ''sol'', ''doge'', ''ltc''}"
    and "url_ok E (TrimRight (URL n) ''/'' @ ''/../'' @ t)"
  shows "in_path rq = PathUnescape (in_escaped rq) \<and> route table rq = Reached e
    \<and> (\<exists>q \<in> set (sent (snd (snd (Serve E r tor rq g w)))). rq_url q = TrimRight (URL n) ''/'' @ ''/../'' @ t)"
proof (intro conjI)
  have u: "unescape keep (''/'' @ k @ ''/%2e%2e/'' @ t) = ''/'' @ k @ ''/../'' @ t" if "\<not> keep (CHR ''.'')" for keep
  proof -
    have "unescape keep (''/'' @ t) = ''/'' @ t"
      using unescape_append [of "''/'' @ t" keep "[]"] assms(4) by simp
    moreover have "unescape keep (''%2e'' @ ''%2e'' @ ''/'' @ t) = CHR ''.'' # unescape keep (''%2e'' @ ''/'' @ t)"
      by (rule unescape_dot) (rule that)
    moreover have "unescape keep (''%2e'' @ ''/'' @ t) = CHR ''.'' # unescape keep (''/'' @ t)"
      by (rule unescape_dot) (rule that)
    ultimately have "unescape keep (''%2e'' @ ''%2e'' @ ''/'' @ t) = ''../'' @ t" by (simp only: append_Cons append_Nil)
    with unescape_append [of "''/'' @ k @ ''/''" keep "''%2e'' @ ''%2e'' @ ''/'' @ t"] assms(2) show ?thesis by simp
  qed
  show "in_path rq = PathUnescape (in_escaped rq)"
    unfolding assms(10,11) PathUnescape_def by (rule u [symmetric]) simp
  have path: "mux_path (in_escaped rq) = ''/'' @ k @ ''/'' @ ''../'' @ t"
    using u [of "\<lambda>d. d = CHR ''/''"] unfolding assms(10) mux_path_def by simp
  have "in_escaped rq = ''/'' @ Join [k, ''%2e%2e'', t] ''/''" using assms(10) by simp
  moreover have "list_all proper [k, ''%2e%2e'', t]" using assms(1,3) by (simp add: proper_def)
  ultimately have clean: "cleanPath (in_escaped rq) = in_escaped rq"
    using cleanPath_proper [of "[k, ''%2e%2e'', t]"] by (simp only: not_Cons_self2 list.distinct not_False_eq_True)
  show "route table rq = Reached e"
    by (rule route_below [OF assms(5-7) clean _ path]) (simp_all add: assms(10) HasPrefix_def)
  have "split_path (in_path rq) = (k, ''../'' @ t)"
    using split_path_simple(2) [of k "''../'' @ t"] assms(1,11) by (simp add: proper_def)
  then show "\<exists>q \<in> set (sent (snd (snd (Serve E r tor rq g w)))). rq_url q = TrimRight (URL n) ''/'' @ ''/../'' @ t"
    by (rule Serve_climbs [OF _ assms(8,9,12,13,14)])
qed

subsection \<open>Instances\<close>

theorem proxied_path_confined_witness:
  "\<exists>q path. q \<in> set (sent (snd (proxy_forward failing_first other_registry [] ''n'' []
       (reg_Best other_registry ''n'') (get_root []) new_world)))
     \<and> (\<exists>query. rq_url q = ''a'' @ path @ query \<or> rq_url q = ''b'' @ path @ query) \<and> \<not> climbs path"
proof -
  let ?F = "proxy_forward failing_first other_registry [] ''n'' [] (reg_Best other_registry ''n'') (get_root []) new_world"
  have "reg_Best other_registry ''n'' \<noteq> []" by (simp add: reg_Best_def other_registry_def)
  then obtain q where q: "q \<in> set (sent (snd ?F))" by (rule other_sends)
  have "route [(''/n'', ()), (''/n/'', ())] (get_root []) = Reached ()"
    unfolding get_root_def route_def Let_def incoming.simps by code_simp
  moreover have "split_path (in_path (get_root [])) = (''n'', [])"
    using split_path_simple(1) [of "''n''"] by (simp add: get_root_def)
  moreover have "in_method (get_root []) \<noteq> ''CONNECT''" "CHR ''%'' \<notin> set (in_escaped (get_root []))"
    "in_path (get_root []) = PathUnescape (in_escaped (get_root []))"
    by (simp_all add: get_root_def PathUnescape_def)
  ultimately have "\<exists>n \<in> set (reg_Best other_registry ''n''). \<exists>path query.
      rq_url q = TrimRight (URL n) ''/'' @ path @ query \<and> \<not> climbs path
      \<and> (path = [] \<or> hd path = CHR ''/'') \<and> (query = [] \<or> hd query = CHR ''?'')"
    using proxied_path_confined [of "[(''/n'', ()), (''/n/'', ())]" "get_root []" "()" "''n''" "[]" failing_first
        other_registry "[]" new_world "fst ?F" "snd ?F" q] q by simp
  moreover have "TrimRight (URL n) ''/'' \<in> {''a'', ''b''}" if "n \<in> set (reg_Best other_registry ''n'')" for n
    using that by (auto simp: reg_Best_def other_registry_def TrimRight_def)
  ultimately show ?thesis using q by (metis empty_iff insert_iff)
qed

definition climbing :: incoming where
  "climbing = (get_root [])\<lparr>in_method := ''POST'', in_escaped := ''/n/%2e%2e/x'', in_path := ''/n/../x''\<rparr>"

theorem encoded_dots_climb_witness:
  "route [(''/n'', ()), (''/n/'', ())] climbing = Reached ()
     \<and> (\<exists>q \<in> set (sent (snd (snd (Serve failing_first other_registry [] climbing gas_init new_world)))).
          rq_url q = ''a/../x'')"
proof -
  let ?b = "mk_ping (plain_node ''b'' 2) True 1" and ?a = "mk_ping (plain_node ''a'' 1) True 1"
  have best: "reg_Best other_registry ''n'' = [?a, ?b]" by (simp add: reg_Best_def other_registry_def)
  have low: "ToLower ''n'' = ''n''" by code_simp
  have c: "in_method climbing = ''POST''" "in_query climbing = []" "in_escaped climbing = ''/n/%2e%2e/x''"
    "in_path climbing = ''/n/../x''" by (simp_all add: climbing_def get_root_def)
  have u: "url_ok failing_first v" "TrimRight ''a'' ''/'' = ''a''" for v
    by (simp_all add: failing_first_def TrimRight_def)
  have "proper ''n''" "proper ''x''" by (simp_all add: proper_def)
  then show ?thesis
    using encoded_dots_climb [of "''n''" "''x''" "()" "[(''/n'', ()), (''/n/'', ())]" climbing other_registry ?a "[?b]"
        failing_first "[]" gas_init new_world] best
    by (simp add: c u low strict_prefix_def)
qed

end
