(* ===== verification/Regression.thy ===== *)
theory Regression
  imports Networks Health
begin

text \<open>
  The repository's own tests, as theorems about the model. The file and the servers of the tests are
  given by what they contain and answer; the YAML decoder, which is a parameter, yields what the test
  checks of it.
\<close>

section \<open>pkg/networks/loader_test.go\<close>

definition foo_yaml :: string where
  "foo_yaml = ''
route: /foo
protocol: evm
nodes:
  - url: https://example.com
    priority: 1
''"

definition foo_config :: NetworkConfig where
  "foo_config = \<lparr>nc_Route = ''/foo'', nc_Protocol = ''evm'', nc_Nodes = [plain_node ''https://example.com'' 1],
     nc_TimeoutMs = 0, nc_Gas = None\<rparr>"

lemma expand_plain: "CHR ''$'' \<notin> set s \<Longrightarrow> expand getenv file s = (s, []) \<and> \<not> has_var s"
proof (induction s)
  case (Cons c s)
  then have "match_var (c # s) = None" by (cases s) auto
  with Cons show ?case by (subst expand.simps) simp
qed (simp add: expand.simps)

text \<open>\<open>TestLoadAll_ParsesYAML\<close>\<close>

theorem LoadAll_ParsesYAML:
  assumes "yaml foo_yaml = Some foo_config"
  shows "\<exists>cfgs log c. LoadAll getenv yaml [''foo.yaml'' \<mapsto> foo_yaml]
      (Some [\<lparr>de_name = ''foo.yaml'', de_isdir = False\<rparr>]) = Inr (cfgs, log)
    \<and> cfgs ''foo'' = Some c \<and> nc_Protocol c = ''evm'' \<and> nc_Route c = ''/foo''"
proof -
  have "CHR ''$'' \<notin> set foo_yaml" by (simp add: foo_yaml_def)
  note plain = expand_plain [OF this]
  have "HasSuffix ''foo.yaml'' ''.yaml''" "TrimSuffix ''foo.yaml'' ''.yaml'' = ''foo''" by code_simp+
  with assms plain show ?thesis by (simp add: LoadAll_def load_one_def foo_config_def)
qed

section \<open>pkg/registry/registry_test.go\<close>

definition testnet :: NetworkConfig where
  "testnet = \<lparr>nc_Route = ''/testnet'', nc_Protocol = ''evm'', nc_Nodes = [plain_node ''http://example.com'' 1],
     nc_TimeoutMs = 0, nc_Gas = None\<rparr>"

text \<open>\<open>TestAddAndGetNetwork\<close>\<close>

theorem AddAndGetNetwork:
  "\<exists>st. reg_All (AddNetwork testnet [] reg_New) ''testnet'' = Some st \<and> st_Protocol st = ''evm''"
proof -
  have "TrimPrefix ''/testnet'' ''/'' = ''testnet''" by code_simp
  then show ?thesis by (simp add: AddNetwork_def testnet_def reg_All_def)
qed

text \<open>\<open>TestSanitizeNodes_MasksSecrets\<close>, for a node that answered or not.\<close>

theorem SanitizeNodes_MasksSecrets:
  "map Headers (SanitizeNodes
     [mk_ping ((plain_node [] 0)\<lparr>Headers := Some [(''X-Api-Key'', ''secret''),
        (''Authorization'', ''Bearer token''), (''Custom'', ''ok'')]\<rparr>) alive ping])
   = [Some [(''X-Api-Key'', ''***''), (''Authorization'', ''***''), (''Custom'', ''ok'')]]"
proof -
  have "ToLower ''X-Api-Key'' \<in> set headerKeySet" "ToLower ''Authorization'' \<in> set headerKeySet"
    "ToLower ''Custom'' \<notin> set headerKeySet" by code_simp+
  then show ?thesis by (simp add: SanitizeNodes_def RedactHeaders_def redact_pair_def mk_ping_def plain_node_def Node.defs)
qed

section \<open>pkg/health/health_test.go\<close>

text \<open>At a URL a server answers each request with status 200 and the given body, after any time.\<close>

definition server_at :: "env \<Rightarrow> string \<Rightarrow> string \<Rightarrow> bool" where
  "server_at E url body \<longleftrightarrow> url_ok E url \<and> (\<forall>v rq. rq_url rq = url \<longrightarrow>
     (\<exists>h d. transport E v rq = (Got \<lparr>rs_status = 200, rs_hdr = h, rs_body = body\<rparr>, d)))"

lemma exchange_alive:
  assumes "server_at E (rq_url rq) body" "\<And>h. good \<lparr>rs_status = 200, rs_hdr = h, rs_body = body\<rparr>"
  shows "\<exists>ping w'. exchange E url rq good c w = Inr ((True, ping), c, w') \<and> 0 \<le> ping \<and> sent w' = sent w @ [rq]"
proof -
  from assms(1) obtain h d where
    t: "transport E w rq = (Got \<lparr>rs_status = 200, rs_hdr = h, rs_body = body\<rparr>, d)" "url_ok E (rq_url rq)"
    unfolding server_at_def by metis
  have "0 \<le> Milliseconds (int d)" by (simp add: Milliseconds_def)
  then show ?thesis by (simp add: exchange_def send_def client_do_def t assms(2))
qed

definition rpc_body :: "string \<Rightarrow> string" where
  "rpc_body result = ''{\"jsonrpc\":\"2.0\",\"id\":1,\"result\":\"'' @ result @ ''\"}''"

lemma rpc_body_good:
  "evm_good \<lparr>rs_status = st, rs_hdr = h, rs_body = rpc_body ''0x10''\<rparr>"
  "evm_good \<lparr>rs_status = st, rs_hdr = h, rs_body = rpc_body ''0x1''\<rparr>"
  unfolding evm_good_def response.simps by code_simp+

lemma checkEVM_alive:
  assumes "server_at E (URL n) (rpc_body r)" "r \<in> {''0x10'', ''0x1''}"
  shows "\<exists>ping w'. checkEVM E n tmo c w = Inr ((True, ping), c, w') \<and> 0 \<le> ping"
proof -
  have "evm_good \<lparr>rs_status = 200, rs_hdr = h, rs_body = rpc_body r\<rparr>" for h
    using assms(2) rpc_body_good by blast
  from exchange_alive [where rq = "probe_request c n tmo ''POST'' (URL n) (json_type (node_headers n hempty))
      (Marshal (JMap [(''jsonrpc'', JStr ''2.0''), (''method'', JStr ''eth_blockNumber''), (''id'', JInt 1)]))"
      and good = evm_good and body = "rpc_body r", OF _ this] assms(1)
  show ?thesis unfolding checkEVM_def by (fastforce simp: probe_request_def)
qed

text \<open>\<open>TestCheckEVM_OK\<close>\<close>

theorem CheckEVM_OK:
  assumes "server_at E url (rpc_body ''0x10'')"
  shows "\<exists>ping c' w'. checkEVM E (plain_node url 0) (sec 2) c w = Inr ((True, ping), c', w') \<and> 0 \<le> ping"
  using checkEVM_alive [of E "plain_node url 0" "''0x10''" "sec 2" c w] assms by fastforce

text \<open>\<open>TestCheckBTC_AllVariants\<close>: a server below \<open>/api\<close> is asked for the height, at the path the test wants.\<close>

theorem CheckBTC_Blockstream:
  assumes "server_at E (url @ ''/api/blocks/tip/height'') ''123456''"
  shows "\<exists>ping c' w'. checkBTC E (plain_node (url @ ''/api'') 0) (sec 2) c w = Inr ((True, ping), c', w')"
proof -
  have u: "TrimSuffix (url @ ''/api'') ''/'' = url @ ''/api''" "HasSuffix (url @ ''/api'') ''/api''"
    by (simp_all add: TrimSuffix_def HasSuffix_def suffix_def)
  from exchange_alive [where rq = "probe_request c (plain_node (url @ ''/api'') 0) (sec 2) ''GET''
      (url @ ''/api/blocks/tip/height'') hempty []" and good = "\<lambda>_. True", of E "''123456''" "url @ ''/api''" c w] assms
  show ?thesis by (fastforce simp: checkBTC_def probe_request_def u)
qed

text \<open>
  The variant of Tatum's gateway, with the key as a header: the request the test checks, a POST with the
  key, the method \<open>getblockcount\<close> and the answer it gives.
\<close>

theorem CheckBTC_Tatum:
  assumes "Contains url ''gateway.tatum.io''" "\<not> Contains url ''blockstream.info''" "\<not> HasSuffix url ''/api''"
    "\<not> HasSuffix url ''/''" "server_at E url body"
  shows "\<exists>ping c' w' rq. checkBTC E ((plain_node url 0)\<lparr>Headers := Some [(''x-api-key'', key)]\<rparr>) (sec 2) c w
      = Inr ((True, ping), c', w') \<and> sent w' = sent w @ [rq]
    \<and> rq_method rq = ''POST'' \<and> hget (rq_hdr rq) ''x-api-key'' = key
    \<and> rq_body rq = ''{\"jsonrpc\":\"2.0\",\"id\":1,\"method\":\"getblockcount\",\"params\":[]}''"
proof -
  let ?n = "(plain_node url 0)\<lparr>Headers := Some [(''x-api-key'', key)]\<rparr>"
  let ?body = "Marshal (JObj [(''jsonrpc'', JStr ''2.0''), (''id'', JInt 1), (''method'', JStr ''getblockcount''), (''params'', JArr [])])"
  let ?rq = "probe_request c ?n (sec 2) ''POST'' url (json_type (node_headers ?n hempty)) ?body"
  have u: "TrimSuffix url ''/'' = url" using assms(4) by (simp add: TrimSuffix_def HasSuffix_def)
  have "\<not> EqualFold ''content-type'' ''x-api-key''" "EqualFold ''x-api-key'' ''x-api-key''" by code_simp+
  then have h: "hget (rq_hdr ?rq) ''x-api-key'' = key" by (simp add: probe_request_def json_type_def node_headers_def)
  have b: "?body = ''{\"jsonrpc\":\"2.0\",\"id\":1,\"method\":\"getblockcount\",\"params\":[]}''" by code_simp
  have "checkBTC E ?n (sec 2) c w = exchange E url ?rq (\<lambda>_. True) c w"
    using assms(1-3) u by (simp add: checkBTC_def)
  moreover from exchange_alive [where rq = ?rq and good = "\<lambda>_. True", of E body url c w] assms(5) obtain ping w' where
    "exchange E url ?rq (\<lambda>_. True) c w = Inr ((True, ping), c, w')" "sent w' = sent w @ [?rq]"
    by (auto simp: probe_request_def)
  ultimately have "checkBTC E ?n (sec 2) c w = Inr ((True, ping), c, w')" "sent w' = sent w @ [?rq]" by simp_all
  moreover have "rq_method ?rq = ''POST''" "rq_body ?rq = ?body" by (simp_all add: probe_request_def)
  ultimately show ?thesis using h b by metis
qed

text \<open>
  \<open>TestUpdateNetwork_Prioritizes\<close>: both nodes are best nodes, in the order of their priorities, however
  long they take.
\<close>

theorem UpdateNetwork_Prioritizes:
  assumes "server_at E fast (rpc_body ''0x1'')" "server_at E slow (rpc_body ''0x1'')"
  shows "\<exists>a b c' w'. UpdateNetwork E r ''evm'' [plain_node fast 1, plain_node slow 2] c w = Inr ([a, b], c', w')
    \<and> URL a = fast"
proof -
  obtain p v where p: "checkEVM E (plain_node fast 1) (perNodeTimeout r ''evm'') c w = Inr ((True, p), c, v)"
    using checkEVM_alive [of E "plain_node fast 1" "''0x1''"] assms(1) by fastforce
  obtain q u where q: "checkEVM E (plain_node slow 2) (perNodeTimeout r ''evm'') c v = Inr ((True, q), c, u)"
    using checkEVM_alive [of E "plain_node slow 2" "''0x1''"] assms(2) by fastforce
  have "PickFastestPerPriority [mk_ping (plain_node fast 1) True p, mk_ping (plain_node slow 2) True q]
      = [mk_ping (plain_node fast 1) True p, mk_ping (plain_node slow 2) True q]"
    by (simp add: PickFastestPerPriority_def PickFastest_def fastest_of_def)
  then show ?thesis by (simp add: UpdateNetwork_def check_node_def p q)
qed

end
