(* ===== verification/Spec2Isabelle.thy ===== *)
theory Spec2Isabelle
  imports Server GasClients Confinement Regression
begin

text \<open>
  Mezzium is a gateway in front of pools of blockchain RPC nodes. It reads networks and their nodes
  from YAML files, probes the nodes every thirty seconds, keeps the fastest alive node of each
  priority as the network's best nodes, and forwards client requests to them. Instances find each
  other by a signed announcement, exchange peers and nodes by gossip and elect a leader. This
  library models the Go program under src/ and proves what makes each part correct.

  \<^bold>\<open>The parts and their theories.\<close> The theories follow the packages; a definition has the name of the
  function it models, with a prefix where two packages use the same name (\<open>reg_\<close>, \<open>peers_\<close>,
  \<open>admin_\<close>, \<open>health_\<close>, ...).

  \<^item> \<open>Prelude\<close>: int64 arithmetic, panics, the routines of Go's strings package, maps met in an order.
  \<^item> \<open>Utf8\<close>, \<open>Codec\<close>, \<open>Json\<close>: runes; numbers as text, the operations of big.Int that are used, hex, JSON
    values with \<open>Marshal\<close> and the decoding of structs; the reader of encoding/json as a push-down
    automaton (\<open>Unmarshal\<close>, \<open>Decode\<close>) with the proof that it reads back what \<open>Marshal\<close> wrote.
  \<^item> \<open>Float64\<close>, \<open>AnyValues\<close>, \<open>JsonTyping\<close>: the literals of numbers as float64 and back; what survives a
    \<open>map[string]any\<close>; the proof that the reader yields UTF-8 texts, well-formed numbers and bounded
    nesting, and how decoders keep the types of what they fill.
  \<^item> \<open>Metrics\<close> (pkg/metrics): the six Prometheus vectors that the proxy, the health passes and the
    WebSocket handler write.
  \<^item> \<open>Http\<close>: headers, requests, responses, the environment \<open>env\<close> and the world \<open>world\<close>, the helpers of
    pkg/api/log_utils.go.
  \<^item> \<open>Secrets\<close> (pkg/secrets), \<open>Networks\<close> (pkg/networks), \<open>Registry\<close> (pkg/registry): redaction, the
    configuration, the table of networks.
  \<^item> \<open>Health\<close> (pkg/health), \<open>HealthLoop\<close> (cmd/app/health.go and limiter.go): the probes of six
    protocols, and the health pass as goroutines with semaphores.
  \<^item> \<open>Peers\<close>, \<open>Leader\<close>, \<open>Gossip\<close>, \<open>Bootstrap\<close> (the packages of these names and
    cmd/app/bootstrap.go).
  \<^item> \<open>Throttle\<close> (pkg/api/ratelimit.go and throttle.go), \<open>Forward\<close> and \<open>Public\<close> (pkg/api/public.go):
    the back-off of rate-limited nodes, the loop over the nodes that five routines share, the public
    handlers.
  \<^item> \<open>Adapters\<close> (pkg/adapters): the rewriting of requests per network, the calldata of contract calls.
  \<^item> \<open>Oracle\<close> (pkg/oracle), \<open>GasCache\<close> (pkg/api/gas.go), \<open>Proxy\<close> (pkg/api/proxy.go): fee tiers, the
    gas endpoint with its caches, the proxy. \<open>GasClients\<close>: the gas handler of a network with
    many clients at a time, as a step relation (the five named networks; the shared handler of the others
    is in \<open>GasCache\<close> only).
  \<^item> \<open>Admin\<close> (pkg/api/admin.go): the five admin endpoints. \<open>Handlers\<close>: \<open>StateHandler\<close> and the four admin
    handlers that change the registry, in the steps in which they touch it.
  \<^item> \<open>Websocket\<close> (pkg/api/ws.go): the choice of the upstream, and the two copying loops as a step
    relation.
  \<^item> \<open>Mux\<close>: how the muxes of net/http send a request to a handler or away: the longest pattern, clean
    paths, paths with a slash, escapes. \<open>Confinement\<close>: the muxes, the proxy and the adapters together.
  \<^item> \<open>App\<close> (cmd/app, pkg/docs): configuration, routes, CORS headers, and the health loop interleaved with
    the requests that change the registry, as a step relation.
  \<^item> \<open>Server\<close> (cmd/app/routes.go, server.go and main.go): the state that all handlers share, the handler
    behind each route, the two muxes and the CORS wrappers around them (\<open>serve\<close>), and \<open>main\<close> until it
    listens.
  \<^item> \<open>Regression\<close>: the repository's own tests, as theorems about the model.

  \<^bold>\<open>State and interaction.\<close> The registry is a partial map from names to \<open>NetworkState\<close> that every
  operation takes and returns. The checker holds the set of URLs to drop, the throttler its two maps,
  the gas endpoint its oracles and caches. What lies outside the program is in two records: \<open>env\<close> (the
  network's answers, the parsing of URLs, slice capacities) does not change; \<open>world\<close> is the list of
  the requests sent so far, the clock and the metrics. Handlers are functions of all these, in the
  order of the calls of the code. Ranges over Go maps take the order as an argument; where the result
  does not depend on it, that is a theorem.

  A panic is the value \<open>Inl\<close> of the panic type: slice bounds, the allocation limit of \<open>make\<close>, and the
  dereference of a nil request. In a handler it ends the request; in a goroutine of a pass it ends the
  process (\<open>pa_crash\<close>).

  Concurrency is explicit where the program has it: \<open>pass_step\<close> is one step of one goroutine of a
  health pass; \<open>app_step\<close> adds the health loop around it and any number of handlers that change the
  registry (\<open>handler_step\<close>). What is done under the registry's lock is one step. \<open>StateHandler\<close> and
  \<open>DeleteNode\<close> take no lock, so each of their reads and writes of a field is a step; the probes of an
  admin handler together are one. Goroutines and handlers hold pointers to network states, also to those
  that an added network has replaced meanwhile (\<open>pa_old\<close>, \<open>lose\<close>). Memory is sequentially consistent:
  a write without the lock does not tear, nor does it fall into a section under the lock. A handler
  that runs alone does what its function in \<open>Gossip\<close> or \<open>Admin\<close> does (\<open>runs_alone\<close>), and the process
  can do it so; the theorems of \<open>Server\<close> are about requests one after the other. \<open>relay_step\<close> is a
  step of one of the two loops of a WebSocket session (\<open>rl_log\<close> holds the subscriptions it logs, not the
  errors), \<open>gas_step\<close> one of a client of a gas endpoint.

  \<^bold>\<open>Interfaces.\<close> Each locale states what a client relies on, and is interpreted on the model:
  \<open>network_op\<close> and \<open>wf_op\<close> (Registry: operations on one network, operations that keep the best nodes
  among the nodes), \<open>peer_store\<close> (Peers), \<open>throttler\<close> (Throttle, used by Forward), \<open>prober\<close> (Health:
  what the loop over the nodes needs of a probe), \<open>gas_source\<close> (Oracle, used by GasCache),
  \<open>registry_invariant\<close> (App: a property of the registry that every operation keeps) and its extension
  \<open>lock_free\<close> (that the writes without the lock keep, too), \<open>typed_decoder\<close> and its
  extension \<open>typed_elements\<close> (JsonTyping: a decoder that keeps the type of what it fills, interpreted on
  the decoders of Gossip and Bootstrap).

  \<^bold>\<open>What the theorems show.\<close> For the pools: the selection of the best nodes, the pruning and merging of
  learnt nodes, the removal of failed ones, one round of the loop against its contract. For the
  passes: they end, they never block, the limiters hold, every interleaving stores what the probes
  found; the limiters hold and no pass blocks with requests in between, either. For requests: fail-over order, the reach of a proxied request (a best node, and without
  escapes nothing above the path of its URL), the throttling schedule, the
  caching of fees, the exact fee tiers and their floor, the encoding of calldata, the bound on the
  work one request causes. For the peers: the announcement end to end, the guards of the handlers,
  the round trip of every message, the delivery of state by gossip, agreement on the leader. For the
  server: an invariant under every sequence of requests, the types of what clients put into the peer
  store, what a client without the key can change, the state in which main starts to listen, the
  order of relayed WebSocket messages, the age of a cached fee under concurrent clients. For the
  metrics: what the proxy and the passes count. Theorems without a claim number are further facts;
  those that describe a defect are named by the findings.

  \<^bold>\<open>Bounds.\<close> Fees, time-outs and timestamps are integers with the wrap-around of int64 written out;
  counts and page sizes of the NFT listing are 64-bit words. Strings are byte strings; letter case is
  that of ASCII. No fuel is used: every loop is structural or has a measure, and the goroutines'
  progress is proved on the step relation.

  \<^bold>\<open>Not modelled.\<close> The text of the logs, which the program never reads, and that of the page of
  metrics, which the Prometheus library makes; the printing of the version; ListenAndServe, the
  request target \<open>*\<close> and the text of the mux's redirects, a parameter; the Swagger
  pages, which a third-party package serves; patterns of the mux
  with a host, a method, wildcards or escapes, which a route of a configuration could spell; the WebSocket
  protocol; the connection pooling and the redirects of Go's HTTP client; the YAML decoder and HMAC,
  which are parameters; the elements that a second member of the same name finds in a slice that a
  JSON array has filled before, except in \<open>EthFee\<close>.
\<close>

end
